(* ===== verification/FG_Base.thy ===== *)
theory FG_Base
  imports Main "HOL-Library.Word"
begin

text \<open>
  Prelude of the FlowGate development: the Go types every component uses (64-bit integers with
  wrap-around, \<open>time.Time\<close>, \<open>time.Duration\<close>, \<open>error\<close> values, panics, HTTP responses), the
  collections of facts the components share, and the interfaces (locales) the components are
  proved against: transition systems with an invariant, expiring maps with a sweeper, first-in
  first-out queues and codecs.

  Conventions. A Go \<open>string\<close> and a \<open>[]byte\<close> are a HOL \<open>string\<close>: both are byte sequences and a
  HOL \<open>char\<close> is one byte. A \<open>time.Time\<close> is the number of nanoseconds since the Unix epoch, a
  \<open>time.Duration\<close> the number of nanoseconds. A Go pointer result that may be \<open>nil\<close> is an option,
  a pair of a result and an \<open>error\<close> is a sum whose left side is the error.
\<close>

section \<open>Machine integers, times and durations\<close>

type_synonym time = int
type_synonym duration = int
type_synonym bytes = string

abbreviation Second :: duration where
  "Second \<equiv> 1000000000"

abbreviation Hour :: duration where
  "Hour \<equiv> 3600000000000"

abbreviation Millisecond :: duration where
  "Millisecond \<equiv> 1000000"

definition min_int64 :: int where
  "min_int64 = - (2 ^ 63)"

definition max_int64 :: int where
  "max_int64 = 2 ^ 63 - 1"

definition in_int64 :: "int \<Rightarrow> bool" where
  "in_int64 x \<longleftrightarrow> min_int64 \<le> x \<and> x \<le> max_int64"

text \<open>The facts that decide whether a number fits in an \<open>int64\<close>, for \<open>simp\<close> and \<open>auto\<close>.\<close>

named_theorems int64

lemmas int64_bounds [int64] = in_int64_def min_int64_def max_int64_def

text \<open>
  Two more collections: facts that an operation keeps an invariant, and the definitions of the
  example data on which the witnesses evaluate the model.
\<close>

named_theorems keeps
named_theorems sample

text \<open>The value of an \<open>int64\<close> expression whose exact value is \<open>x\<close>.\<close>

definition wrap64 :: "int \<Rightarrow> int" where
  "wrap64 x = (x + 2 ^ 63) mod 2 ^ 64 - 2 ^ 63"

text \<open>
  Go's \<open>Time.Sub\<close> saturates at the extreme durations; \<open>Time.Add\<close> and \<open>Time.After\<close> are exact on
  the model's unbounded time line; \<open>Time.Unix\<close> rounds down to whole seconds.
\<close>

definition time_sub :: "time \<Rightarrow> time \<Rightarrow> duration" where
  "time_sub a b = max min_int64 (min max_int64 (a - b))"

definition time_add :: "time \<Rightarrow> duration \<Rightarrow> time" where
  "time_add t d = t + d"

definition time_after :: "time \<Rightarrow> time \<Rightarrow> bool" where
  "time_after a b \<longleftrightarrow> b < a"

definition to_unix :: "time \<Rightarrow> int" where
  "to_unix t = t div Second"

definition of_unix :: "int \<Rightarrow> time" where
  "of_unix s = s * Second"

text \<open>Go's integer division truncates towards zero.\<close>

definition go_div :: "int \<Rightarrow> int \<Rightarrow> int" where
  "go_div a b = sgn a * sgn b * (\<bar>a\<bar> div \<bar>b\<bar>)"

section \<open>Errors, panics and results\<close>

text \<open>
  Values of Go's \<open>error\<close> interface: \<open>Err\<close> is an error known by its text, \<open>Wrap\<close> is
  \<open>fmt.Errorf("<context>: %w", err)\<close>, the others are the program's sentinel errors.
\<close>

datatype go_error =
    Err string
  | Wrap string go_error
  | ErrHasActiveTransfers
  | ErrMissingToken
  | ErrInvalidToken
  | ErrUnique string
  | ErrForeignKey

fun error_string :: "go_error \<Rightarrow> string" where
  "error_string (Err s) = s"
| "error_string (Wrap ctx e) = ctx @ '': '' @ error_string e"
| "error_string ErrHasActiveTransfers = ''resource has active transfers''"
| "error_string ErrMissingToken = ''missing Authorization header''"
| "error_string ErrInvalidToken = ''invalid Authorization token''"
| "error_string (ErrUnique c) = ''constraint failed: UNIQUE constraint failed: '' @ c"
| "error_string ErrForeignKey = ''constraint failed: FOREIGN KEY constraint failed''"

text \<open>\<open>errors.Is(err, target)\<close>: the target occurs in the chain of wrapped errors.\<close>

fun errors_Is :: "go_error \<Rightarrow> go_error \<Rightarrow> bool" where
  "errors_Is (Wrap ctx e) t \<longleftrightarrow> Wrap ctx e = t \<or> errors_Is e t"
| "errors_Is e t \<longleftrightarrow> e = t"

datatype panic =
    CloseOfClosedChannel
  | SendOnClosedChannel
  | NilDereference
  | NonPositiveTicker
  | NegativeShift
  | Int63nNonPositive
  | RandUnavailable
  | SliceOutOfRange

type_synonym 'a res = "go_error + 'a"

section \<open>Reachable states of a transition system\<close>

inductive reach :: "('s \<Rightarrow> bool) \<Rightarrow> ('s \<Rightarrow> 's \<Rightarrow> bool) \<Rightarrow> 's \<Rightarrow> bool"
  for init :: "'s \<Rightarrow> bool" and step :: "'s \<Rightarrow> 's \<Rightarrow> bool" where
  reach_init: "init s \<Longrightarrow> reach init step s"
| reach_step: "reach init step s \<Longrightarrow> step s t \<Longrightarrow> reach init step t"

lemma no_descent: "\<forall>i. m (Suc i) < (m i :: nat) \<Longrightarrow> False"
proof -
  assume less: "\<forall>i. m (Suc i) < m i"
  have "m i + i \<le> m 0" for i
  proof (induction i)
    case (Suc i)
    with less [rule_format, of i] show ?case by linarith
  qed simp
  from this [of "Suc (m 0)"] show False by simp
qed

text \<open>
  A component that is a state machine gives its initial states, its steps and an invariant;
  every reachable state then satisfies the invariant.
\<close>

locale invariant_system =
  fixes init :: "'s \<Rightarrow> bool" and step :: "'s \<Rightarrow> 's \<Rightarrow> bool" and inv :: "'s \<Rightarrow> bool"
  assumes inv_init: "init s \<Longrightarrow> inv s"
    and inv_step: "step s t \<Longrightarrow> inv s \<Longrightarrow> inv t"
begin

lemma reach_inv: "reach init step s \<Longrightarrow> inv s"
  by (induction rule: reach.induct) (auto intro: inv_init inv_step)

lemma reach_steps: "reach init step s \<Longrightarrow> step\<^sup>*\<^sup>* s t \<Longrightarrow> reach init step t"
  by (rotate_tac, induction rule: rtranclp_induct) (auto intro: reach_step)

lemma steps_inv: "step\<^sup>*\<^sup>* s t \<Longrightarrow> inv s \<Longrightarrow> inv t"
  by (induction rule: rtranclp_induct) (auto intro: inv_step)

end

section \<open>Expiring maps\<close>

text \<open>
  Three components keep a map whose entries go stale and a sweeper that deletes stale entries:
  the deduper, the app cache and the session table. \<open>live s k now\<close> is what a lookup at time
  \<open>now\<close> sees; \<open>sweep now s\<close> is the state after the sweeper ran at \<open>now\<close>.
  The contract: an entry, once stale, stays stale, and sweeping never changes what a later lookup
  sees. The client lemma: sweeping any number of times, at any times up to now, is unobservable.
\<close>

locale expiring_map =
  fixes live :: "'s \<Rightarrow> 'k \<Rightarrow> time \<Rightarrow> 'v option" and sweep :: "time \<Rightarrow> 's \<Rightarrow> 's"
  assumes live_sweep: "now \<le> later \<Longrightarrow> live (sweep now s) k later = live s k later"
    and live_antimono: "now \<le> later \<Longrightarrow> live s k now = None \<Longrightarrow> live s k later = None"
begin

lemma live_sweeps:
  "(\<forall>t \<in> set ts. t \<le> later) \<Longrightarrow> live (fold sweep ts s) k later = live s k later"
  by (induction ts arbitrary: s) (simp_all add: live_sweep)

lemma sweep_commute:
  "a \<le> later \<Longrightarrow> b \<le> later \<Longrightarrow> live (sweep a (sweep b s)) k later = live (sweep b (sweep a s)) k later"
  by (simp add: live_sweep)

lemma dead_stays_dead:
  "live s k now = None \<Longrightarrow> (\<forall>t \<in> set ts. t \<le> later) \<Longrightarrow> now \<le> later \<Longrightarrow>
   live (fold sweep ts s) k later = None"
  by (simp add: live_sweeps live_antimono)

end

section \<open>First-in first-out queues\<close>

text \<open>
  The worker pool's job queue and Go's buffered channels are queues: \<open>push\<close> fails exactly when
  there is no room, \<open>pop\<close> fails exactly when there is nothing to take, and \<open>items\<close> is the
  content, oldest first.
\<close>

locale fifo_queue =
  fixes push :: "'q \<Rightarrow> 'a \<Rightarrow> 'q option" and pop :: "'q \<Rightarrow> ('a \<times> 'q) option"
    and items :: "'q \<Rightarrow> 'a list" and room :: "'q \<Rightarrow> bool"
  assumes push_None: "push q x = None \<longleftrightarrow> \<not> room q"
    and push_Some: "push q x = Some q' \<Longrightarrow> items q' = items q @ [x]"
    and pop_None: "pop q = None \<longleftrightarrow> items q = []"
    and pop_Some: "pop q = Some (x, q') \<Longrightarrow> items q = x # items q'"
begin

fun pops :: "nat \<Rightarrow> 'q \<Rightarrow> 'a list" where
  "pops 0 q = []"
| "pops (Suc n) q = (case pop q of None \<Rightarrow> [] | Some (x, q') \<Rightarrow> x # pops n q')"

lemma pops_take: "pops n q = take n (items q)"
proof (induction n arbitrary: q)
  case (Suc n)
  show ?case
  proof (cases "pop q")
    case None
    moreover from None have "items q = []" by (simp only: pop_None)
    ultimately show ?thesis by simp
  next
    case (Some p)
    then show ?thesis using Suc by (cases p) (auto dest: pop_Some)
  qed
qed simp

lemma pops_all: "pops (length (items q)) q = items q"
  by (simp add: pops_take)

lemma push_pop_order:
  "push q x = Some q' \<Longrightarrow> pops (Suc (length (items q))) q' = items q @ [x]"
  by (simp add: pops_take push_Some del: pops.simps)

end

section \<open>Codecs\<close>

text \<open>An encoding that its decoder inverts is injective, and decoding an encoding never fails.\<close>

locale codec =
  fixes enc :: "'a \<Rightarrow> 'b" and dec :: "'b \<Rightarrow> 'a option"
  assumes dec_enc: "dec (enc x) = Some x"
begin

lemma enc_inj: "enc x = enc y \<Longrightarrow> x = y"
  by (metis dec_enc option.inject)

lemma enc_neq_iff: "enc x \<noteq> enc y \<longleftrightarrow> x \<noteq> y"
  using enc_inj by blast

end

section \<open>Shared lemmas\<close>

lemma wrap64_in_int64: "in_int64 (wrap64 x)"
  by (simp add: wrap64_def int64)

lemma wrap64_id: "in_int64 x \<Longrightarrow> wrap64 x = x"
  by (simp add: wrap64_def int64)

text \<open>\<open>wrap64\<close> is the signed reading of the 64-bit word.\<close>

lemma wrap64_sint: "wrap64 x = sint (word_of_int x :: 64 word)"
  by (simp add: wrap64_def sint_sbintrunc' signed_take_bit_eq_take_bit_shift take_bit_eq_mod)

lemma to_unix_of_unix [simp]: "to_unix (of_unix s) = s"
  by (simp add: to_unix_def of_unix_def)

lemma of_unix_to_unix_le: "of_unix (to_unix t) \<le> t \<and> t < of_unix (to_unix t) + Second"
  unfolding of_unix_def to_unix_def by presburger

lemma time_sub_less_iff: "in_int64 d \<Longrightarrow> min_int64 < d \<Longrightarrow> time_sub a b < d \<longleftrightarrow> a - b < d"
  by (auto simp: time_sub_def int64 min_def max_def)

lemma find_append_case:
  "find P (xs @ ys) = (case find P xs of None \<Rightarrow> find P ys | Some x \<Rightarrow> Some x)"
  by (induction xs) auto

lemma errors_Is_Wrap [simp]: "errors_Is e t \<Longrightarrow> errors_Is (Wrap c e) t"
  by simp

lemma errors_Is_refl [simp]: "errors_Is e e"
  by (cases e) simp_all


end
