(* ===== verification/FG_Golib.thy ===== *)
theory FG_Golib
  imports FG_Base
begin

text \<open>
  The parts of Go's standard library the program computes with: \<open>strings.HasPrefix\<close>,
  \<open>TrimPrefix\<close>, \<open>TrimSpace\<close> and \<open>Join\<close>; \<open>encoding/hex\<close>; \<open>net/url\<close>'s \<open>PathUnescape\<close>;
  \<open>strconv.Atoi\<close> and decimal printing; buffered channels with their panics; and
  \<open>time.NewTicker\<close>'s precondition. None of it is code of the repository; the components below
  call it where the sources do.
\<close>

section \<open>Strings\<close>

fun has_prefix :: "string \<Rightarrow> string \<Rightarrow> bool" where
  "has_prefix s [] = True"
| "has_prefix [] (p # ps) = False"
| "has_prefix (c # cs) (p # ps) = (c = p \<and> has_prefix cs ps)"

definition trim_prefix :: "string \<Rightarrow> string \<Rightarrow> string" where
  "trim_prefix s p = (if has_prefix s p then drop (length p) s else s)"

fun string_join :: "string list \<Rightarrow> string \<Rightarrow> string" where
  "string_join [] sep = []"
| "string_join [x] sep = x"
| "string_join (x # xs) sep = x @ sep @ string_join xs sep"

text \<open>The UTF-8 encodings of the code points Go's \<open>unicode.IsSpace\<close> accepts.\<close>

definition space_seqs :: "string list" where
  "space_seqs =
     [[CHR 0x09], [CHR 0x0A], [CHR 0x0B], [CHR 0x0C], [CHR 0x0D], [CHR 0x20],
      [CHR 0xC2, CHR 0x85], [CHR 0xC2, CHR 0xA0], [CHR 0xE1, CHR 0x9A, CHR 0x80],
      [CHR 0xE2, CHR 0x80, CHR 0x80], [CHR 0xE2, CHR 0x80, CHR 0x81], [CHR 0xE2, CHR 0x80, CHR 0x82],
      [CHR 0xE2, CHR 0x80, CHR 0x83], [CHR 0xE2, CHR 0x80, CHR 0x84], [CHR 0xE2, CHR 0x80, CHR 0x85],
      [CHR 0xE2, CHR 0x80, CHR 0x86], [CHR 0xE2, CHR 0x80, CHR 0x87], [CHR 0xE2, CHR 0x80, CHR 0x88],
      [CHR 0xE2, CHR 0x80, CHR 0x89], [CHR 0xE2, CHR 0x80, CHR 0x8A], [CHR 0xE2, CHR 0x80, CHR 0xA8],
      [CHR 0xE2, CHR 0x80, CHR 0xA9], [CHR 0xE2, CHR 0x80, CHR 0xAF], [CHR 0xE2, CHR 0x81, CHR 0x9F],
      [CHR 0xE3, CHR 0x80, CHR 0x80]]"

text \<open>Drop leading members of \<open>seqs\<close>; the fuel is the length, since every member is non-empty.\<close>

fun trim_left_fuel :: "nat \<Rightarrow> string list \<Rightarrow> string \<Rightarrow> string" where
  "trim_left_fuel 0 seqs s = s"
| "trim_left_fuel (Suc n) seqs s =
     (case find (has_prefix s) seqs of
        None \<Rightarrow> s
      | Some p \<Rightarrow> trim_left_fuel n seqs (drop (length p) s))"

definition trim_left :: "string list \<Rightarrow> string \<Rightarrow> string" where
  "trim_left seqs s = trim_left_fuel (length s) seqs s"

definition trim_space :: "string \<Rightarrow> string" where
  "trim_space s = rev (trim_left (map rev space_seqs) (rev (trim_left space_seqs s)))"

section \<open>Hexadecimal\<close>

definition hex_digit :: "nat \<Rightarrow> char" where
  "hex_digit n = (if n < 10 then char_of (48 + n) else char_of (87 + n))"

definition from_hex :: "char \<Rightarrow> nat option" where
  "from_hex c =
     (let n = (of_char c :: nat) in
      if 48 \<le> n \<and> n \<le> 57 then Some (n - 48)
      else if 97 \<le> n \<and> n \<le> 102 then Some (n - 87)
      else if 65 \<le> n \<and> n \<le> 70 then Some (n - 55)
      else None)"

definition hex_of_byte :: "char \<Rightarrow> string" where
  "hex_of_byte c = [hex_digit (of_char c div 16), hex_digit (of_char c mod 16)]"

definition hex_encode :: "bytes \<Rightarrow> string" where
  "hex_encode bs = concat (map hex_of_byte bs)"

fun hex_decode :: "string \<Rightarrow> bytes res" where
  "hex_decode [] = Inr []"
| "hex_decode [c] =
     (if from_hex c = None then Inl (Err ''encoding/hex: invalid byte'')
      else Inl (Err ''encoding/hex: odd length hex string''))"
| "hex_decode (a # b # cs) =
     (case (from_hex a, from_hex b) of
        (Some x, Some y) \<Rightarrow>
          (case hex_decode cs of Inl e \<Rightarrow> Inl e | Inr bs \<Rightarrow> Inr (char_of (16 * x + y) # bs))
      | _ \<Rightarrow> Inl (Err ''encoding/hex: invalid byte''))"

text \<open>
  What \<open>%q\<close> prints: double quotes around the text with Go's escapes. A byte above ASCII is kept,
  as \<open>%q\<close> does for printable UTF-8 text.
\<close>

definition quote_char :: "char \<Rightarrow> string" where
  "quote_char c =
     (let n = (of_char c :: nat) in
      if n = 34 \<or> n = 92 then [CHR 0x5C, c]
      else if n = 7 then [CHR 0x5C, CHR ''a'']
      else if n = 8 then [CHR 0x5C, CHR ''b'']
      else if n = 12 then [CHR 0x5C, CHR ''f'']
      else if n = 10 then [CHR 0x5C, CHR ''n'']
      else if n = 13 then [CHR 0x5C, CHR ''r'']
      else if n = 9 then [CHR 0x5C, CHR ''t'']
      else if n = 11 then [CHR 0x5C, CHR ''v'']
      else if n < 32 \<or> n = 127 then CHR 0x5C # CHR ''x'' # hex_of_byte c
      else [c])"

definition go_quote :: "string \<Rightarrow> string" where
  "go_quote s = CHR 0x22 # concat (map quote_char s) @ [CHR 0x22]"

section \<open>URL path unescaping\<close>

text \<open>
  \<open>url.PathUnescape\<close>: each \<open>%XY\<close> with two hexadecimal digits becomes one byte, every other
  byte (also \<open>+\<close>) stays, a \<open>%\<close> not followed by two hexadecimal digits is an error.
\<close>

fun path_unescape :: "string \<Rightarrow> string res" where
  "path_unescape [] = Inr []"
| "path_unescape (c # cs) =
     (if c = CHR ''%'' then
        (case cs of
           a # b # ds \<Rightarrow>
             (case (from_hex a, from_hex b) of
                (Some x, Some y) \<Rightarrow>
                  (case path_unescape ds of Inl e \<Rightarrow> Inl e | Inr r \<Rightarrow> Inr (char_of (16 * x + y) # r))
              | _ \<Rightarrow> Inl (Err ''invalid URL escape''))
         | _ \<Rightarrow> Inl (Err ''invalid URL escape''))
      else (case path_unescape cs of Inl e \<Rightarrow> Inl e | Inr r \<Rightarrow> Inr (c # r)))"

definition percent_encode :: "string \<Rightarrow> string" where
  "percent_encode s = concat (map (\<lambda>c. CHR ''%'' # hex_of_byte c) s)"

section \<open>Decimal numbers\<close>

definition dec_digit :: "nat \<Rightarrow> char" where
  "dec_digit d = char_of (48 + d)"

text \<open>The digits of a number, most significant first; no digits for zero.\<close>

fun dec_digits :: "nat \<Rightarrow> string" where
  "dec_digits n = (if n = 0 then [] else dec_digits (n div 10) @ [dec_digit (n mod 10)])"

declare dec_digits.simps [simp del]

text \<open>What \<open>%d\<close> and \<open>strconv.Itoa\<close> print.\<close>

definition decimal :: "int \<Rightarrow> string" where
  "decimal n =
     (if n = 0 then ''0''
      else if n < 0 then CHR ''-'' # dec_digits (nat (- n))
      else dec_digits (nat n))"

definition digit_val :: "char \<Rightarrow> nat option" where
  "digit_val c = (let n = (of_char c :: nat) in if 48 \<le> n \<and> n \<le> 57 then Some (n - 48) else None)"

fun digits_val :: "nat \<Rightarrow> string \<Rightarrow> nat option" where
  "digits_val acc [] = Some acc"
| "digits_val acc (c # cs) =
     (case digit_val c of None \<Rightarrow> None | Some d \<Rightarrow> digits_val (10 * acc + d) cs)"

definition parse_nat :: "string \<Rightarrow> nat option" where
  "parse_nat s = (if s = [] then None else digits_val 0 s)"

text \<open>\<open>strconv.Atoi\<close>: an optional sign, at least one digit, the value within 64 bits.\<close>

definition atoi :: "string \<Rightarrow> int option" where
  "atoi s =
     (let neg = (case s of c # _ \<Rightarrow> c = CHR ''-'' | [] \<Rightarrow> False);
          ds = (case s of c # cs \<Rightarrow> (if c = CHR ''-'' \<or> c = CHR ''+'' then cs else s) | [] \<Rightarrow> s)
      in case parse_nat ds of
           None \<Rightarrow> None
         | Some n \<Rightarrow> (let v = (if neg then - int n else int n) in if in_int64 v then Some v else None))"

section \<open>Log levels\<close>

text \<open>
  \<open>slog.Level.UnmarshalText\<close>: a name in any case, followed by an optional signed offset. Upper case is that of ASCII,
  which is all the four names need. On an error the level keeps its value.
\<close>

definition ascii_upper :: "char \<Rightarrow> char" where
  "ascii_upper c = (let n = (of_char c :: nat) in if 97 \<le> n \<and> n \<le> 122 then char_of (n - 32) else c)"

definition level_name :: "string \<Rightarrow> int option" where
  "level_name s =
     (let u = map ascii_upper s in
      if u = ''DEBUG'' then Some (- 4) else if u = ''INFO'' then Some 0
      else if u = ''WARN'' then Some 4 else if u = ''ERROR'' then Some 8 else None)"

definition level_UnmarshalText :: "string \<Rightarrow> int \<Rightarrow> int" where
  "level_UnmarshalText s lv =
     (let sign = (\<lambda>c. c = CHR ''+'' \<or> c = CHR ''-''); name = takeWhile (Not \<circ> sign) s; rest = dropWhile (Not \<circ> sign) s in
      case (if rest = [] then Some 0 else atoi rest) of
        None \<Rightarrow> lv
      | Some offset \<Rightarrow> (case level_name name of None \<Rightarrow> lv | Some l \<Rightarrow> wrap64 (l + offset)))"

section \<open>Buffered channels\<close>

record 'a chan =
  ch_buf :: "'a list"
  ch_cap :: nat
  ch_closed :: bool

definition make_chan :: "nat \<Rightarrow> 'a chan" where
  "make_chan n = \<lparr>ch_buf = [], ch_cap = n, ch_closed = False\<rparr>"

text \<open>
  \<open>select { case ch <- x: default: }\<close>: panics on a closed channel; the default branch is
  \<open>Inr None\<close>.
\<close>

definition try_send :: "'a chan \<Rightarrow> 'a \<Rightarrow> panic + 'a chan option" where
  "try_send ch x =
     (if ch_closed ch then Inl SendOnClosedChannel
      else if length (ch_buf ch) < ch_cap ch then Inr (Some (ch\<lparr>ch_buf := ch_buf ch @ [x]\<rparr>))
      else Inr None)"

text \<open>
  A receive that does not wait: \<open>None\<close> where it would block, \<open>Some (None, ch)\<close> for the zero
  value of a closed and empty channel (\<open>ok\<close> is false), otherwise the oldest element.
\<close>

definition try_recv :: "'a chan \<Rightarrow> ('a option \<times> 'a chan) option" where
  "try_recv ch =
     (case ch_buf ch of
        x # xs \<Rightarrow> Some (Some x, ch\<lparr>ch_buf := xs\<rparr>)
      | [] \<Rightarrow> if ch_closed ch then Some (None, ch) else None)"

definition close_chan :: "'a chan \<Rightarrow> panic + 'a chan" where
  "close_chan ch = (if ch_closed ch then Inl CloseOfClosedChannel else Inr (ch\<lparr>ch_closed := True\<rparr>))"

text \<open>\<open>time.NewTicker\<close> panics unless the period is positive.\<close>

definition new_ticker :: "duration \<Rightarrow> panic + duration" where
  "new_ticker d = (if d \<le> 0 then Inl NonPositiveTicker else Inr d)"

section \<open>Lemmas\<close>

lemma has_prefix_iff: "has_prefix s p \<longleftrightarrow> (\<exists>r. s = p @ r)"
  by (induction s p rule: has_prefix.induct) auto

lemma has_prefix_append [simp]: "has_prefix (p @ s) p"
  by (auto simp: has_prefix_iff)

lemma trim_prefix_append [simp]: "trim_prefix (p @ s) p = s"
  by (simp add: trim_prefix_def)

lemma trim_prefix_no: "\<not> has_prefix s p \<Longrightarrow> trim_prefix s p = s"
  by (simp add: trim_prefix_def)

lemma string_join_Cons: "xs \<noteq> [] \<Longrightarrow> string_join (x # xs) sep = x @ sep @ string_join xs sep"
  by (cases xs) simp_all

lemma hex_digit_from_hex [simp]: "n < 16 \<Longrightarrow> from_hex (hex_digit n) = Some n"
  by (auto simp: from_hex_def hex_digit_def Let_def)

lemma of_char_less_256: "(of_char c :: nat) < 256"
  by simp

lemma hex_decode_byte [simp]:
  "hex_decode (hex_of_byte c @ s) = (case hex_decode s of Inl e \<Rightarrow> Inl e | Inr bs \<Rightarrow> Inr (c # bs))"
proof -
  have "(of_char c :: nat) div 16 < 16" using of_char_less_256 [of c] by arith
  then show ?thesis
    by (simp add: hex_of_byte_def split: sum.splits)
qed

lemma hex_decode_encode [simp]: "hex_decode (hex_encode bs) = Inr bs"
  by (induction bs) (simp_all add: hex_encode_def)

lemma hex_encode_Nil [simp]: "hex_encode [] = []"
  by (simp add: hex_encode_def)

lemma length_hex_of_byte [simp]: "length (hex_of_byte c) = 2"
  by (simp add: hex_of_byte_def)

lemma length_hex_encode [simp]: "length (hex_encode bs) = 2 * length bs"
  by (induction bs) (simp_all add: hex_encode_def)

lemma hex_decode_length: "hex_decode s = Inr bs \<Longrightarrow> length s = 2 * length bs"
  by (induction s arbitrary: bs rule: hex_decode.induct)
    (auto split: option.splits sum.splits if_splits)

interpretation hexc: codec hex_encode "\<lambda>s. case hex_decode s of Inl _ \<Rightarrow> None | Inr bs \<Rightarrow> Some bs"
  by unfold_locales simp

lemma path_unescape_no_percent: "CHR ''%'' \<notin> set s \<Longrightarrow> path_unescape s = Inr s"
  by (induction s) auto

lemma path_unescape_byte:
  "path_unescape (CHR ''%'' # hex_of_byte c @ s) =
     (case path_unescape s of Inl e \<Rightarrow> Inl e | Inr r \<Rightarrow> Inr (c # r))"
proof -
  have "(of_char c :: nat) div 16 < 16" using of_char_less_256 [of c] by arith
  then show ?thesis
    by (simp add: hex_of_byte_def split: sum.splits)
qed

lemma path_unescape_percent_encode: "path_unescape (percent_encode s) = Inr s"
proof (induction s)
  case (Cons c s)
  then show ?case
    using path_unescape_byte [of c "percent_encode s"]
    by (simp add: percent_encode_def)
qed (simp add: percent_encode_def)

interpretation pctc: codec percent_encode "\<lambda>s. case path_unescape s of Inl _ \<Rightarrow> None | Inr r \<Rightarrow> Some r"
  by unfold_locales (simp add: path_unescape_percent_encode)

lemma digit_val_dec_digit [simp]: "d < 10 \<Longrightarrow> digit_val (dec_digit d) = Some d"
  by (simp add: digit_val_def dec_digit_def)

lemma digits_val_append:
  "digits_val acc (xs @ ys) =
     (case digits_val acc xs of None \<Rightarrow> None | Some a \<Rightarrow> digits_val a ys)"
  by (induction xs arbitrary: acc) (auto split: option.splits)

lemma digits_val_dec_digits: "digits_val 0 (dec_digits n) = Some n"
proof (induction n rule: dec_digits.induct)
  case (1 n)
  show ?case
  proof (cases "n = 0")
    case True
    then show ?thesis by (simp add: dec_digits.simps)
  next
    case False
    with 1 show ?thesis
      by (simp add: dec_digits.simps [of n] digits_val_append)
  qed
qed

lemma dec_digits_Nil_iff [simp]: "dec_digits n = [] \<longleftrightarrow> n = 0"
  by (subst dec_digits.simps) simp

lemma dec_digit_not_sign: "d < 10 \<Longrightarrow> dec_digit d \<noteq> CHR ''-'' \<and> dec_digit d \<noteq> CHR ''+''"
  using digit_val_dec_digit [of d] by (auto simp: digit_val_def)

lemma dec_digits_set: "c \<in> set (dec_digits n) \<Longrightarrow> \<exists>d < 10. c = dec_digit d"
proof (induction n rule: dec_digits.induct)
  case (1 n)
  have last: "\<exists>d < 10. dec_digit (n mod 10) = dec_digit d"
    by (rule exI [of _ "n mod 10"]) simp
  from "1.prems" have "n \<noteq> 0" by (intro notI) (simp add: dec_digits.simps [of 0])
  with "1.prems" have "c \<in> set (dec_digits (n div 10)) \<or> c = dec_digit (n mod 10)"
    by (auto simp add: dec_digits.simps [of n])
  with "1.IH" [OF \<open>n \<noteq> 0\<close>] last show ?case by auto
qed

lemma parse_nat_dec_digits: "0 < n \<Longrightarrow> parse_nat (dec_digits n) = Some n"
  by (simp add: parse_nat_def digits_val_dec_digits)

lemma hd_dec_digits: "dec_digits n = c # cs \<Longrightarrow> c \<noteq> CHR ''-'' \<and> c \<noteq> CHR ''+''"
  using dec_digits_set [of c n] dec_digit_not_sign by fastforce

lemma atoi_decimal: "in_int64 n \<Longrightarrow> atoi (decimal n) = Some n"
proof -
  assume r: "in_int64 n"
  consider "n = 0" | "n < 0" | "0 < n" by linarith
  then show ?thesis
  proof cases
    case 1
    then show ?thesis using r by (simp add: decimal_def atoi_def parse_nat_def digit_val_def)
  next
    case 2
    then have "0 < nat (- n)" by simp
    with 2 r show ?thesis
      by (simp add: decimal_def atoi_def parse_nat_dec_digits)
  next
    case 3
    then obtain c cs where d: "dec_digits (nat n) = c # cs" by (cases "dec_digits (nat n)") auto
    have "parse_nat (c # cs) = Some (nat n)"
      using parse_nat_dec_digits [of "nat n"] 3 d by simp
    then show ?thesis
      using 3 r d hd_dec_digits [OF d] by (simp add: decimal_def atoi_def)
  qed
qed

lemmas chan_defs = make_chan_def try_send_def try_recv_def close_chan_def

text \<open>An open buffered channel is a queue; its room is the unused capacity.\<close>

definition chan_push :: "'a chan \<Rightarrow> 'a \<Rightarrow> 'a chan option" where
  "chan_push ch x = (case try_send ch x of Inl _ \<Rightarrow> None | Inr r \<Rightarrow> r)"

definition chan_pop :: "'a chan \<Rightarrow> ('a \<times> 'a chan) option" where
  "chan_pop ch = (case try_recv ch of Some (Some x, ch') \<Rightarrow> Some (x, ch') | _ \<Rightarrow> None)"

interpretation chanq: fifo_queue chan_push chan_pop ch_buf
  "\<lambda>ch. \<not> ch_closed ch \<and> length (ch_buf ch) < ch_cap ch"
  by unfold_locales
    (auto simp: chan_push_def chan_pop_def chan_defs split: list.splits if_splits)

lemma try_recv_Some_Some: "try_recv ch = Some (Some x, ch') \<Longrightarrow> ch_buf ch = x # ch_buf ch'"
  by (rule chanq.pop_Some) (simp add: chan_pop_def)

lemma try_send_Some: "try_send ch x = Inr (Some ch') \<Longrightarrow> ch_buf ch' = ch_buf ch @ [x]"
  by (rule chanq.push_Some) (simp add: chan_push_def)

end
