(* ===== verification/FG_Group.thy ===== *)
theory FG_Group
  imports FG_Golib
begin

text \<open>
  The package \<open>internal/group\<close>: the data model (\<open>model.go\<close>), the credential encryption and key
  derivation (\<open>service.go\<close>) and the creation of an app (\<open>group_service.go\<close>).

  AES-GCM itself is not code of the repository: it is a parameter \<open>A\<close> of type \<open>aead\<close> with the
  one law the program relies on, \<open>aead_ok\<close> (opening a sealed text under the same key and nonce
  gives the text back). \<open>crypto/rand\<close> is a parameter too: \<open>rd n\<close> is the outcome of reading
  \<open>n\<close> bytes, and \<open>rand_ok rd\<close> says that a successful read gives exactly \<open>n\<close> bytes.
\<close>

section \<open>Data model\<close>

record minio_config =
  mc_endpoint :: string
  mc_access_key :: string
  mc_secret_key :: string
  mc_bucket :: string
  mc_region :: string
  mc_use_ssl :: bool
  mc_skip_tls_verify :: bool

record grp =
  g_id :: string
  g_name :: string
  g_description :: string
  g_created_at :: time
  g_updated_at :: time

record app =
  a_id :: string
  a_group_id :: string
  a_name :: string
  a_description :: string
  a_src :: minio_config
  a_dst :: minio_config
  a_webhook_secret :: string
  a_enabled :: bool
  a_retry_max_attempts :: int
  a_retry_backoff_seconds :: int
  a_created_at :: time
  a_updated_at :: time

section \<open>Credential encryption\<close>

record aead =
  aead_seal :: "bytes \<Rightarrow> bytes \<Rightarrow> bytes \<Rightarrow> bytes"
  aead_open :: "bytes \<Rightarrow> bytes \<Rightarrow> bytes \<Rightarrow> bytes option"

type_synonym rand_read = "nat \<Rightarrow> bytes res"

definition gcm_nonce_size :: nat where
  "gcm_nonce_size = 12"

definition aes_NewCipher :: "bytes \<Rightarrow> bytes res" where
  "aes_NewCipher key =
     (if length key \<in> {16, 24, 32} then Inr key else Inl (Err ''crypto/aes: invalid key size''))"

text \<open>\<open>cipher.NewGCM\<close> fails only for a block size other than 16, which AES always has.\<close>

definition cipher_NewGCM :: "bytes \<Rightarrow> bytes res" where
  "cipher_NewGCM block = Inr block"

definition EncryptSecret :: "aead \<Rightarrow> rand_read \<Rightarrow> string \<Rightarrow> bytes \<Rightarrow> string res" where
  "EncryptSecret A rd plaintext key =
     (case aes_NewCipher key of
        Inl e \<Rightarrow> Inl (Wrap ''aes cipher'' e)
      | Inr block \<Rightarrow>
          (case cipher_NewGCM block of
             Inl e \<Rightarrow> Inl (Wrap ''gcm'' e)
           | Inr gcm \<Rightarrow>
               (case rd gcm_nonce_size of
                  Inl e \<Rightarrow> Inl (Wrap ''nonce'' e)
                | Inr nonce \<Rightarrow> Inr (hex_encode (nonce @ aead_seal A gcm nonce plaintext)))))"

definition DecryptSecret :: "aead \<Rightarrow> string \<Rightarrow> bytes \<Rightarrow> string res" where
  "DecryptSecret A cipherHex key =
     (case hex_decode cipherHex of
        Inl e \<Rightarrow> Inl (Wrap ''hex decode'' e)
      | Inr data \<Rightarrow>
          (case aes_NewCipher key of
             Inl e \<Rightarrow> Inl (Wrap ''aes cipher'' e)
           | Inr block \<Rightarrow>
               (case cipher_NewGCM block of
                  Inl e \<Rightarrow> Inl (Wrap ''gcm'' e)
                | Inr gcm \<Rightarrow>
                    (let ns = gcm_nonce_size in
                     if length data < ns then Inl (Err ''ciphertext too short'')
                     else case aead_open A gcm (take ns data) (drop ns data) of
                            None \<Rightarrow> Inl (Wrap ''decrypt'' (Err ''cipher: message authentication failed''))
                          | Some plain \<Rightarrow> Inr plain))))"

definition GenerateWebhookSecret :: "rand_read \<Rightarrow> string res" where
  "GenerateWebhookSecret rd =
     (case rd 32 of
        Inl e \<Rightarrow> Inl (Wrap ''generate secret'' e)
      | Inr b \<Rightarrow> Inr (hex_encode b))"

definition WebhookURL :: "string \<Rightarrow> string \<Rightarrow> string \<Rightarrow> string" where
  "WebhookURL baseURL groupName appName = baseURL @ ''/webhook/'' @ groupName @ ''/'' @ appName"

text \<open>\<open>copy(key, []byte(secretKey))\<close> into 32 zero bytes.\<close>

definition pad_key :: "string \<Rightarrow> bytes" where
  "pad_key s = take 32 s @ replicate (32 - length s) (CHR 0x00)"

definition DeriveKey :: "string \<Rightarrow> bytes res" where
  "DeriveKey secretKey =
     (if length secretKey = 64 then
        (case hex_decode secretKey of
           Inr decoded \<Rightarrow> Inr decoded
         | Inl _ \<Rightarrow> Inr (pad_key secretKey))
      else Inr (pad_key secretKey))"

section \<open>Creating an app\<close>

text \<open>The methods of \<open>Service\<close> that apply its key.\<close>

definition Service_EncryptSecret :: "aead \<Rightarrow> bytes \<Rightarrow> rand_read \<Rightarrow> string \<Rightarrow> string res" where
  "Service_EncryptSecret A encKey rd plaintext = EncryptSecret A rd plaintext encKey"

definition Service_DecryptSecret :: "aead \<Rightarrow> bytes \<Rightarrow> string \<Rightarrow> string res" where
  "Service_DecryptSecret A encKey cipherHex = DecryptSecret A cipherHex encKey"

text \<open>
  What \<open>Service.CreateApp\<close> takes from its environment: the three random reads, in the order the
  code makes them, the fresh UUID and the two readings of the clock.
\<close>

record app_env =
  ae_rd_secret :: rand_read
  ae_rd_src :: rand_read
  ae_rd_dst :: rand_read
  ae_uuid :: string
  ae_created :: time
  ae_updated :: time

text \<open>
  \<open>store_create\<close> is the method \<open>CreateApp\<close> of the interface \<open>group.Store\<close>: an error, or the
  new state of the store.
\<close>

definition Service_CreateApp ::
  "aead \<Rightarrow> bytes \<Rightarrow> app_env \<Rightarrow> (app \<Rightarrow> 'db \<Rightarrow> 'db res) \<Rightarrow> 'db \<Rightarrow>
   string \<Rightarrow> string \<Rightarrow> string \<Rightarrow> minio_config \<Rightarrow> minio_config \<Rightarrow> int \<Rightarrow> int \<Rightarrow> (app \<times> 'db) res" where
  "Service_CreateApp A encKey env store_create db groupID name description src dst
     retryMaxAttempts retryBackoffSeconds =
     (case GenerateWebhookSecret (ae_rd_secret env) of
        Inl e \<Rightarrow> Inl e
      | Inr webhookSecret \<Rightarrow>
          (case EncryptSecret A (ae_rd_src env) (mc_secret_key src) encKey of
             Inl e \<Rightarrow> Inl e
           | Inr encSrcSecret \<Rightarrow>
               (case EncryptSecret A (ae_rd_dst env) (mc_secret_key dst) encKey of
                  Inl e \<Rightarrow> Inl e
                | Inr encDstSecret \<Rightarrow>
                    (let a = \<lparr>a_id = ae_uuid env, a_group_id = groupID, a_name = name,
                              a_description = description,
                              a_src = src\<lparr>mc_secret_key := encSrcSecret\<rparr>,
                              a_dst = dst\<lparr>mc_secret_key := encDstSecret\<rparr>,
                              a_webhook_secret = webhookSecret, a_enabled = True,
                              a_retry_max_attempts = retryMaxAttempts,
                              a_retry_backoff_seconds = retryBackoffSeconds,
                              a_created_at = ae_created env, a_updated_at = ae_updated env\<rparr>
                     in case store_create a db of Inl e \<Rightarrow> Inl e | Inr db' \<Rightarrow> Inr (a, db')))))"

section \<open>What the environment promises\<close>

definition aead_ok :: "aead \<Rightarrow> bool" where
  "aead_ok A \<longleftrightarrow>
     (\<forall>k n p. length n = gcm_nonce_size \<longrightarrow> aead_open A k n (aead_seal A k n p) = Some p)"

definition rand_ok :: "rand_read \<Rightarrow> bool" where
  "rand_ok rd \<longleftrightarrow> (\<forall>n b. rd n = Inr b \<longrightarrow> length b = n)"

text \<open>
  A concrete cipher that satisfies the law, for evaluating the definitions: it appends the key
  and the nonce as a tag and checks them.
\<close>

definition tag_aead :: aead where
  "tag_aead =
     \<lparr>aead_seal = (\<lambda>k n p. k @ n @ p),
      aead_open = (\<lambda>k n c. if take (length (k @ n)) c = k @ n then Some (drop (length (k @ n)) c) else None)\<rparr>"

definition const_read :: "char \<Rightarrow> rand_read" where
  "const_read c n = Inr (replicate n c)"

section \<open>Lemmas\<close>

lemma aead_okD: "aead_ok A \<Longrightarrow> length n = gcm_nonce_size \<Longrightarrow> aead_open A k n (aead_seal A k n p) = Some p"
  by (simp add: aead_ok_def)

lemma rand_okD: "rand_ok rd \<Longrightarrow> rd n = Inr b \<Longrightarrow> length b = n"
  by (simp add: rand_ok_def)

lemma tag_aead_ok: "aead_ok tag_aead"
  by (simp add: aead_ok_def tag_aead_def)

lemma const_read_ok: "rand_ok (const_read c)"
  by (auto simp: rand_ok_def const_read_def)

lemma aes_NewCipher_Inr: "aes_NewCipher key = Inr b \<longleftrightarrow> b = key \<and> length key \<in> {16, 24, 32}"
  by (auto simp: aes_NewCipher_def)

lemma EncryptSecret_Inr:
  "EncryptSecret A rd p key = Inr c \<longleftrightarrow>
     (\<exists>nonce. length key \<in> {16, 24, 32} \<and> rd gcm_nonce_size = Inr nonce \<and>
              c = hex_encode (nonce @ aead_seal A key nonce p))"
  by (auto simp: EncryptSecret_def cipher_NewGCM_def aes_NewCipher_def split: sum.splits if_splits)

lemma decrypt_sealed:
  "aead_ok A \<Longrightarrow> length nonce = gcm_nonce_size \<Longrightarrow> length key \<in> {16, 24, 32} \<Longrightarrow>
   DecryptSecret A (hex_encode (nonce @ aead_seal A key nonce p)) key = Inr p"
  by (simp add: DecryptSecret_def aes_NewCipher_def cipher_NewGCM_def aead_okD Let_def)

lemma decrypt_encrypt:
  assumes "aead_ok A" "rand_ok rd" "EncryptSecret A rd p key = Inr c"
  shows "DecryptSecret A c key = Inr p"
  using assms by (auto simp: EncryptSecret_Inr intro!: decrypt_sealed dest: rand_okD)

lemma length_pad_key [simp]: "length (pad_key s) = 32"
  by (simp add: pad_key_def)

lemma DeriveKey_length: "\<exists>k. DeriveKey s = Inr k \<and> length k = 32"
  by (auto simp: DeriveKey_def dest!: hex_decode_length split: sum.splits)

lemma EncryptSecret_DeriveKey_total:
  assumes "DeriveKey s = Inr key" and "rd gcm_nonce_size = Inr nonce"
  shows "\<exists>c. EncryptSecret A rd p key = Inr c"
proof -
  from assms(1) DeriveKey_length [of s] have "length key = 32" by auto
  with assms(2) show ?thesis by (auto simp: EncryptSecret_Inr)
qed

lemma Service_CreateApp_Inr:
  assumes "Service_CreateApp A encKey env sc db gid nm ds src dst rma rbs = Inr (a, db')"
  shows "\<exists>ws es ed. GenerateWebhookSecret (ae_rd_secret env) = Inr ws \<and>
     EncryptSecret A (ae_rd_src env) (mc_secret_key src) encKey = Inr es \<and>
     EncryptSecret A (ae_rd_dst env) (mc_secret_key dst) encKey = Inr ed \<and>
     sc a db = Inr db' \<and>
     a = \<lparr>a_id = ae_uuid env, a_group_id = gid, a_name = nm, a_description = ds,
          a_src = src\<lparr>mc_secret_key := es\<rparr>, a_dst = dst\<lparr>mc_secret_key := ed\<rparr>,
          a_webhook_secret = ws, a_enabled = True, a_retry_max_attempts = rma,
          a_retry_backoff_seconds = rbs, a_created_at = ae_created env, a_updated_at = ae_updated env\<rparr>"
  using assms by (auto simp: Service_CreateApp_def Let_def split: sum.splits)

section \<open>Properties\<close>

text \<open>
  C21: a secret encrypted with \<open>EncryptSecret\<close> is what \<open>DecryptSecret\<close> returns for the stored
  hexadecimal string under the same key, for every key \<open>DeriveKey\<close> derives from a configured
  secret, and with such a key encryption only fails when reading random bytes fails.
\<close>

theorem secret_roundtrip:
  assumes "aead_ok A" and "rand_ok rd" and "DeriveKey cfg_secret = Inr key"
    and "rd gcm_nonce_size = Inr nonce"
  shows "\<exists>c. EncryptSecret A rd plaintext key = Inr c \<and> DecryptSecret A c key = Inr plaintext"
  using EncryptSecret_DeriveKey_total [where rd = rd, OF assms(3,4)] decrypt_encrypt [OF assms(1,2)] by blast

theorem secret_roundtrip_witness:
  "\<exists>c. EncryptSecret tag_aead (const_read (CHR ''n'')) ''minio123'' (pad_key ''k'') = Inr c \<and>
       DecryptSecret tag_aead c (pad_key ''k'') = Inr ''minio123''"
proof (rule secret_roundtrip)
  show "DeriveKey ''k'' = Inr (pad_key ''k'')" by (simp add: DeriveKey_def)
  show "const_read (CHR ''n'') gcm_nonce_size = Inr (replicate gcm_nonce_size (CHR ''n''))"
    by (simp add: const_read_def)
qed (rule tag_aead_ok const_read_ok)+

text \<open>
  \<open>DeriveKey\<close> never fails and its key is 32 bytes long (so it selects AES-256); a secret that
  is the hexadecimal form of 32 bytes gives exactly those bytes, any other secret is cut or
  padded with zero bytes.
\<close>

theorem DeriveKey_spec:
  "(\<exists>k. DeriveKey s = Inr k \<and> length k = 32) \<and>
   (if \<exists>bs. length s = 64 \<and> hex_decode s = Inr bs
    then hex_decode s = DeriveKey s
    else DeriveKey s = Inr (take 32 s @ replicate (32 - length s) (CHR 0x00)))"
  using DeriveKey_length [of s]
  by (auto simp: DeriveKey_def pad_key_def split: sum.splits)

end
