(* ===== verification/FG_Store.thy ===== *)
theory FG_Store
  imports FG_Group Complex_Main "HOL-Library.Multiset" "HOL-Library.List_Lexorder" "HOL-Library.Char_ord"
begin

text \<open>
  The SQLite store, \<open>internal/storage/store.go\<close> over the schema of \<open>001_initial_schema.sql\<close> and
  its migrations. A table is the list of its rows in insertion order; every statement of the
  source is a function on the tables with the constraints of the schema: primary keys,
  \<open>UNIQUE\<close>, \<open>REFERENCES\<close> (rejecting, or cascading for apps of a deleted group). Rows keep what the
  columns keep: booleans are integers, times are whole Unix seconds, nullable columns are options.

  The database engine may fail for reasons of its own (disk, cancelled context): the first
  argument \<open>fault\<close> of an operation is that failure, if there is one, and then nothing is written.
  Which of two rows with the same \<open>created_at\<close> comes first in \<open>ListTransfers\<close> is the engine's
  choice: \<open>arrange\<close> stands for its \<open>ORDER BY t.created_at DESC\<close>. \<open>REAL\<close> columns are exact rationals.
\<close>

section \<open>Rows and structs\<close>

record group_row =
  gr_id :: string
  gr_name :: string
  gr_description :: string
  gr_created_at :: int
  gr_updated_at :: int

record app_row =
  ar_id :: string
  ar_group_id :: string
  ar_name :: string
  ar_description :: string
  ar_src_endpoint :: string
  ar_src_access_key :: string
  ar_src_secret_key :: string
  ar_src_bucket :: string
  ar_src_region :: string
  ar_src_use_ssl :: int
  ar_src_skip_tls_verify :: int
  ar_dst_endpoint :: string
  ar_dst_access_key :: string
  ar_dst_secret_key :: string
  ar_dst_bucket :: string
  ar_dst_region :: string
  ar_dst_use_ssl :: int
  ar_dst_skip_tls_verify :: int
  ar_webhook_secret :: string
  ar_enabled :: int
  ar_retry_max_attempts :: int
  ar_retry_backoff_seconds :: int
  ar_created_at :: int
  ar_updated_at :: int

record transfer =
  t_id :: string
  t_app_id :: string
  t_object_key :: string
  t_src_bucket :: string
  t_dst_bucket :: string
  t_object_size :: int
  t_etag :: string
  t_status :: string
  t_error_message :: string
  t_bytes_transferred :: int
  t_started_at :: "time option"
  t_completed_at :: "time option"
  t_duration_ms :: rat
  t_created_at :: time
  t_retry_count :: int
  t_max_retries :: int
  t_next_retry_at :: "time option"

record transfer_row =
  tr_id :: string
  tr_app_id :: string
  tr_object_key :: string
  tr_src_bucket :: string
  tr_dst_bucket :: string
  tr_object_size :: int
  tr_etag :: string
  tr_status :: string
  tr_error_message :: string
  tr_bytes_transferred :: int
  tr_started_at :: "int option"
  tr_completed_at :: "int option"
  tr_duration_ms :: rat
  tr_created_at :: int
  tr_retry_count :: int
  tr_max_retries :: int
  tr_next_retry_at :: "int option"

record db =
  groups :: "group_row list"
  apps :: "app_row list"
  transfers :: "transfer_row list"

record transfer_stats =
  ts_total :: int
  ts_success :: int
  ts_failed :: int
  ts_in_progress :: int
  ts_pending :: int
  ts_retrying :: int
  ts_total_bytes :: int
  ts_avg_duration_ms :: rat
  ts_last_transfer_at :: "time option"

record list_opts =
  lo_app_id :: string
  lo_group_id :: string
  lo_status :: string
  lo_limit :: int
  lo_offset :: int

definition empty_db :: db where
  "empty_db = \<lparr>groups = [], apps = [], transfers = []\<rparr>"

section \<open>Helpers\<close>

definition boolToInt :: "bool \<Rightarrow> int" where
  "boolToInt b = (if b then 1 else 0)"

definition nullableUnix :: "time option \<Rightarrow> int option" where
  "nullableUnix t = (case t of None \<Rightarrow> None | Some x \<Rightarrow> Some (to_unix x))"

text \<open>A call of the engine that fails for reasons of its own.\<close>

definition with_fault :: "string option \<Rightarrow> 'a res \<Rightarrow> 'a res" where
  "with_fault fault r = (case fault of Some s \<Rightarrow> Inl (Err s) | None \<Rightarrow> r)"

section \<open>Groups\<close>

definition group_to_row :: "grp \<Rightarrow> group_row" where
  "group_to_row g =
     \<lparr>gr_id = g_id g, gr_name = g_name g, gr_description = g_description g,
      gr_created_at = to_unix (g_created_at g), gr_updated_at = to_unix (g_updated_at g)\<rparr>"

definition scanGroup :: "group_row \<Rightarrow> grp" where
  "scanGroup r =
     \<lparr>g_id = gr_id r, g_name = gr_name r, g_description = gr_description r,
      g_created_at = of_unix (gr_created_at r), g_updated_at = of_unix (gr_updated_at r)\<rparr>"

definition CreateGroup :: "string option \<Rightarrow> grp \<Rightarrow> db \<Rightarrow> db res" where
  "CreateGroup fault g d = with_fault fault
     (let r = group_to_row g in
      if list_ex (\<lambda>x. gr_id x = gr_id r) (groups d) then Inl (ErrUnique ''groups.id'')
      else if list_ex (\<lambda>x. gr_name x = gr_name r) (groups d) then Inl (ErrUnique ''groups.name'')
      else Inr (d\<lparr>groups := groups d @ [r]\<rparr>))"

definition GetGroup :: "string option \<Rightarrow> string \<Rightarrow> db \<Rightarrow> grp option res" where
  "GetGroup fault i d = with_fault fault
     (Inr (map_option scanGroup (find (\<lambda>r. gr_id r = i) (groups d))))"

definition ListGroups :: "string option \<Rightarrow> db \<Rightarrow> grp list res" where
  "ListGroups fault d = with_fault fault (Inr (map scanGroup (sort_key gr_name (groups d))))"

definition UpdateGroup :: "string option \<Rightarrow> grp \<Rightarrow> db \<Rightarrow> db res" where
  "UpdateGroup fault g d = with_fault fault
     (if list_ex (\<lambda>r. gr_id r = g_id g) (groups d) \<and>
         list_ex (\<lambda>r. gr_id r \<noteq> g_id g \<and> gr_name r = g_name g) (groups d)
      then Inl (ErrUnique ''groups.name'')
      else Inr (d\<lparr>groups := map (\<lambda>r. if gr_id r = g_id g
                                     then r\<lparr>gr_name := g_name g, gr_description := g_description g,
                                            gr_updated_at := to_unix (g_updated_at g)\<rparr>
                                     else r) (groups d)\<rparr>))"

text \<open>
  \<open>DELETE FROM groups\<close>: the apps of the group are deleted with it (\<open>ON DELETE CASCADE\<close>); if one
  of them still has a transfer, the foreign key of \<open>transfers\<close> rejects the statement.
\<close>

definition DeleteGroup :: "string option \<Rightarrow> string \<Rightarrow> db \<Rightarrow> db res" where
  "DeleteGroup fault i d = with_fault fault
     (if \<not> list_ex (\<lambda>r. gr_id r = i) (groups d) then Inr d
      else if list_ex (\<lambda>t. list_ex (\<lambda>a. ar_group_id a = i \<and> ar_id a = tr_app_id t) (apps d)) (transfers d)
      then Inl ErrForeignKey
      else Inr (d\<lparr>groups := filter (\<lambda>r. gr_id r \<noteq> i) (groups d),
                  apps := filter (\<lambda>a. ar_group_id a \<noteq> i) (apps d)\<rparr>))"

section \<open>Apps\<close>

definition app_to_row :: "app \<Rightarrow> app_row" where
  "app_to_row a =
     \<lparr>ar_id = a_id a, ar_group_id = a_group_id a, ar_name = a_name a, ar_description = a_description a,
      ar_src_endpoint = mc_endpoint (a_src a), ar_src_access_key = mc_access_key (a_src a),
      ar_src_secret_key = mc_secret_key (a_src a), ar_src_bucket = mc_bucket (a_src a),
      ar_src_region = mc_region (a_src a), ar_src_use_ssl = boolToInt (mc_use_ssl (a_src a)),
      ar_src_skip_tls_verify = boolToInt (mc_skip_tls_verify (a_src a)),
      ar_dst_endpoint = mc_endpoint (a_dst a), ar_dst_access_key = mc_access_key (a_dst a),
      ar_dst_secret_key = mc_secret_key (a_dst a), ar_dst_bucket = mc_bucket (a_dst a),
      ar_dst_region = mc_region (a_dst a), ar_dst_use_ssl = boolToInt (mc_use_ssl (a_dst a)),
      ar_dst_skip_tls_verify = boolToInt (mc_skip_tls_verify (a_dst a)),
      ar_webhook_secret = a_webhook_secret a, ar_enabled = boolToInt (a_enabled a),
      ar_retry_max_attempts = a_retry_max_attempts a,
      ar_retry_backoff_seconds = a_retry_backoff_seconds a,
      ar_created_at = to_unix (a_created_at a), ar_updated_at = to_unix (a_updated_at a)\<rparr>"

definition scanApp :: "app_row \<Rightarrow> app" where
  "scanApp r =
     \<lparr>a_id = ar_id r, a_group_id = ar_group_id r, a_name = ar_name r, a_description = ar_description r,
      a_src = \<lparr>mc_endpoint = ar_src_endpoint r, mc_access_key = ar_src_access_key r,
               mc_secret_key = ar_src_secret_key r, mc_bucket = ar_src_bucket r,
               mc_region = ar_src_region r, mc_use_ssl = (ar_src_use_ssl r = 1),
               mc_skip_tls_verify = (ar_src_skip_tls_verify r = 1)\<rparr>,
      a_dst = \<lparr>mc_endpoint = ar_dst_endpoint r, mc_access_key = ar_dst_access_key r,
               mc_secret_key = ar_dst_secret_key r, mc_bucket = ar_dst_bucket r,
               mc_region = ar_dst_region r, mc_use_ssl = (ar_dst_use_ssl r = 1),
               mc_skip_tls_verify = (ar_dst_skip_tls_verify r = 1)\<rparr>,
      a_webhook_secret = ar_webhook_secret r, a_enabled = (ar_enabled r = 1),
      a_retry_max_attempts = ar_retry_max_attempts r,
      a_retry_backoff_seconds = ar_retry_backoff_seconds r,
      a_created_at = of_unix (ar_created_at r), a_updated_at = of_unix (ar_updated_at r)\<rparr>"

definition CreateApp :: "string option \<Rightarrow> app \<Rightarrow> db \<Rightarrow> db res" where
  "CreateApp fault a d = with_fault fault
     (let r = app_to_row a in
      if list_ex (\<lambda>x. ar_id x = ar_id r) (apps d) then Inl (ErrUnique ''apps.id'')
      else if list_ex (\<lambda>x. ar_group_id x = ar_group_id r \<and> ar_name x = ar_name r) (apps d)
      then Inl (ErrUnique ''apps.group_id, apps.name'')
      else if \<not> list_ex (\<lambda>g. gr_id g = ar_group_id r) (groups d) then Inl ErrForeignKey
      else Inr (d\<lparr>apps := apps d @ [r]\<rparr>))"

definition GetApp :: "string option \<Rightarrow> string \<Rightarrow> db \<Rightarrow> app option res" where
  "GetApp fault i d = with_fault fault
     (Inr (map_option scanApp (find (\<lambda>r. ar_id r = i) (apps d))))"

text \<open>The join of apps with their groups, filtered by the two names; the first row counts.\<close>

definition GetAppByRoute :: "string option \<Rightarrow> string \<Rightarrow> string \<Rightarrow> db \<Rightarrow> app option res" where
  "GetAppByRoute fault groupSlug appSlug d = with_fault fault
     (Inr (map_option scanApp
       (find (\<lambda>a. list_ex (\<lambda>g. gr_id g = ar_group_id a \<and> gr_name g = groupSlug) (groups d) \<and>
                  ar_name a = appSlug) (apps d))))"

definition ListAppsByGroup :: "string option \<Rightarrow> string \<Rightarrow> db \<Rightarrow> app list res" where
  "ListAppsByGroup fault gid d = with_fault fault
     (Inr (map scanApp (sort_key ar_name (filter (\<lambda>a. ar_group_id a = gid) (apps d)))))"

definition update_app_row :: "app \<Rightarrow> app_row \<Rightarrow> app_row" where
  "update_app_row a r =
     (app_to_row a)\<lparr>ar_id := ar_id r, ar_group_id := ar_group_id r, ar_created_at := ar_created_at r\<rparr>"

definition UpdateApp :: "string option \<Rightarrow> app \<Rightarrow> db \<Rightarrow> db res" where
  "UpdateApp fault a d = with_fault fault
     (if list_ex (\<lambda>r. ar_id r = a_id a \<and>
           list_ex (\<lambda>x. ar_id x \<noteq> a_id a \<and> ar_group_id x = ar_group_id r \<and> ar_name x = a_name a) (apps d))
         (apps d)
      then Inl (ErrUnique ''apps.group_id, apps.name'')
      else Inr (d\<lparr>apps := map (\<lambda>r. if ar_id r = a_id a then update_app_row a r else r) (apps d)\<rparr>))"

definition DeleteApp :: "string option \<Rightarrow> string \<Rightarrow> db \<Rightarrow> db res" where
  "DeleteApp fault i d = with_fault fault
     (if list_ex (\<lambda>a. ar_id a = i) (apps d) \<and> list_ex (\<lambda>t. tr_app_id t = i) (transfers d)
      then Inl ErrForeignKey
      else Inr (d\<lparr>apps := filter (\<lambda>a. ar_id a \<noteq> i) (apps d)\<rparr>))"

section \<open>Transfers\<close>

definition transfer_to_row :: "transfer \<Rightarrow> transfer_row" where
  "transfer_to_row t =
     \<lparr>tr_id = t_id t, tr_app_id = t_app_id t, tr_object_key = t_object_key t,
      tr_src_bucket = t_src_bucket t, tr_dst_bucket = t_dst_bucket t,
      tr_object_size = t_object_size t, tr_etag = t_etag t, tr_status = t_status t,
      tr_error_message = t_error_message t, tr_bytes_transferred = t_bytes_transferred t,
      tr_started_at = nullableUnix (t_started_at t), tr_completed_at = nullableUnix (t_completed_at t),
      tr_duration_ms = t_duration_ms t, tr_created_at = to_unix (t_created_at t),
      tr_retry_count = t_retry_count t, tr_max_retries = t_max_retries t,
      tr_next_retry_at = nullableUnix (t_next_retry_at t)\<rparr>"

definition scanTransfer :: "transfer_row \<Rightarrow> transfer" where
  "scanTransfer r =
     \<lparr>t_id = tr_id r, t_app_id = tr_app_id r, t_object_key = tr_object_key r,
      t_src_bucket = tr_src_bucket r, t_dst_bucket = tr_dst_bucket r,
      t_object_size = tr_object_size r, t_etag = tr_etag r, t_status = tr_status r,
      t_error_message = tr_error_message r, t_bytes_transferred = tr_bytes_transferred r,
      t_started_at = map_option of_unix (tr_started_at r),
      t_completed_at = map_option of_unix (tr_completed_at r),
      t_duration_ms = tr_duration_ms r, t_created_at = of_unix (tr_created_at r),
      t_retry_count = tr_retry_count r, t_max_retries = tr_max_retries r,
      t_next_retry_at = map_option of_unix (tr_next_retry_at r)\<rparr>"

text \<open>The columns \<open>UPDATE transfers\<close> sets.\<close>

definition update_transfer_row :: "transfer \<Rightarrow> transfer_row \<Rightarrow> transfer_row" where
  "update_transfer_row t r =
     r\<lparr>tr_status := t_status t, tr_error_message := t_error_message t,
       tr_bytes_transferred := t_bytes_transferred t,
       tr_started_at := nullableUnix (t_started_at t),
       tr_completed_at := nullableUnix (t_completed_at t),
       tr_duration_ms := t_duration_ms t, tr_etag := t_etag t,
       tr_retry_count := t_retry_count t, tr_max_retries := t_max_retries t,
       tr_next_retry_at := nullableUnix (t_next_retry_at t)\<rparr>"

text \<open>The two statements that go through the batch writer.\<close>

datatype write_stmt = InsertTransfer transfer | UpdateTransferStmt transfer

fun exec_stmt :: "write_stmt \<Rightarrow> db \<Rightarrow> db res" where
  "exec_stmt (InsertTransfer t) d =
     (if list_ex (\<lambda>r. tr_id r = t_id t) (transfers d) then Inl (ErrUnique ''transfers.id'')
      else if \<not> list_ex (\<lambda>a. ar_id a = t_app_id t) (apps d) then Inl ErrForeignKey
      else Inr (d\<lparr>transfers := transfers d @ [transfer_to_row t]\<rparr>))"
| "exec_stmt (UpdateTransferStmt t) d =
     Inr (d\<lparr>transfers := map (\<lambda>r. if tr_id r = t_id t then update_transfer_row t r else r) (transfers d)\<rparr>)"

definition CreateTransfer :: "string option \<Rightarrow> transfer \<Rightarrow> db \<Rightarrow> db res" where
  "CreateTransfer fault t d = with_fault fault (exec_stmt (InsertTransfer t) d)"

definition UpdateTransfer :: "string option \<Rightarrow> transfer \<Rightarrow> db \<Rightarrow> db res" where
  "UpdateTransfer fault t d = with_fault fault (exec_stmt (UpdateTransferStmt t) d)"

definition find_transfer :: "db \<Rightarrow> string \<Rightarrow> transfer_row option" where
  "find_transfer d i = find (\<lambda>r. tr_id r = i) (transfers d)"

definition GetTransfer :: "string option \<Rightarrow> string \<Rightarrow> db \<Rightarrow> transfer option res" where
  "GetTransfer fault i d = with_fault fault (Inr (map_option scanTransfer (find_transfer d i)))"

definition active_status :: "string \<Rightarrow> bool" where
  "active_status s \<longleftrightarrow> s \<in> {''pending'', ''in_progress'', ''retrying''}"

definition has_active :: "db \<Rightarrow> string \<Rightarrow> string \<Rightarrow> bool" where
  "has_active d appID objectKey =
     list_ex (\<lambda>r. tr_app_id r = appID \<and> tr_object_key r = objectKey \<and> active_status (tr_status r)) (transfers d)"

definition HasActiveTransfer :: "string option \<Rightarrow> string \<Rightarrow> string \<Rightarrow> db \<Rightarrow> bool res" where
  "HasActiveTransfer fault appID objectKey d = with_fault fault (Inr (has_active d appID objectKey))"

text \<open>\<open>Ping\<close> asks the engine for a connection.\<close>

definition Ping :: "string option \<Rightarrow> unit res" where
  "Ping fault = with_fault fault (Inr ())"

section \<open>Listing and statistics\<close>

text \<open>
  \<open>FROM transfers t\<close>, joined with \<open>apps a ON a.id = t.app_id\<close> only when a group is asked for,
  and the conjunction of the \<open>WHERE\<close> clauses.
\<close>

definition select_transfers :: "string \<Rightarrow> string \<Rightarrow> string \<Rightarrow> db \<Rightarrow> transfer_row list" where
  "select_transfers appID groupID status d =
     filter (\<lambda>t. (appID = [] \<or> tr_app_id t = appID) \<and> (status = [] \<or> tr_status t = status))
       (if groupID = [] then transfers d
        else concat (map (\<lambda>t. map (\<lambda>a. t)
               (filter (\<lambda>a. ar_id a = tr_app_id t \<and> ar_group_id a = groupID) (apps d))) (transfers d)))"

definition clamp_limit :: "int \<Rightarrow> int" where
  "clamp_limit l = (let l' = (if l \<le> 0 then 50 else l) in if l' > 500 then 500 else l')"

definition ListTransfers ::
  "(transfer_row list \<Rightarrow> transfer_row list) \<Rightarrow> string option \<Rightarrow> string option \<Rightarrow> list_opts \<Rightarrow> db \<Rightarrow>
   (transfer list \<times> int) res" where
  "ListTransfers arrange count_fault data_fault opts d =
     (let sel = select_transfers (lo_app_id opts) (lo_group_id opts) (lo_status opts) d;
          total = (case count_fault of Some _ \<Rightarrow> 0 | None \<Rightarrow> int (length sel))
      in with_fault data_fault
           (Inr (map scanTransfer
                   (take (nat (clamp_limit (lo_limit opts))) (drop (nat (lo_offset opts)) (arrange sel))),
                 total)))"

text \<open>\<open>SUM\<close> over integers fails when a partial sum leaves 64 bits.\<close>

fun sum_int64 :: "int \<Rightarrow> int list \<Rightarrow> int option" where
  "sum_int64 acc [] = Some acc"
| "sum_int64 acc (x # xs) = (if in_int64 (acc + x) then sum_int64 (acc + x) xs else None)"

definition count_status :: "string \<Rightarrow> transfer_row list \<Rightarrow> int" where
  "count_status s rs = int (length (filter (\<lambda>r. tr_status r = s) rs))"

definition avg_rat :: "rat list \<Rightarrow> rat" where
  "avg_rat xs = (if xs = [] then 0 else sum_list xs / of_nat (length xs))"

fun max_opt :: "int option list \<Rightarrow> int option" where
  "max_opt [] = None"
| "max_opt (None # xs) = max_opt xs"
| "max_opt (Some x # xs) = (case max_opt xs of None \<Rightarrow> Some x | Some y \<Rightarrow> Some (max x y))"

definition GetStats :: "string option \<Rightarrow> string \<Rightarrow> string \<Rightarrow> db \<Rightarrow> transfer_stats res" where
  "GetStats fault appID groupID d = with_fault fault
     (let rs = select_transfers appID groupID [] d in
      case sum_int64 0 (map tr_bytes_transferred rs) of
        None \<Rightarrow> Inl (Err ''integer overflow'')
      | Some total_bytes \<Rightarrow>
          Inr \<lparr>ts_total = int (length rs), ts_success = count_status ''success'' rs,
               ts_failed = count_status ''failed'' rs, ts_in_progress = count_status ''in_progress'' rs,
               ts_pending = count_status ''pending'' rs, ts_retrying = count_status ''retrying'' rs,
               ts_total_bytes = total_bytes,
               ts_avg_duration_ms = avg_rat (map tr_duration_ms (filter (\<lambda>r. tr_status r = ''success'') rs)),
               ts_last_transfer_at = map_option of_unix (max_opt (map tr_completed_at rs))\<rparr>)"

section \<open>The invariant of the tables\<close>

definition valid_statuses :: "string set" where
  "valid_statuses = {''pending'', ''in_progress'', ''success'', ''failed'', ''retrying''}"

text \<open>A foreign key: every \<open>f x\<close> of the rows \<open>xs\<close> is the key \<open>g y\<close> of a row of \<open>ys\<close>.\<close>

definition refs :: "('a \<Rightarrow> 'k) \<Rightarrow> 'a list \<Rightarrow> ('b \<Rightarrow> 'k) \<Rightarrow> 'b list \<Rightarrow> bool" where
  "refs f xs g ys \<longleftrightarrow> (\<forall>x \<in> set xs. f x \<in> g ` set ys)"

definition db_ok :: "db \<Rightarrow> bool" where
  "db_ok d \<longleftrightarrow>
     distinct (map gr_id (groups d)) \<and> distinct (map gr_name (groups d)) \<and>
     distinct (map ar_id (apps d)) \<and> distinct (map (\<lambda>a. (ar_group_id a, ar_name a)) (apps d)) \<and>
     distinct (map tr_id (transfers d)) \<and>
     refs ar_group_id (apps d) gr_id (groups d) \<and> refs tr_app_id (transfers d) ar_id (apps d)"

text \<open>One write of the store, by any of its operations, with or without a failure of the engine.\<close>

inductive store_step :: "db \<Rightarrow> db \<Rightarrow> bool" where
  create_group: "CreateGroup f g d = Inr d' \<Longrightarrow> store_step d d'"
| update_group: "UpdateGroup f g d = Inr d' \<Longrightarrow> store_step d d'"
| delete_group: "DeleteGroup f i d = Inr d' \<Longrightarrow> store_step d d'"
| create_app: "CreateApp f a d = Inr d' \<Longrightarrow> store_step d d'"
| update_app: "UpdateApp f a d = Inr d' \<Longrightarrow> store_step d d'"
| delete_app: "DeleteApp f i d = Inr d' \<Longrightarrow> store_step d d'"
| create_transfer: "CreateTransfer f t d = Inr d' \<Longrightarrow> store_step d d'"
| update_transfer: "UpdateTransfer f t d = Inr d' \<Longrightarrow> store_step d d'"

text \<open>Times as they come back from a table: whole seconds.\<close>

definition trunc_time :: "time \<Rightarrow> time" where
  "trunc_time t = of_unix (to_unix t)"

definition trunc_group :: "grp \<Rightarrow> grp" where
  "trunc_group g = g\<lparr>g_created_at := trunc_time (g_created_at g), g_updated_at := trunc_time (g_updated_at g)\<rparr>"

definition trunc_app :: "app \<Rightarrow> app" where
  "trunc_app a = a\<lparr>a_created_at := trunc_time (a_created_at a), a_updated_at := trunc_time (a_updated_at a)\<rparr>"

definition trunc_transfer :: "transfer \<Rightarrow> transfer" where
  "trunc_transfer t =
     t\<lparr>t_started_at := map_option trunc_time (t_started_at t),
       t_completed_at := map_option trunc_time (t_completed_at t),
       t_created_at := trunc_time (t_created_at t),
       t_next_retry_at := map_option trunc_time (t_next_retry_at t)\<rparr>"

section \<open>The contract of the transfer table\<close>

text \<open>No object has two transfers that are not over.\<close>

definition unique_active :: "(string \<Rightarrow> transfer_row option) \<Rightarrow> bool" where
  "unique_active row \<longleftrightarrow>
     (\<forall>i j r r'. row i = Some r \<and> row j = Some r' \<and> active_status (tr_status r) \<and> active_status (tr_status r') \<and>
        tr_app_id r = tr_app_id r' \<and> tr_object_key r = tr_object_key r' \<longrightarrow> i = j)"

text \<open>
  What the webhook handler and the worker rely on: \<open>create\<close> adds a row under a new id,
  \<open>update\<close> changes the mutable columns of one row, \<open>active\<close> asks for a row of an app and key
  whose status is not final.
\<close>

locale transfer_store =
  fixes create :: "transfer \<Rightarrow> 's \<Rightarrow> 's res" and update :: "transfer \<Rightarrow> 's \<Rightarrow> 's res"
    and row :: "'s \<Rightarrow> string \<Rightarrow> transfer_row option" and active :: "'s \<Rightarrow> string \<Rightarrow> string \<Rightarrow> bool"
    and ok :: "'s \<Rightarrow> bool"
  assumes create_row: "ok s \<Longrightarrow> create t s = Inr s' \<Longrightarrow>
      row s (t_id t) = None \<and> row s' = (row s)(t_id t \<mapsto> transfer_to_row t)"
    and create_ok: "ok s \<Longrightarrow> create t s = Inr s' \<Longrightarrow> ok s'"
    and update_row: "ok s \<Longrightarrow> update t s = Inr s' \<Longrightarrow>
      row s' = (row s)(t_id t := map_option (update_transfer_row t) (row s (t_id t)))"
    and update_ok: "ok s \<Longrightarrow> update t s = Inr s' \<Longrightarrow> ok s'"
    and active_iff: "ok s \<Longrightarrow> active s a k \<longleftrightarrow>
      (\<exists>i r. row s i = Some r \<and> tr_app_id r = a \<and> tr_object_key r = k \<and> active_status (tr_status r))"
begin

text \<open>A created transfer makes its key active and no other key.\<close>

lemma create_active:
  assumes "ok s" "create t s = Inr s'" "active_status (t_status t)"
  shows "active s' a k \<longleftrightarrow> active s a k \<or> (a = t_app_id t \<and> k = t_object_key t)"
proof -
  have new: "row s (t_id t) = None" and r: "row s' = (row s)(t_id t \<mapsto> transfer_to_row t)"
    using create_row [OF assms(1,2)] by auto
  show ?thesis
    unfolding active_iff [OF assms(1)] active_iff [OF create_ok [OF assms(1,2)]]
  proof
    assume "\<exists>i x. row s' i = Some x \<and> tr_app_id x = a \<and> tr_object_key x = k \<and> active_status (tr_status x)"
    then show "(\<exists>i x. row s i = Some x \<and> tr_app_id x = a \<and> tr_object_key x = k \<and> active_status (tr_status x)) \<or>
        (a = t_app_id t \<and> k = t_object_key t)"
      by (auto simp: r transfer_to_row_def split: if_splits)
  next
    assume "(\<exists>i x. row s i = Some x \<and> tr_app_id x = a \<and> tr_object_key x = k \<and> active_status (tr_status x)) \<or>
        (a = t_app_id t \<and> k = t_object_key t)"
    then show "\<exists>i x. row s' i = Some x \<and> tr_app_id x = a \<and> tr_object_key x = k \<and> active_status (tr_status x)"
    proof (elim disjE exE conjE)
      fix i x
      assume x: "row s i = Some x" "tr_app_id x = a" "tr_object_key x = k" "active_status (tr_status x)"
      with new have "row s' i = Some x" by (cases "i = t_id t") (simp_all add: r)
      with x show ?thesis by blast
    next
      assume "a = t_app_id t" "k = t_object_key t"
      with assms(3) show ?thesis
        by (intro exI [of _ "t_id t"] exI [of _ "transfer_to_row t"]) (simp add: r transfer_to_row_def)
    qed
  qed
qed

text \<open>An update never makes another key active, and keeps every row's identity.\<close>

lemma update_identity:
  assumes "ok s" "update t s = Inr s'" "row s' i = Some r'"
  shows "\<exists>r. row s i = Some r \<and> tr_app_id r' = tr_app_id r \<and> tr_object_key r' = tr_object_key r \<and>
             tr_created_at r' = tr_created_at r \<and> (i \<noteq> t_id t \<longrightarrow> r' = r) \<and>
             (i = t_id t \<longrightarrow> r' = update_transfer_row t r)"
  using update_row [OF assms(1,2)] assms(3)
  by (auto simp: update_transfer_row_def split: if_splits)

text \<open>A final update of the only active row of a key frees the key.\<close>

lemma update_final_frees:
  assumes "ok s" "update t s = Inr s'" "\<not> active_status (t_status t)"
    and only: "\<And>i r. row s i = Some r \<Longrightarrow> tr_app_id r = a \<Longrightarrow> tr_object_key r = k \<Longrightarrow>
                 active_status (tr_status r) \<Longrightarrow> i = t_id t"
  shows "\<not> active s' a k"
proof
  assume "active s' a k"
  then obtain i r' where r': "row s' i = Some r'" "tr_app_id r' = a" "tr_object_key r' = k"
    "active_status (tr_status r')"
    using active_iff [OF update_ok [OF assms(1,2)]] by blast
  from update_identity [OF assms(1,2) r'(1)] r' only assms(3) show False
    by (cases "i = t_id t") (auto simp: update_transfer_row_def)
qed

text \<open>
  Creating a transfer only for a key that is not active, and never reviving a transfer that is
  over, keeps the active transfers unique.
\<close>

lemma create_unique:
  assumes "ok s" "create t s = Inr s'" "unique_active (row s)" "\<not> active s (t_app_id t) (t_object_key t)"
  shows "unique_active (row s')"
proof -
  have none: "\<not> active_status (tr_status r)"
    if "row s i = Some r" "tr_app_id r = t_app_id t" "tr_object_key r = t_object_key t" for i r
    using active_iff [OF assms(1)] assms(4) that by blast
  have cases: "i = t_id t \<and> r = transfer_to_row t \<or> i \<noteq> t_id t \<and> row s i = Some r" if "row s' i = Some r" for i r
    using create_row [OF assms(1,2)] that by (cases "i = t_id t") auto
  show ?thesis
    unfolding unique_active_def
  proof (intro allI impI, elim conjE)
    fix i j r q
    assume h: "row s' i = Some r" "row s' j = Some q" "active_status (tr_status r)" "active_status (tr_status q)"
      "tr_app_id r = tr_app_id q" "tr_object_key r = tr_object_key q"
    from assms(3) have "i = j" if "row s i = Some r" "row s j = Some q"
      using that h(3-6) unfolding unique_active_def by blast
    note both = this
    have app: "tr_app_id (transfer_to_row t) = t_app_id t" "tr_object_key (transfer_to_row t) = t_object_key t"
      by (simp_all add: transfer_to_row_def)
    show "i = j"
    proof (cases "i = t_id t")
      case True
      with cases [OF h(1)] have r: "r = transfer_to_row t" by blast
      show ?thesis
      proof (rule ccontr)
        assume "i \<noteq> j"
        with True cases [OF h(2)] have "row s j = Some q" by blast
        with none [of j q] h(4-6) r app show False by simp
      qed
    next
      case False
      with cases [OF h(1)] have r: "row s i = Some r" by blast
      with none [of i r] h(3,5,6) app have "q \<noteq> transfer_to_row t" by metis
      with cases [OF h(2)] both r show ?thesis by blast
    qed
  qed
qed

lemma update_unique:
  assumes "ok s" "update t s = Inr s'" "unique_active (row s)"
    and "\<And>r. row s (t_id t) = Some r \<Longrightarrow> active_status (t_status t) \<Longrightarrow> active_status (tr_status r)"
  shows "unique_active (row s')"
  unfolding unique_active_def
proof (intro allI impI, elim conjE)
  fix i j r' q'
  assume h: "row s' i = Some r'" "row s' j = Some q'" "active_status (tr_status r')" "active_status (tr_status q')"
    "tr_app_id r' = tr_app_id q'" "tr_object_key r' = tr_object_key q'"
  have old: "\<exists>r. row s k = Some r \<and> tr_app_id x = tr_app_id r \<and> tr_object_key x = tr_object_key r \<and> active_status (tr_status r)"
    if "row s' k = Some x" "active_status (tr_status x)" for k x
    using update_identity [OF assms(1,2) that(1)] assms(4) that(2)
    by (cases "k = t_id t") (auto simp: update_transfer_row_def)
  from old [OF h(1,3)] old [OF h(2,4)] h(5,6) assms(3) show "i = j"
    unfolding unique_active_def by metis
qed

end

section \<open>Ordering and concrete data\<close>

text \<open>What \<open>ORDER BY t.created_at DESC\<close> promises: the same rows, newest first.\<close>

definition orders_desc :: "(transfer_row list \<Rightarrow> transfer_row list) \<Rightarrow> bool" where
  "orders_desc arrange \<longleftrightarrow>
     (\<forall>xs. mset (arrange xs) = mset xs \<and>
           sorted_wrt (\<lambda>a b. tr_created_at b \<le> tr_created_at a) (arrange xs))"

text \<open>A transfer that the filters of a listing ask for.\<close>

definition lo_matches :: "list_opts \<Rightarrow> db \<Rightarrow> transfer_row \<Rightarrow> bool" where
  "lo_matches opts d t \<longleftrightarrow>
     (lo_app_id opts = [] \<or> tr_app_id t = lo_app_id opts) \<and>
     (lo_status opts = [] \<or> tr_status t = lo_status opts) \<and>
     (lo_group_id opts = [] \<or> (\<exists>x \<in> set (apps d). ar_id x = tr_app_id t \<and> ar_group_id x = lo_group_id opts))"

definition newest_first :: "transfer_row list \<Rightarrow> transfer_row list" where
  "newest_first xs = rev (sort_key tr_created_at xs)"

definition sample_mc :: minio_config where
  "sample_mc = \<lparr>mc_endpoint = ''minio:9000'', mc_access_key = ''ak'', mc_secret_key = ''sk'', mc_bucket = ''b'',
                mc_region = ''us-east-1'', mc_use_ssl = False, mc_skip_tls_verify = True\<rparr>"

definition sample_group :: grp where
  "sample_group = \<lparr>g_id = ''g1'', g_name = ''prod'', g_description = [], g_created_at = 1500000000, g_updated_at = 1500000000\<rparr>"

definition sample_app :: app where
  "sample_app = \<lparr>a_id = ''a1'', a_group_id = ''g1'', a_name = ''backup'', a_description = [], a_src = sample_mc,
                 a_dst = sample_mc\<lparr>mc_bucket := ''c''\<rparr>, a_webhook_secret = ''tok'', a_enabled = True,
                 a_retry_max_attempts = 0, a_retry_backoff_seconds = 0, a_created_at = 0, a_updated_at = 0\<rparr>"

definition sample_transfer :: transfer where
  "sample_transfer = \<lparr>t_id = ''t1'', t_app_id = ''a1'', t_object_key = ''k'', t_src_bucket = ''b'', t_dst_bucket = ''c'',
                      t_object_size = 7, t_etag = [], t_status = ''success'', t_error_message = [], t_bytes_transferred = 7,
                      t_started_at = Some 1, t_completed_at = Some 2500000000, t_duration_ms = 3, t_created_at = 0,
                      t_retry_count = 0, t_max_retries = 0, t_next_retry_at = None\<rparr>"

definition sample_db :: db where
  "sample_db = \<lparr>groups = [group_to_row sample_group], apps = [app_to_row sample_app],
                transfers = [transfer_to_row sample_transfer]\<rparr>"

section \<open>Lemmas\<close>

lemma with_fault_Inr [simp]: "with_fault f r = Inr x \<longleftrightarrow> f = None \<and> r = Inr x"
  by (cases f) (simp_all add: with_fault_def)

lemma with_fault_None [simp]: "with_fault None r = r"
  by (simp add: with_fault_def)

lemma with_fault_Some [simp]: "with_fault (Some e) r = Inl (Err e)"
  by (simp add: with_fault_def)

lemma find_append_new: "\<not> list_ex P xs \<Longrightarrow> find P (xs @ [x]) = (if P x then Some x else None)"
  by (induction xs) auto

lemma find_append_other: "find P (xs @ [x]) = (case find P xs of None \<Rightarrow> if P x then Some x else None | r \<Rightarrow> r)"
  by (induction xs) auto

lemma find_None_ex [simp]: "\<not> list_ex P xs \<Longrightarrow> find P xs = None"
  by (auto simp: find_None_iff list_ex_iff)

lemma find_key_unique:
  "distinct (map f xs) \<Longrightarrow> find (\<lambda>x. f x = k) xs = Some y \<longleftrightarrow> y \<in> set xs \<and> f y = k"
  by (induction xs) (auto simp: image_iff)

lemma find_map_upd:
  "(\<And>x. f (g x) = f x) \<Longrightarrow>
   find (\<lambda>x. f x = k) (map (\<lambda>x. if f x = i then g x else x) xs) =
   (if k = i then map_option g (find (\<lambda>x. f x = k) xs) else find (\<lambda>x. f x = k) xs)"
  by (induction xs) auto

lemma map_key_upd: "(\<And>x. f (g x) = f x) \<Longrightarrow> map f (map (\<lambda>x. if P x then g x else x) xs) = map f xs"
  by (induction xs) auto

lemma distinct_map_upd1:
  assumes "distinct (map f xs)" "distinct (map h xs)" "\<And>x. f (g x) = f x"
    and "\<forall>x \<in> set xs. f x = i \<longrightarrow> (\<forall>y \<in> set xs. f y \<noteq> i \<longrightarrow> h y \<noteq> h (g x))"
  shows "distinct (map h (map (\<lambda>x. if f x = i then g x else x) xs))"
  using assms(1,2,4)
proof (induction xs)
  case (Cons x xs)
  have rest: "\<forall>y \<in> set xs. f y \<noteq> f x" using Cons.prems(1) by (auto simp: image_iff)
  show ?case
  proof (cases "f x = i")
    case True
    with rest have "map (\<lambda>x. if f x = i then g x else x) xs = xs"
      by (intro map_idI) auto
    with Cons.prems True rest show ?thesis by (auto simp: image_iff)
  next
    case False
    have "distinct (map h (map (\<lambda>x. if f x = i then g x else x) xs))"
      using Cons by auto
    moreover have "h x \<noteq> h (if f y = i then g y else y)" if "y \<in> set xs" for y
      using Cons.prems that False by (auto simp: image_iff)
    ultimately show ?thesis using False by auto
  qed
qed simp

lemma group_to_row_sel [simp]: "gr_id (group_to_row g) = g_id g" "gr_name (group_to_row g) = g_name g"
  by (simp_all add: group_to_row_def)

lemma app_to_row_sel [simp]:
  "ar_id (app_to_row a) = a_id a" "ar_group_id (app_to_row a) = a_group_id a" "ar_name (app_to_row a) = a_name a"
  by (simp_all add: app_to_row_def)

lemma update_app_row_sel [simp]:
  "ar_id (update_app_row a r) = ar_id r" "ar_group_id (update_app_row a r) = ar_group_id r"
  "ar_name (update_app_row a r) = a_name a"
  by (simp_all add: update_app_row_def)

lemma transfer_to_row_sel [simp]:
  "tr_id (transfer_to_row t) = t_id t" "tr_app_id (transfer_to_row t) = t_app_id t"
  "tr_object_key (transfer_to_row t) = t_object_key t" "tr_status (transfer_to_row t) = t_status t"
  by (simp_all add: transfer_to_row_def)

lemma update_transfer_row_sel [simp]:
  "tr_id (update_transfer_row t r) = tr_id r" "tr_app_id (update_transfer_row t r) = tr_app_id r"
  "tr_object_key (update_transfer_row t r) = tr_object_key r"
  "tr_status (update_transfer_row t r) = t_status t"
  "tr_created_at (update_transfer_row t r) = tr_created_at r"
  by (simp_all add: update_transfer_row_def)

lemmas store_write_defs = CreateGroup_def UpdateGroup_def DeleteGroup_def CreateApp_def UpdateApp_def
  DeleteApp_def CreateTransfer_def UpdateTransfer_def

lemma list_ex_key: "list_ex (\<lambda>x. f x = k) xs \<longleftrightarrow> k \<in> f ` set xs"
  by (auto simp: list_ex_iff)

lemma refs_snoc1 [simp]: "refs f (xs @ [x]) g ys \<longleftrightarrow> refs f xs g ys \<and> f x \<in> g ` set ys"
  by (auto simp: refs_def)

lemma refs_snoc2 [intro]: "refs f xs g ys \<Longrightarrow> refs f xs g (ys @ [y])"
  by (auto simp: refs_def)

lemma refs_iff_subset: "refs f xs g ys \<longleftrightarrow> set (map f xs) \<subseteq> set (map g ys)"
  by (auto simp: refs_def)

lemma refs_cong1: "map f xs = map f xs' \<Longrightarrow> refs f xs g ys = refs f xs' g ys"
  by (simp only: refs_iff_subset)

lemma refs_cong2: "map g ys = map g ys' \<Longrightarrow> refs f xs g ys = refs f xs g ys'"
  by (simp only: refs_iff_subset)

lemma refs_filter:
  "refs f xs g ys \<Longrightarrow> (\<And>x y. x \<in> set xs \<Longrightarrow> Q x \<Longrightarrow> y \<in> set ys \<Longrightarrow> g y = f x \<Longrightarrow> P y) \<Longrightarrow>
   refs f (filter Q xs) g (filter P ys)"
  by (fastforce simp: refs_def image_iff)

lemma map_upd_key: "(\<And>x. f (g x) = f x) \<Longrightarrow> map (f \<circ> (\<lambda>x. if P x then g x else x)) xs = map f xs"
  by auto

lemma distinct_filter_map: "distinct (map f xs) \<Longrightarrow> distinct (map f (filter P xs))"
  by (induction xs) auto

lemma CreateGroup_ok: "db_ok d \<Longrightarrow> CreateGroup f g d = Inr d' \<Longrightarrow> db_ok d'"
  by (auto simp: CreateGroup_def Let_def db_ok_def list_ex_key split: if_splits)

lemma UpdateGroup_ok:
  assumes "db_ok d" "UpdateGroup f g d = Inr d'"
  shows "db_ok d'"
proof -
  let ?g = "\<lambda>r. r\<lparr>gr_name := g_name g, gr_description := g_description g, gr_updated_at := to_unix (g_updated_at g)\<rparr>"
  let ?gs = "map (\<lambda>r. if gr_id r = g_id g then ?g r else r) (groups d)"
  from assms(2) have d': "d' = d\<lparr>groups := ?gs\<rparr>"
    and c: "\<And>r y. r \<in> set (groups d) \<Longrightarrow> gr_id r = g_id g \<Longrightarrow> y \<in> set (groups d) \<Longrightarrow> gr_id y \<noteq> g_id g \<Longrightarrow>
              gr_name y \<noteq> g_name g"
    by (auto simp: UpdateGroup_def list_ex_iff split: if_splits)
  have ids: "map gr_id ?gs = map gr_id (groups d)"
    by (simp add: map_upd_key)
  have "distinct (map gr_name ?gs)"
    using assms(1) c by (intro distinct_map_upd1) (auto simp: db_ok_def)
  then show ?thesis
    using assms(1) ids by (simp add: db_ok_def d' refs_cong2 [OF ids] del: map_map)
qed

lemma DeleteGroup_ok: "db_ok d \<Longrightarrow> DeleteGroup f i d = Inr d' \<Longrightarrow> db_ok d'"
proof -
  assume ok: "db_ok d" and del: "DeleteGroup f i d = Inr d'"
  show ?thesis
  proof (cases "list_ex (\<lambda>r. gr_id r = i) (groups d)")
    case False
    with ok del show ?thesis by (simp add: DeleteGroup_def)
  next
    case True
    with del have d': "d' = d\<lparr>groups := filter (\<lambda>r. gr_id r \<noteq> i) (groups d),
                              apps := filter (\<lambda>a. ar_group_id a \<noteq> i) (apps d)\<rparr>"
      and no: "\<And>t a. t \<in> set (transfers d) \<Longrightarrow> a \<in> set (apps d) \<Longrightarrow> ar_id a = tr_app_id t \<Longrightarrow> ar_group_id a \<noteq> i"
      by (auto simp: DeleteGroup_def list_ex_iff split: if_splits)
    have "refs ar_group_id (filter (\<lambda>a. ar_group_id a \<noteq> i) (apps d)) gr_id (filter (\<lambda>r. gr_id r \<noteq> i) (groups d))"
      using ok by (intro refs_filter) (auto simp: db_ok_def)
    moreover have "refs tr_app_id (filter (\<lambda>_. True) (transfers d)) ar_id (filter (\<lambda>a. ar_group_id a \<noteq> i) (apps d))"
      using ok no by (intro refs_filter) (auto simp: db_ok_def)
    ultimately show ?thesis
      using ok by (simp add: d' db_ok_def distinct_filter_map)
  qed
qed

lemma CreateApp_ok: "db_ok d \<Longrightarrow> CreateApp f a d = Inr d' \<Longrightarrow> db_ok d'"
  by (auto simp: CreateApp_def Let_def db_ok_def list_ex_key list_ex_iff split: if_splits) blast

lemma UpdateApp_ok:
  assumes "db_ok d" "UpdateApp f a d = Inr d'"
  shows "db_ok d'"
proof -
  let ?as = "map (\<lambda>r. if ar_id r = a_id a then update_app_row a r else r) (apps d)"
  from assms(2) have d': "d' = d\<lparr>apps := ?as\<rparr>"
    and c: "\<And>r y. r \<in> set (apps d) \<Longrightarrow> ar_id r = a_id a \<Longrightarrow> y \<in> set (apps d) \<Longrightarrow> ar_id y \<noteq> a_id a \<Longrightarrow>
              \<not> (ar_group_id y = ar_group_id r \<and> ar_name y = a_name a)"
    by (auto simp: UpdateApp_def list_ex_iff split: if_splits)
  have ids: "map ar_id ?as = map ar_id (apps d)" and gids: "map ar_group_id ?as = map ar_group_id (apps d)"
    by (simp_all add: map_upd_key)
  have "distinct (map (\<lambda>a. (ar_group_id a, ar_name a)) ?as)"
    using assms(1) c by (intro distinct_map_upd1) (auto simp: db_ok_def)
  then show ?thesis
    using assms(1) ids
    by (simp add: db_ok_def d' refs_cong1 [OF gids] refs_cong2 [OF ids] del: map_map)
qed

lemma DeleteApp_ok: "db_ok d \<Longrightarrow> DeleteApp f i d = Inr d' \<Longrightarrow> db_ok d'"
proof -
  assume ok: "db_ok d" and del: "DeleteApp f i d = Inr d'"
  then have d': "d' = d\<lparr>apps := filter (\<lambda>a. ar_id a \<noteq> i) (apps d)\<rparr>"
    and no: "\<And>t a. t \<in> set (transfers d) \<Longrightarrow> a \<in> set (apps d) \<Longrightarrow> ar_id a = tr_app_id t \<Longrightarrow> ar_id a \<noteq> i"
    by (auto simp: DeleteApp_def list_ex_iff split: if_splits)
  have "refs ar_group_id (filter (\<lambda>a. ar_id a \<noteq> i) (apps d)) gr_id (filter (\<lambda>_. True) (groups d))"
    using ok by (intro refs_filter) (auto simp: db_ok_def)
  moreover have "refs tr_app_id (filter (\<lambda>_. True) (transfers d)) ar_id (filter (\<lambda>a. ar_id a \<noteq> i) (apps d))"
    using ok no by (intro refs_filter) (auto simp: db_ok_def)
  ultimately show ?thesis
    using ok by (simp add: d' db_ok_def distinct_filter_map)
qed

lemma exec_stmt_ok: "db_ok d \<Longrightarrow> exec_stmt st d = Inr d' \<Longrightarrow> db_ok d'"
proof (cases st)
  case (InsertTransfer t)
  assume "db_ok d" "exec_stmt st d = Inr d'"
  with InsertTransfer show ?thesis
    by (auto simp: db_ok_def list_ex_key split: if_splits)
next
  case (UpdateTransferStmt t)
  assume ok: "db_ok d" and e: "exec_stmt st d = Inr d'"
  let ?ts = "map (\<lambda>r. if tr_id r = t_id t then update_transfer_row t r else r) (transfers d)"
  from e UpdateTransferStmt have d': "d' = d\<lparr>transfers := ?ts\<rparr>" by simp
  have ids: "map tr_id ?ts = map tr_id (transfers d)" and as: "map tr_app_id ?ts = map tr_app_id (transfers d)"
    by (simp_all add: map_upd_key)
  show ?thesis
    using ok ids by (simp add: db_ok_def d' refs_cong1 [OF as] del: map_map)
qed

lemma CreateTransfer_ok: "db_ok d \<Longrightarrow> CreateTransfer f t d = Inr d' \<Longrightarrow> db_ok d'"
  by (auto simp: CreateTransfer_def simp del: exec_stmt.simps intro: exec_stmt_ok)

lemma UpdateTransfer_ok: "db_ok d \<Longrightarrow> UpdateTransfer f t d = Inr d' \<Longrightarrow> db_ok d'"
  by (auto simp: UpdateTransfer_def simp del: exec_stmt.simps intro: exec_stmt_ok)

lemmas store_ok_intros [keeps] = CreateGroup_ok UpdateGroup_ok DeleteGroup_ok CreateApp_ok UpdateApp_ok
  DeleteApp_ok CreateTransfer_ok UpdateTransfer_ok

lemma db_ok_empty: "db_ok empty_db"
  by (simp add: db_ok_def empty_db_def refs_def)

interpretation store_sys: invariant_system "\<lambda>d. d = empty_db" store_step db_ok
  by unfold_locales (auto simp: db_ok_empty elim!: store_step.cases intro: keeps)

lemma find_transfer_unique:
  "db_ok d \<Longrightarrow> find_transfer d i = Some r \<longleftrightarrow> r \<in> set (transfers d) \<and> tr_id r = i"
  by (simp add: find_transfer_def find_key_unique db_ok_def)

lemma CreateTransfer_find:
  assumes "CreateTransfer f t d = Inr d'"
  shows "find_transfer d (t_id t) = None \<and> find_transfer d' = (find_transfer d)(t_id t \<mapsto> transfer_to_row t)"
proof -
  from assms have new: "\<not> list_ex (\<lambda>r. tr_id r = t_id t) (transfers d)"
    and d': "d' = d\<lparr>transfers := transfers d @ [transfer_to_row t]\<rparr>"
    by (auto simp: CreateTransfer_def split: if_splits)
  from new have n: "find_transfer d (t_id t) = None"
    by (auto simp: find_transfer_def find_None_iff list_ex_iff)
  then show ?thesis
    by (auto simp: fun_eq_iff d' find_transfer_def find_append_other split: option.splits)
qed

lemma UpdateTransfer_find:
  assumes "UpdateTransfer f t d = Inr d'"
  shows "find_transfer d' =
    (find_transfer d)(t_id t := map_option (update_transfer_row t) (find_transfer d (t_id t)))"
  using assms by (auto simp: UpdateTransfer_def find_transfer_def fun_eq_iff find_map_upd)

lemma UpdateApp_find:
  assumes "UpdateApp f a d = Inr d'"
  shows "GetApp None i d' = (if i = a_id a then Inr (map_option (\<lambda>r. scanApp (update_app_row a r)) (find (\<lambda>r. ar_id r = i) (apps d)))
     else GetApp None i d)"
proof -
  from assms have "apps d' = map (\<lambda>r. if ar_id r = a_id a then update_app_row a r else r) (apps d)"
    by (auto simp: UpdateApp_def split: if_splits)
  then show ?thesis by (simp add: GetApp_def find_map_upd option.map_comp o_def)
qed

lemma has_active_iff:
  "db_ok d \<Longrightarrow> has_active d a k \<longleftrightarrow>
     (\<exists>i r. find_transfer d i = Some r \<and> tr_app_id r = a \<and> tr_object_key r = k \<and> active_status (tr_status r))"
  by (auto simp: has_active_def list_ex_iff find_transfer_unique)

text \<open>The store keeps the contract of the transfer table.\<close>

interpretation tstore: transfer_store "CreateTransfer None" "UpdateTransfer None" find_transfer has_active db_ok
proof unfold_locales
  fix s s' :: db and t
  assume "CreateTransfer None t s = Inr s'"
  then show "find_transfer s (t_id t) = None \<and> find_transfer s' = (find_transfer s)(t_id t \<mapsto> transfer_to_row t)"
    by (rule CreateTransfer_find)
next
  fix s s' :: db and t
  assume "UpdateTransfer None t s = Inr s'"
  then show "find_transfer s' =
      (find_transfer s)(t_id t := map_option (update_transfer_row t) (find_transfer s (t_id t)))"
    by (rule UpdateTransfer_find)
qed (auto intro: CreateTransfer_ok UpdateTransfer_ok simp: has_active_iff)

lemma scanGroup_row: "scanGroup (group_to_row g) = trunc_group g"
  by (simp add: scanGroup_def group_to_row_def trunc_group_def trunc_time_def)

lemma scanApp_row: "scanApp (app_to_row a) = trunc_app a"
  by (simp add: scanApp_def app_to_row_def trunc_app_def trunc_time_def boolToInt_def)

lemma nullableUnix_round: "map_option of_unix (nullableUnix t) = map_option trunc_time t"
  by (cases t) (simp_all add: nullableUnix_def trunc_time_def)

lemma scanTransfer_row: "scanTransfer (transfer_to_row t) = trunc_transfer t"
  by (simp add: scanTransfer_def transfer_to_row_def trunc_transfer_def nullableUnix_round trunc_time_def)

lemma CreateGroup_find:
  "CreateGroup f g d = Inr d' \<Longrightarrow>
   find (\<lambda>r. gr_id r = i) (groups d') =
     (if i = g_id g then Some (group_to_row g) else find (\<lambda>r. gr_id r = i) (groups d))"
  by (auto simp: CreateGroup_def Let_def find_append_new find_append_other split: if_splits option.splits)

lemma CreateApp_find:
  "CreateApp f a d = Inr d' \<Longrightarrow>
   find (\<lambda>r. ar_id r = i) (apps d') =
     (if i = a_id a then Some (app_to_row a) else find (\<lambda>r. ar_id r = i) (apps d))"
  by (auto simp: CreateApp_def Let_def find_append_new find_append_other split: if_splits option.splits)

lemma CreateApp_Inr:
  "CreateApp f a d = Inr d' \<Longrightarrow>
   (\<exists>g \<in> set (groups d). gr_id g = a_group_id a) \<and> groups d' = groups d \<and> app_to_row a \<in> set (apps d')"
  by (auto simp: CreateApp_def Let_def list_ex_iff split: if_splits)

lemma route_unique:
  assumes ok: "db_ok d" and "a \<in> set (apps d)" "a' \<in> set (apps d)" "g \<in> set (groups d)" "g' \<in> set (groups d)"
    and "gr_id g = ar_group_id a" "gr_id g' = ar_group_id a'" "gr_name g = gr_name g'" "ar_name a = ar_name a'"
  shows "a = a'"
proof -
  from ok have "inj_on gr_name (set (groups d))" by (simp add: db_ok_def distinct_map)
  with assms have "g = g'" by (simp add: inj_on_def)
  with assms have "(ar_group_id a, ar_name a) = (ar_group_id a', ar_name a')" by simp
  moreover from ok have "inj_on (\<lambda>a. (ar_group_id a, ar_name a)) (set (apps d))"
    by (simp add: db_ok_def distinct_map)
  ultimately show ?thesis using assms(2,3) unfolding inj_on_def by blast
qed

lemma find_unique:
  "(\<And>x y. x \<in> set xs \<Longrightarrow> y \<in> set xs \<Longrightarrow> P x \<Longrightarrow> P y \<Longrightarrow> x = y) \<Longrightarrow>
   find P xs = Some z \<longleftrightarrow> z \<in> set xs \<and> P z"
  by (induction xs) (auto split: if_splits)

lemma find_route:
  assumes "db_ok d"
  shows "find (\<lambda>a. list_ex (\<lambda>g. gr_id g = ar_group_id a \<and> gr_name g = gs) (groups d) \<and> ar_name a = as) (apps d)
           = Some r \<longleftrightarrow>
         r \<in> set (apps d) \<and> ar_name r = as \<and> (\<exists>g \<in> set (groups d). gr_id g = ar_group_id r \<and> gr_name g = gs)"
proof (subst find_unique)
  fix x y
  assume "x \<in> set (apps d)" "y \<in> set (apps d)"
    "list_ex (\<lambda>g. gr_id g = ar_group_id x \<and> gr_name g = gs) (groups d) \<and> ar_name x = as"
    "list_ex (\<lambda>g. gr_id g = ar_group_id y \<and> gr_name g = gs) (groups d) \<and> ar_name y = as"
  then show "x = y" using route_unique [OF assms, of x y] by (auto simp: list_ex_iff)
qed (auto simp: list_ex_iff)

section \<open>Lemmas on listing and statistics\<close>

lemma clamp_limit_bounds: "1 \<le> clamp_limit l \<and> clamp_limit l \<le> 500"
  by (simp add: clamp_limit_def)

lemma select_transfers_subset: "set (select_transfers a g st d) \<subseteq> set (transfers d)"
  by (auto simp: select_transfers_def split: if_splits)

lemma length_filter_partition:
  "(\<forall>x \<in> set xs. f x \<in> set ks) \<Longrightarrow> distinct ks \<Longrightarrow>
   (\<Sum>k \<leftarrow> ks. int (length (filter (\<lambda>x. f x = k) xs))) = int (length xs)"
proof (induction xs)
  case (Cons x xs)
  have "(\<Sum>k \<leftarrow> ks. int (length (filter (\<lambda>y. f y = k) (x # xs)))) =
        (\<Sum>k \<leftarrow> ks. (if f x = k then 1 else 0) + int (length (filter (\<lambda>y. f y = k) xs)))"
    by (rule arg_cong [of _ _ sum_list], rule map_cong) auto
  also have "\<dots> = (\<Sum>k \<leftarrow> ks. if f x = k then 1 else 0) + (\<Sum>k \<leftarrow> ks. int (length (filter (\<lambda>y. f y = k) xs)))"
    by (simp add: sum_list_addf)
  also have "(\<Sum>k \<leftarrow> ks. if f x = k then 1 else 0) = (1 :: int)"
    using Cons.prems by (simp add: sum_list_distinct_conv_sum_set)
  finally show ?case using Cons by simp
qed simp

lemma sum_int64_Some: "sum_int64 acc xs = Some s \<Longrightarrow> s = acc + sum_list xs"
proof (induction xs arbitrary: acc)
  case (Cons x xs)
  then have "sum_int64 (acc + x) xs = Some s" by (simp split: if_splits)
  from Cons.IH [OF this] show ?case by simp
qed simp

lemma max_opt_None_iff: "max_opt xs = None \<longleftrightarrow> (\<forall>y. Some y \<notin> set xs)"
  by (induction xs rule: max_opt.induct) (auto split: option.splits)

lemma max_opt_Some:
  "max_opt xs = Some m \<longleftrightarrow> Some m \<in> set xs \<and> (\<forall>y. Some y \<in> set xs \<longrightarrow> y \<le> m)"
proof (induction xs arbitrary: m)
  case (Cons x xs)
  note none = max_opt_None_iff [of xs]
  show ?case
  proof (cases x)
    case None
    with Cons show ?thesis by auto
  next
    case (Some a)
    show ?thesis
    proof (cases "max_opt xs")
      case None
      with none Some show ?thesis by auto
    next
      case (Some b)
      with Cons [of b] have "Some b \<in> set xs" "\<forall>y. Some y \<in> set xs \<longrightarrow> y \<le> b" by auto
      with Some \<open>x = Some a\<close> show ?thesis
        by (auto simp: max_def intro: order.antisym) (metis order.trans)
    qed
  qed
qed simp

lemma select_transfers_no_group:
  "select_transfers a [] st d = filter (\<lambda>t. (a = [] \<or> tr_app_id t = a) \<and> (st = [] \<or> tr_status t = st)) (transfers d)"
  by (simp add: select_transfers_def)

lemma filter_key_le1: "distinct (map f xs) \<Longrightarrow> length (filter (\<lambda>x. f x = k \<and> P x) xs) \<le> 1"
  by (induction xs) (auto simp: filter_empty_conv image_iff)

text \<open>Since app ids are unique, the join adds no row twice: it is a filter.\<close>

lemma join_is_filter:
  assumes "distinct (map ar_id as)"
  shows "concat (map (\<lambda>t. map (\<lambda>a. t) (filter (\<lambda>a. ar_id a = tr_app_id t \<and> ar_group_id a = g) as)) ts) =
         filter (\<lambda>t. \<exists>a \<in> set as. ar_id a = tr_app_id t \<and> ar_group_id a = g) ts"
proof (induction ts)
  case (Cons t ts)
  let ?m = "filter (\<lambda>a. ar_id a = tr_app_id t \<and> ar_group_id a = g) as"
  have le: "length ?m \<le> 1" by (rule filter_key_le1 [OF assms])
  show ?case
  proof (cases "\<exists>a \<in> set as. ar_id a = tr_app_id t \<and> ar_group_id a = g")
    case True
    then have "?m \<noteq> []" by (auto simp: filter_empty_conv)
    with le have "map (\<lambda>a. t) ?m = [t]" by (cases ?m) auto
    with True Cons show ?thesis by simp
  next
    case False
    then have "?m = []" by (auto simp: filter_empty_conv)
    with False Cons show ?thesis by auto
  qed
qed simp

lemma select_transfers_filter:
  assumes "db_ok d"
  shows "select_transfers a g st d =
     filter (\<lambda>t. (a = [] \<or> tr_app_id t = a) \<and> (st = [] \<or> tr_status t = st) \<and>
       (g = [] \<or> (\<exists>x \<in> set (apps d). ar_id x = tr_app_id t \<and> ar_group_id x = g))) (transfers d)"
  using assms join_is_filter [of "apps d" g "transfers d"]
  by (auto simp: select_transfers_def db_ok_def conj_commute intro: filter_cong)

lemma sorted_wrt_sublist: "sorted_wrt R xs \<Longrightarrow> sorted_wrt R (take n (drop m xs))"
  by (simp add: sorted_wrt_take sorted_wrt_drop)

lemma pages_append:
  "concat (map (\<lambda>i. take L (drop (i * L) xs)) [0..<n]) = take (n * L) xs"
proof (induction n)
  case (Suc n)
  have "take (Suc n * L) xs = take (n * L + L) xs" by (simp add: add.commute)
  also have "\<dots> = take (n * L) xs @ take L (drop (n * L) xs)" by (rule take_add)
  finally show ?case using Suc by simp
qed simp

lemma orders_descD:
  assumes "orders_desc arrange"
  shows "mset (arrange xs) = mset xs" "sorted_wrt (\<lambda>a b. tr_created_at b \<le> tr_created_at a) (arrange xs)"
    "length (arrange xs) = length xs" "set (arrange xs) = set xs"
proof -
  show m: "mset (arrange xs) = mset xs"
    and "sorted_wrt (\<lambda>a b. tr_created_at b \<le> tr_created_at a) (arrange xs)"
    using assms by (auto simp: orders_desc_def)
  show "length (arrange xs) = length xs" "set (arrange xs) = set xs"
    using m by (metis size_mset, metis set_mset_mset)
qed

lemma created_order:
  assumes "orders_desc arrange"
  shows "map tr_created_at (arrange xs) = rev (sort (map tr_created_at xs))"
proof -
  note ord = orders_descD [OF assms, of xs]
  have "mset (rev (map tr_created_at (arrange xs))) = mset (map tr_created_at xs)" using ord(1) by simp
  moreover have "sorted (rev (map tr_created_at (arrange xs)))"
    using ord(2) by (simp add: sorted_wrt_rev sorted_wrt_map)
  ultimately have "sort (map tr_created_at xs) = rev (map tr_created_at (arrange xs))" by (rule properties_for_sort)
  then show ?thesis by simp
qed

lemma newest_first_orders: "orders_desc newest_first"
  unfolding orders_desc_def newest_first_def
proof (intro allI conjI)
  fix xs
  show "mset (rev (sort_key tr_created_at xs)) = mset xs" by simp
  have "sorted (map tr_created_at (sort_key tr_created_at xs))" by simp
  then show "sorted_wrt (\<lambda>a b. tr_created_at b \<le> tr_created_at a) (rev (sort_key tr_created_at xs))"
    by (simp add: sorted_wrt_rev sorted_map)
qed

text \<open>
  Two transfers of the same second: when the engine orders them one way for the first page and the other way for the second,
  both pages show the same transfer and the other is never shown.
\<close>

lemma ListTransfers_ties:
  assumes "select_transfers a g st d = [r, r']" "tr_created_at r = tr_created_at r'"
  shows "\<exists>arr0 arr1. orders_desc arr0 \<and> orders_desc arr1 \<and>
     ListTransfers arr0 None None \<lparr>lo_app_id = a, lo_group_id = g, lo_status = st, lo_limit = 1, lo_offset = 0\<rparr> d = Inr ([scanTransfer r], 2) \<and>
     ListTransfers arr1 None None \<lparr>lo_app_id = a, lo_group_id = g, lo_status = st, lo_limit = 1, lo_offset = 1\<rparr> d = Inr ([scanTransfer r], 2)"
proof -
  let ?arr = "\<lambda>ys xs. if xs = [r, r'] then ys else newest_first xs"
  have "orders_desc (?arr ys)" if "ys = [r, r'] \<or> ys = [r', r]" for ys
    using newest_first_orders that assms(2) by (auto simp: orders_desc_def)
  with assms(1) show ?thesis
    by (intro exI [of _ "?arr [r, r']"] exI [of _ "?arr [r', r]"]) (simp add: ListTransfers_def clamp_limit_def)
qed

lemma sample_db_ok: "db_ok sample_db"
  by (simp add: db_ok_def sample_db_def refs_def sample_app_def sample_group_def sample_transfer_def
      group_to_row_def)

lemmas sample_defs [sample] = sample_db_def sample_app_def sample_group_def sample_transfer_def sample_mc_def

lemma GetStats_sums:
  assumes "db_ok d" and "\<forall>r \<in> set (transfers d). tr_status r \<in> valid_statuses"
    and "GetStats None a g d = Inr st"
    and "opts = \<lparr>lo_app_id = a, lo_group_id = g, lo_status = [], lo_limit = 0, lo_offset = 0\<rparr>"
  shows "ts_total st = ts_success st + ts_failed st + ts_in_progress st + ts_pending st + ts_retrying st \<and>
         ts_total st = int (length (filter (lo_matches opts d) (transfers d))) \<and>
         ts_total_bytes st = sum_list (map tr_bytes_transferred (filter (lo_matches opts d) (transfers d))) \<and>
         (\<forall>r \<in> set (filter (lo_matches opts d) (transfers d)). \<forall>c. tr_completed_at r = Some c \<longrightarrow>
            (\<exists>l. ts_last_transfer_at st = Some l \<and> of_unix c \<le> l))"
proof -
  let ?rs = "filter (lo_matches opts d) (transfers d)"
  have rs: "select_transfers a g [] d = ?rs"
    unfolding select_transfers_filter [OF assms(1)] by (rule filter_cong) (auto simp: lo_matches_def assms(4))
  obtain tb where tb: "sum_int64 0 (map tr_bytes_transferred ?rs) = Some tb"
    using assms(3) by (auto simp: GetStats_def Let_def rs split: option.splits)
  have st: "ts_total st = int (length ?rs)" "ts_success st = count_status ''success'' ?rs"
    "ts_failed st = count_status ''failed'' ?rs" "ts_in_progress st = count_status ''in_progress'' ?rs"
    "ts_pending st = count_status ''pending'' ?rs" "ts_retrying st = count_status ''retrying'' ?rs"
    "ts_total_bytes st = tb" "ts_last_transfer_at st = map_option of_unix (max_opt (map tr_completed_at ?rs))"
    using assms(3) tb by (auto simp: GetStats_def Let_def rs)
  have "(\<Sum>k \<leftarrow> [''success'', ''failed'', ''in_progress'', ''pending'', ''retrying'']. count_status k ?rs) = int (length ?rs)"
    unfolding count_status_def using assms(2)
    by (intro length_filter_partition) (auto simp: valid_statuses_def)
  then have sum: "ts_total st = ts_success st + ts_failed st + ts_in_progress st + ts_pending st + ts_retrying st"
    by (simp add: st)
  have last: "\<exists>l. ts_last_transfer_at st = Some l \<and> of_unix c \<le> l"
    if "r \<in> set ?rs" "tr_completed_at r = Some c" for r c
  proof -
    have mem: "Some c \<in> set (map tr_completed_at ?rs)" using that by (metis image_eqI list.set_map)
    then obtain m where m: "max_opt (map tr_completed_at ?rs) = Some m"
      using max_opt_None_iff [of "map tr_completed_at ?rs"] by blast
    with mem have "c \<le> m" using max_opt_Some [of "map tr_completed_at ?rs" m] by blast
    with m show ?thesis by (simp add: st of_unix_def)
  qed
  have "ts_total_bytes st = sum_list (map tr_bytes_transferred ?rs)"
    using sum_int64_Some [OF tb] st by simp
  with sum st last show ?thesis by blast
qed

section \<open>Properties\<close>

text \<open>
  C19: in every state the store can reach by its operations, whatever fails, the tables satisfy the
  schema's constraints: ids are unique, group names are unique, app names are unique in their
  group, every app's group and every transfer's app exist.
\<close>

theorem store_reachable_ok:
  "reach (\<lambda>d. d = empty_db) store_step d \<Longrightarrow> db_ok d"
  by (rule store_sys.reach_inv)

theorem store_reachable_ok_witness: "db_ok sample_db"
proof (rule store_reachable_ok)
  let ?d1 = "\<lparr>groups = [group_to_row sample_group], apps = [], transfers = []\<rparr>"
  let ?d2 = "?d1\<lparr>apps := [app_to_row sample_app]\<rparr>"
  have "reach (\<lambda>d. d = empty_db) store_step empty_db" by (rule reach_init) simp
  then have "reach (\<lambda>d. d = empty_db) store_step ?d1"
    by (rule reach_step) (rule create_group [of None sample_group], simp add: CreateGroup_def empty_db_def)
  then have "reach (\<lambda>d. d = empty_db) store_step ?d2"
    by (rule reach_step) (rule create_app [of None sample_app], simp add: CreateApp_def sample_defs group_to_row_def)
  then show "reach (\<lambda>d. d = empty_db) store_step sample_db"
    by (rule reach_step)
      (rule create_transfer [of None sample_transfer], simp add: CreateTransfer_def sample_db_def, simp add: sample_defs)
qed

text \<open>
  C20: what was written is what is read back, up to the whole seconds the columns keep: a created
  group, app or transfer is found under its id with all its fields, and every other id still
  answers as before.
\<close>

theorem store_read_back:
  assumes "CreateGroup f1 g d = Inr d1" and "CreateApp f2 a d = Inr d2" and "CreateTransfer f3 t d = Inr d3"
  shows "GetGroup None i d1 = (if i = g_id g then Inr (Some (trunc_group g)) else GetGroup None i d) \<and>
         GetApp None i d2 = (if i = a_id a then Inr (Some (trunc_app a)) else GetApp None i d) \<and>
         GetTransfer None i d3 = (if i = t_id t then Inr (Some (trunc_transfer t)) else GetTransfer None i d)"
  using CreateGroup_find [OF assms(1), of i] CreateApp_find [OF assms(2), of i] CreateTransfer_find [OF assms(3)]
  by (simp add: GetGroup_def GetApp_def GetTransfer_def scanGroup_row scanApp_row scanTransfer_row)

theorem store_read_back_witness:
  "\<exists>d1 d2 d3. GetGroup None ''g2'' d1 = Inr (Some (trunc_group (sample_group\<lparr>g_id := ''g2'', g_name := ''dev''\<rparr>))) \<and>
     GetApp None ''a2'' d2 = Inr (Some (trunc_app (sample_app\<lparr>a_id := ''a2'', a_name := ''mirror''\<rparr>))) \<and>
     GetTransfer None ''t2'' d3 = Inr (Some (trunc_transfer (sample_transfer\<lparr>t_id := ''t2''\<rparr>)))"
proof -
  let ?g = "sample_group\<lparr>g_id := ''g2'', g_name := ''dev''\<rparr>"
  let ?a = "sample_app\<lparr>a_id := ''a2'', a_name := ''mirror''\<rparr>"
  let ?t = "sample_transfer\<lparr>t_id := ''t2''\<rparr>"
  obtain d1 where d1: "CreateGroup None ?g sample_db = Inr d1"
    by (simp add: CreateGroup_def sample_defs group_to_row_def)
  obtain d2 where d2: "CreateApp None ?a sample_db = Inr d2"
    by (simp add: CreateApp_def sample_defs group_to_row_def)
  obtain d3 where d3: "CreateTransfer None ?t sample_db = Inr d3"
    by (simp add: CreateTransfer_def sample_defs)
  show ?thesis
    using store_read_back [OF d1 d2 d3, of "''g2''"] store_read_back [OF d1 d2 d3, of "''a2''"]
      store_read_back [OF d1 d2 d3, of "''t2''"]
    by (intro exI [of _ d1] exI [of _ d2] exI [of _ d3]) (simp add: sample_defs)
qed

text \<open>
  the hot-path lookup \<open>GetAppByRoute\<close> answers an app exactly when that app has the asked name
  and its group has the asked name, and there is at most one such app.
\<close>

theorem GetAppByRoute_spec:
  assumes "db_ok d"
  shows "(GetAppByRoute None gs as d = Inr (Some a)) =
           (\<exists>r \<in> set (apps d). \<exists>g \<in> set (groups d). gr_id g = ar_group_id r \<and> gr_name g = gs \<and>
              ar_name r = as \<and> a = scanApp r) \<and>
         card {r \<in> set (apps d). ar_name r = as \<and> (\<exists>g \<in> set (groups d). gr_id g = ar_group_id r \<and> gr_name g = gs)} \<le> 1"
proof (intro conjI)
  show "(GetAppByRoute None gs as d = Inr (Some a)) =
           (\<exists>r \<in> set (apps d). \<exists>g \<in> set (groups d). gr_id g = ar_group_id r \<and> gr_name g = gs \<and>
              ar_name r = as \<and> a = scanApp r)"
    by (auto simp: GetAppByRoute_def find_route [OF assms])
  have "\<exists>r. {r \<in> set (apps d). ar_name r = as \<and> (\<exists>g \<in> set (groups d). gr_id g = ar_group_id r \<and> gr_name g = gs)} \<subseteq> {r}"
    using route_unique [OF assms] by (auto simp: subset_iff) metis
  then obtain r where "{r \<in> set (apps d). ar_name r = as \<and> (\<exists>g \<in> set (groups d). gr_id g = ar_group_id r \<and> gr_name g = gs)} \<subseteq> {r}"
    by blast
  from card_mono [OF _ this]
  show "card {r \<in> set (apps d). ar_name r = as \<and> (\<exists>g \<in> set (groups d). gr_id g = ar_group_id r \<and> gr_name g = gs)} \<le> 1"
    by simp
qed

theorem GetAppByRoute_spec_witness:
  "GetAppByRoute None ''prod'' ''backup'' sample_db = Inr (Some (scanApp (app_to_row sample_app)))"
proof -
  have "\<exists>r \<in> set (apps sample_db). \<exists>g \<in> set (groups sample_db). gr_id g = ar_group_id r \<and> gr_name g = ''prod'' \<and>
      ar_name r = ''backup'' \<and> scanApp (app_to_row sample_app) = scanApp r"
    by (simp add: sample_defs group_to_row_def)
  then show ?thesis using GetAppByRoute_spec [OF sample_db_ok] by blast
qed

text \<open>
  C30: an app with any transfer in its history, finished or not, cannot be deleted, nor can its
  group: the foreign key of the transfers rejects both statements. The sentinel error
  \<open>ErrHasActiveTransfers\<close> that the API tests for is never returned by the store.
\<close>

theorem delete_blocked_by_history:
  assumes "db_ok d" and "a \<in> set (apps d)" and "t \<in> set (transfers d)" and "tr_app_id t = ar_id a"
  shows "DeleteApp None (ar_id a) d = Inl ErrForeignKey \<and>
         DeleteGroup None (ar_group_id a) d = Inl ErrForeignKey \<and>
         DeleteApp fault i e \<noteq> Inl ErrHasActiveTransfers \<and> DeleteGroup fault i e \<noteq> Inl ErrHasActiveTransfers"
proof (intro conjI)
  show "DeleteApp None (ar_id a) d = Inl ErrForeignKey"
    using assms by (auto simp: DeleteApp_def list_ex_iff)
  have "list_ex (\<lambda>r. gr_id r = ar_group_id a) (groups d)"
    using assms by (auto simp: db_ok_def refs_def list_ex_key)
  then show "DeleteGroup None (ar_group_id a) d = Inl ErrForeignKey"
    using assms(2,3,4) by (simp add: DeleteGroup_def list_ex_iff) (metis assms(4))
  show "DeleteApp fault i e \<noteq> Inl ErrHasActiveTransfers" "DeleteGroup fault i e \<noteq> Inl ErrHasActiveTransfers"
    by (auto simp: DeleteApp_def DeleteGroup_def with_fault_def split: option.splits)
qed

theorem delete_blocked_by_history_witness:
  "tr_status (transfer_to_row sample_transfer) = ''success'' \<and>
   DeleteApp None ''a1'' sample_db = Inl ErrForeignKey \<and> DeleteGroup None ''g1'' sample_db = Inl ErrForeignKey"
  using delete_blocked_by_history [OF sample_db_ok, of "app_to_row sample_app" "transfer_to_row sample_transfer"]
  by (simp add: sample_defs)

text \<open>
  C29: paging a listing. Every page of \<open>ListTransfers\<close> holds at most L transfers (the limit, clamped to 500), only
  transfers that match the filters, newest first; the total counts all matching rows; and whatever order the engine gives to
  transfers of the same second, which may differ from query to query, the pages at offsets 0, L, 2L, ... of an unchanged
  table together have as many entries as rows match, with exactly their creation times from the newest to the oldest. They are
  exactly the matching transfers when no two of these were created in the same second (otherwise one can be
  repeated and another left out, \<open>ListTransfers_ties\<close>).
\<close>

theorem ListTransfers_pages:
  assumes "db_ok d" and "\<And>i. orders_desc (arr i)" and "L = clamp_limit (lo_limit opts)"
    and "all = filter (lo_matches opts d) (transfers d)" and "length all \<le> n * nat L"
  shows "\<exists>pages. (\<forall>i. ListTransfers (arr i) None None (opts\<lparr>lo_offset := int i * L\<rparr>) d =
              Inr (map scanTransfer (pages i), int (length all)) \<and>
              length (pages i) \<le> nat L \<and> L \<le> 500 \<and> set (pages i) \<subseteq> set all \<and>
              sorted_wrt (\<lambda>a b. tr_created_at b \<le> tr_created_at a) (pages i)) \<and>
           map tr_created_at (concat (map pages [0..<n])) = rev (sort (map tr_created_at all)) \<and>
           (distinct (map tr_created_at all) \<longrightarrow> mset (concat (map pages [0..<n])) = mset all)"
proof -
  let ?sel = "select_transfers (lo_app_id opts) (lo_group_id opts) (lo_status opts) d"
  have sel: "?sel = all"
    unfolding assms(4) select_transfers_filter [OF assms(1)] by (rule filter_cong) (auto simp: lo_matches_def)
  note ord = orders_descD [OF assms(2)]
  define pages where "pages i = take (nat L) (drop (i * nat L) (arr i all))" for i :: nat
  have L: "1 \<le> L" "L \<le> 500" using assms(3) clamp_limit_bounds by auto
  have "ListTransfers (arr i) None None (opts\<lparr>lo_offset := int i * L\<rparr>) d = Inr (map scanTransfer (pages i), int (length all))" for i
    using L by (simp add: ListTransfers_def Let_def pages_def assms(3) nat_mult_distrib sel)
  note page = this
  have sub: "set (pages i) \<subseteq> set all" for i
    using ord(4) [of i all] set_take_subset [of "nat L"] set_drop_subset [of "i * nat L" "arr i all"] unfolding pages_def by fastforce
  have srt: "sorted_wrt (\<lambda>a b. tr_created_at b \<le> tr_created_at a) (pages i)" for i
    unfolding pages_def using ord(2) by (rule sorted_wrt_sublist)
  have times: "map tr_created_at (arr i all) = rev (sort (map tr_created_at all))" for i
    by (rule created_order) (rule assms(2))
  have "map tr_created_at (pages i) = take (nat L) (drop (i * nat L) (rev (sort (map tr_created_at all))))" for i
    unfolding pages_def by (simp add: times flip: take_map drop_map)
  then have "map tr_created_at (concat (map pages [0..<n])) = concat (map (\<lambda>i. take (nat L) (drop (i * nat L) (rev (sort (map tr_created_at all))))) [0..<n])"
    by (simp add: map_concat comp_def)
  also have "\<dots> = take (n * nat L) (rev (sort (map tr_created_at all)))" by (rule pages_append)
  also have "\<dots> = rev (sort (map tr_created_at all))" using assms(5) by simp
  finally have keys: "map tr_created_at (concat (map pages [0..<n])) = rev (sort (map tr_created_at all))" .
  have "mset (concat (map pages [0..<n])) = mset all" if "distinct (map tr_created_at all)"
  proof -
    from that have inj: "inj_on tr_created_at (set all)" by (simp add: distinct_map)
    have "arr i all = arr 0 all" for i
      using times [of i] times [of 0] inj ord(4) by (intro map_inj_on [where f = tr_created_at]) simp_all
    then have "concat (map pages [0..<n]) = concat (map (\<lambda>i. take (nat L) (drop (i * nat L) (arr 0 all))) [0..<n])"
      unfolding pages_def by metis
    also have "\<dots> = take (n * nat L) (arr 0 all)" by (rule pages_append)
    finally show ?thesis using assms(5) ord(1,3) by simp
  qed
  moreover have "length (pages i) \<le> nat L" for i by (simp add: pages_def)
  ultimately show ?thesis using L page sub srt keys by (intro exI [of _ pages] conjI allI impI) simp_all
qed

theorem ListTransfers_pages_witness:
  "\<exists>pages. ListTransfers newest_first None None
       \<lparr>lo_app_id = [], lo_group_id = ''g1'', lo_status = [], lo_limit = 0, lo_offset = 0\<rparr> sample_db =
       Inr (map scanTransfer (pages (0 :: nat)), 1) \<and> mset (pages 0) = {# transfer_to_row sample_transfer #}"
proof -
  let ?o = "\<lparr>lo_app_id = [], lo_group_id = ''g1'', lo_status = [], lo_limit = 0, lo_offset = 0\<rparr>"
  have m: "[transfer_to_row sample_transfer] = filter (lo_matches ?o sample_db) (transfers sample_db)"
    by (simp add: lo_matches_def sample_defs)
  obtain pages where "\<forall>i. ListTransfers newest_first None None (?o\<lparr>lo_offset := int i * 50\<rparr>) sample_db =
        Inr (map scanTransfer (pages i), int (length [transfer_to_row sample_transfer]))"
    and "mset (concat (map pages [0..<1])) = mset [transfer_to_row sample_transfer]"
    using ListTransfers_pages [OF sample_db_ok newest_first_orders refl m, of 1] by (auto simp: clamp_limit_def)
  then show ?thesis by (intro exI [of _ pages]) (auto dest: spec [of _ 0])
qed

text \<open>
  the statistics add up: when every row has one of the five statuses, the five counters sum to
  the total, which is the number of transfers the filters select; the bytes are the sum over those
  rows, and the last transfer is the latest completion.
\<close>

theorem GetStats_adds_up:
  assumes "db_ok d" and "\<forall>r \<in> set (transfers d). tr_status r \<in> valid_statuses"
    and "GetStats None a g d = Inr st"
    and "opts = \<lparr>lo_app_id = a, lo_group_id = g, lo_status = [], lo_limit = 0, lo_offset = 0\<rparr>"
  shows "ts_total st = ts_success st + ts_failed st + ts_in_progress st + ts_pending st + ts_retrying st \<and>
         ts_total st = int (length (filter (lo_matches opts d) (transfers d))) \<and>
         ts_total_bytes st = sum_list (map tr_bytes_transferred (filter (lo_matches opts d) (transfers d))) \<and>
         (\<forall>r \<in> set (filter (lo_matches opts d) (transfers d)). \<forall>c. tr_completed_at r = Some c \<longrightarrow>
            (\<exists>l. ts_last_transfer_at st = Some l \<and> of_unix c \<le> l))"
  by (rule GetStats_sums [OF assms])

theorem GetStats_adds_up_witness:
  "\<exists>st. GetStats None [] ''g1'' sample_db = Inr st \<and> ts_total st = 1 \<and> ts_success st = 1 \<and>
     ts_total st = ts_success st + ts_failed st + ts_in_progress st + ts_pending st + ts_retrying st"
proof -
  have v: "\<forall>r \<in> set (transfers sample_db). tr_status r \<in> valid_statuses"
    by (simp add: sample_defs valid_statuses_def)
  obtain st where st: "GetStats None [] ''g1'' sample_db = Inr st" "ts_total st = 1" "ts_success st = 1"
    by (simp add: GetStats_def select_transfers_def sample_defs transfer_to_row_def app_to_row_def count_status_def
        int64)
  from GetStats_adds_up [OF sample_db_ok v st(1) refl] st show ?thesis by blast
qed

end
