(* ===== verification/FG_Minio.thy ===== *)
theory FG_Minio
  imports FG_Group
begin

text \<open>
  \<open>internal/storage/minio.go\<close>: the object storage client with its cache of \<open>minio.Client\<close>
  values in a \<open>sync.Map\<close>.

  The MinIO library is not code of the repository: it is a parameter \<open>M\<close> of type \<open>minio_lib\<close>
  whose fields are the calls the code makes. \<open>'c\<close> is the type of its clients, \<open>'o\<close> the type of
  its object handles and \<open>'w\<close> the state of the servers, which only \<open>PutObject\<close> changes here.
\<close>

section \<open>The library\<close>

text \<open>\<open>minio.Options\<close>, with the credentials and whether the TLS check is disabled.\<close>

record minio_options =
  opt_access_key :: string
  opt_secret_key :: string
  opt_secure :: bool
  opt_region :: string
  opt_insecure_skip_verify :: bool

record ('c, 'o, 'w) minio_lib =
  ml_New :: "string \<Rightarrow> minio_options \<Rightarrow> 'c res"
  ml_GetObject :: "'c \<Rightarrow> string \<Rightarrow> string \<Rightarrow> 'w \<Rightarrow> 'o res"
  ml_Stat :: "'o \<Rightarrow> 'w \<Rightarrow> int res"
  ml_PutObject :: "'c \<Rightarrow> string \<Rightarrow> string \<Rightarrow> 'o \<Rightarrow> int \<Rightarrow> 'w \<Rightarrow> go_error option \<times> 'w"
  ml_BucketExists :: "'c \<Rightarrow> string \<Rightarrow> 'w \<Rightarrow> bool res"

text \<open>
  The library as it answers calls with a cancelled context: \<open>GetObject\<close> only prepares a handle and may succeed, but
  reading its size is a request, and that fails.
\<close>

definition cancelled :: "('c, 'o, 'w) minio_lib \<Rightarrow> bool" where
  "cancelled M \<longleftrightarrow> (\<forall>c b k w obj. ml_GetObject M c b k w = Inr obj \<longrightarrow> (\<exists>e. ml_Stat M obj w = Inl e))"

type_synonym 'c clients = "string \<rightharpoonup> 'c"

section \<open>Operations\<close>

definition NewMinIOClient :: "'c clients" where
  "NewMinIOClient = Map.empty"

definition cacheKey :: "minio_config \<Rightarrow> string" where
  "cacheKey cfg =
     (let skipTLS = (if mc_skip_tls_verify cfg then ''1'' else ''0'')
      in mc_endpoint cfg @ ''|'' @ mc_access_key cfg @ ''|'' @ skipTLS)"

definition options_of :: "minio_config \<Rightarrow> minio_options" where
  "options_of cfg =
     \<lparr>opt_access_key = mc_access_key cfg, opt_secret_key = mc_secret_key cfg, opt_secure = mc_use_ssl cfg,
      opt_region = mc_region cfg, opt_insecure_skip_verify = mc_skip_tls_verify cfg\<rparr>"

text \<open>
  \<open>clientFor\<close>: other goroutines may add clients between the \<open>Load\<close> and the \<open>LoadOrStore\<close>;
  \<open>others\<close> is what they do to the map in that window.
\<close>

definition clientFor ::
  "('c, 'o, 'w) minio_lib \<Rightarrow> ('c clients \<Rightarrow> 'c clients) \<Rightarrow> minio_config \<Rightarrow> 'c clients \<Rightarrow> 'c res \<times> 'c clients"
  where
  "clientFor M others cfg m =
     (let k = cacheKey cfg in
      case m k of
        Some v \<Rightarrow> (Inr v, m)
      | None \<Rightarrow>
          (case ml_New M (mc_endpoint cfg) (options_of cfg) of
             Inl err \<Rightarrow> (Inl (Wrap (''minio client for '' @ go_quote (mc_endpoint cfg)) err), others m)
           | Inr client \<Rightarrow>
               (let m' = others m in
                case m' k of
                  Some actual \<Rightarrow> (Inr actual, m')
                | None \<Rightarrow> (Inr client, m'(k \<mapsto> client)))))"

definition GetObject ::
  "('c, 'o, 'w) minio_lib \<Rightarrow> ('c clients \<Rightarrow> 'c clients) \<Rightarrow> minio_config \<Rightarrow> string \<Rightarrow> 'w \<Rightarrow> 'c clients \<Rightarrow>
   ('o \<times> int) res \<times> 'c clients" where
  "GetObject M others cfg key w m =
     (case clientFor M others cfg m of
        (Inl err, m') \<Rightarrow> (Inl err, m')
      | (Inr client, m') \<Rightarrow>
          ((case ml_GetObject M client (mc_bucket cfg) key w of
              Inl err \<Rightarrow> Inl (Wrap (''GetObject '' @ go_quote key) err)
            | Inr obj \<Rightarrow>
                (case ml_Stat M obj w of
                   Inl err \<Rightarrow> Inl (Wrap (''stat '' @ go_quote key) err)
                 | Inr n \<Rightarrow> Inr (obj, n))), m'))"

definition PutObject ::
  "('c, 'o, 'w) minio_lib \<Rightarrow> ('c clients \<Rightarrow> 'c clients) \<Rightarrow> minio_config \<Rightarrow> string \<Rightarrow> 'o \<Rightarrow> int \<Rightarrow> 'w \<Rightarrow> 'c clients \<Rightarrow>
   go_error option \<times> 'w \<times> 'c clients" where
  "PutObject M others cfg key r n w m =
     (case clientFor M others cfg m of
        (Inl err, m') \<Rightarrow> (Some err, w, m')
      | (Inr client, m') \<Rightarrow>
          (case ml_PutObject M client (mc_bucket cfg) key r n w of
             (Some err, w') \<Rightarrow> (Some (Wrap (''PutObject '' @ go_quote key) err), w', m')
           | (None, w') \<Rightarrow> (None, w', m')))"

definition BucketExists ::
  "('c, 'o, 'w) minio_lib \<Rightarrow> ('c clients \<Rightarrow> 'c clients) \<Rightarrow> minio_config \<Rightarrow> 'w \<Rightarrow> 'c clients \<Rightarrow>
   bool res \<times> 'c clients" where
  "BucketExists M others cfg w m =
     (case clientFor M others cfg m of
        (Inl err, m') \<Rightarrow> (Inl err, m')
      | (Inr client, m') \<Rightarrow>
          ((case ml_BucketExists M client (mc_bucket cfg) w of
              Inl err \<Rightarrow> Inl (Wrap (''BucketExists '' @ go_quote (mc_bucket cfg)) err)
            | Inr exists \<Rightarrow> Inr exists), m'))"

section \<open>The cache invariant\<close>

text \<open>Every cached client was built from a configuration with the key it is stored under.\<close>

definition clients_ok :: "('c, 'o, 'w) minio_lib \<Rightarrow> 'c clients \<Rightarrow> bool" where
  "clients_ok M m \<longleftrightarrow>
     (\<forall>k c. m k = Some c \<longrightarrow>
        (\<exists>cfg. cacheKey cfg = k \<and> ml_New M (mc_endpoint cfg) (options_of cfg) = Inr c))"

text \<open>One goroutine's effect on the map: it only adds, and it keeps the invariant.\<close>

definition grows :: "('c, 'o, 'w) minio_lib \<Rightarrow> ('c clients \<Rightarrow> 'c clients) \<Rightarrow> bool" where
  "grows M f \<longleftrightarrow> (\<forall>m. m \<subseteq>\<^sub>m f m \<and> (clients_ok M m \<longrightarrow> clients_ok M (f m)))"

section \<open>A concrete object store\<close>

text \<open>
  Servers as a list of stored objects, a client is its endpoint with its options, and \<open>New\<close>
  refuses an empty endpoint as the library does.
\<close>

type_synonym sample_client = "string \<times> minio_options"
type_synonym sample_world = "((string \<times> string \<times> string) \<times> bytes) list"

definition sample_lib :: "(sample_client, bytes, sample_world) minio_lib" where
  "sample_lib =
     \<lparr>ml_New = (\<lambda>ep opts. if ep = [] then Inl (Err ''Endpoint:  does not follow ip address or domain name standards.'')
                        else Inr (ep, opts)),
      ml_GetObject = (\<lambda>c b k w. case map_of w (fst c, b, k) of
                        None \<Rightarrow> Inl (Err ''The specified key does not exist.'') | Some o' \<Rightarrow> Inr o'),
      ml_Stat = (\<lambda>ob w. Inr (int (length ob))),
      ml_PutObject = (\<lambda>c b k ob n w. (None, ((fst c, b, k), ob) # w)),
      ml_BucketExists = (\<lambda>c b w. Inr (\<exists>e \<in> set w. fst (fst e) = fst c \<and> fst (snd (fst e)) = b))\<rparr>"

definition cancelled_lib :: "(sample_client, bytes, sample_world) minio_lib" where
  "cancelled_lib =
     sample_lib\<lparr>ml_Stat := (\<lambda>ob w. Inl (Err ''context canceled'')),
                ml_PutObject := (\<lambda>c b k ob n w. (Some (Err ''context canceled''), w)),
                ml_BucketExists := (\<lambda>c b w. Inl (Err ''context canceled''))\<rparr>"

lemma cancelled_lib: "cancelled cancelled_lib"
  by (simp add: cancelled_def cancelled_lib_def)

definition sample_cfg :: "string \<Rightarrow> minio_config" where
  "sample_cfg secret =
     \<lparr>mc_endpoint = ''minio:9000'', mc_access_key = ''ak'', mc_secret_key = secret, mc_bucket = ''in'',
      mc_region = ''us-east-1'', mc_use_ssl = False, mc_skip_tls_verify = False\<rparr>"

section \<open>Lemmas\<close>

lemma append_sep_eq:
  "x \<notin> set a \<Longrightarrow> x \<notin> set b \<Longrightarrow> a @ x # r = b @ x # s \<longleftrightarrow> a = b \<and> r = s"
  by (auto simp: append_eq_append_conv2 Cons_eq_append_conv append_eq_Cons_conv)

lemma cacheKey_eq_iff:
  assumes "CHR ''|'' \<notin> set (mc_endpoint a)" "CHR ''|'' \<notin> set (mc_endpoint b)"
  shows "cacheKey a = cacheKey b \<longleftrightarrow>
     mc_endpoint a = mc_endpoint b \<and> mc_access_key a = mc_access_key b \<and>
     mc_skip_tls_verify a = mc_skip_tls_verify b"
  using assms by (auto simp: cacheKey_def append_sep_eq)

lemma GetObject_cancelled:
  "cancelled M \<Longrightarrow> \<exists>e cs. GetObject M others cfg key w m = (Inl e, cs)"
  by (auto simp: GetObject_def cancelled_def split: prod.splits sum.splits) (metis sum.simps(4))+

lemma clients_ok_upd:
  "clients_ok M m \<Longrightarrow> ml_New M (mc_endpoint cfg) (options_of cfg) = Inr c \<Longrightarrow> clients_ok M (m(cacheKey cfg \<mapsto> c))"
  by (auto simp: clients_ok_def)

lemma clientFor_cases:
  "clientFor M others cfg m = (r, m') \<Longrightarrow>
     (m (cacheKey cfg) = None \<and> (\<exists>e. r = Inl e) \<and> m' = others m) \<or>
     (m (cacheKey cfg) \<noteq> None \<and> m' = m \<and> (\<exists>c. r = Inr c \<and> m' (cacheKey cfg) = Some c)) \<or>
     (m (cacheKey cfg) = None \<and> (\<exists>c. r = Inr c \<and> m' (cacheKey cfg) = Some c \<and>
        (m' = others m \<or> others m (cacheKey cfg) = None \<and> m' = (others m)(cacheKey cfg \<mapsto> c) \<and>
           ml_New M (mc_endpoint cfg) (options_of cfg) = Inr c)))"
  by (auto simp: clientFor_def Let_def split: option.splits sum.splits)

lemma clientFor_grows:
  assumes "grows M others" "clientFor M others cfg m = (r, m')"
  shows "m \<subseteq>\<^sub>m m' \<and> (clients_ok M m \<longrightarrow> clients_ok M m')"
proof -
  from assms(1) have g: "m \<subseteq>\<^sub>m others m" "clients_ok M m \<longrightarrow> clients_ok M (others m)"
    by (auto simp: grows_def)
  have u: "m \<subseteq>\<^sub>m f(k \<mapsto> c)" if "f k = None" "m \<subseteq>\<^sub>m f" for f k c
    using that by (auto simp: map_le_def dom_def)
  from clientFor_cases [OF assms(2)] g show ?thesis
    by (elim disjE) (auto intro: u clients_ok_upd)
qed

lemma grows_id: "grows M (\<lambda>m. m)"
  by (simp add: grows_def)

text \<open>Another goroutine running \<open>clientFor\<close> to its end is such an effect.\<close>

lemma grows_clientFor: "grows M others \<Longrightarrow> grows M (\<lambda>m. snd (clientFor M others cfg m))"
  unfolding grows_def [of M "\<lambda>m. snd (clientFor M others cfg m)"]
  by (metis clientFor_grows prod.collapse)

section \<open>Properties\<close>

text \<open>
  C34: the client cache under interleaving. Whatever other goroutines add between \<open>Load\<close> and
  \<open>LoadOrStore\<close>, an entry is never replaced, the caller gets exactly the client that is in the
  map afterwards, and that client was built for a configuration with the same endpoint, access
  key and TLS verification as the requested one, when neither endpoint contains a vertical bar, which separates the parts of
  the cache's key. So the first stored client wins, not the last writer as the comment in \<open>clientFor\<close> says, and the two need
  not be equivalent: they can differ in secret key, region and protocol (\<open>clientFor_ignores_secret\<close>).
\<close>

theorem clientFor_shared:
  assumes "grows M others" "clients_ok M m" "clientFor M others cfg m = (Inr c, m')"
  shows "m \<subseteq>\<^sub>m m' \<and> clients_ok M m' \<and> m' (cacheKey cfg) = Some c \<and>
     (\<exists>cfg'. ml_New M (mc_endpoint cfg') (options_of cfg') = Inr c \<and> cacheKey cfg' = cacheKey cfg \<and>
        (CHR ''|'' \<notin> set (mc_endpoint cfg) \<longrightarrow> CHR ''|'' \<notin> set (mc_endpoint cfg') \<longrightarrow>
          mc_endpoint cfg' = mc_endpoint cfg \<and> mc_access_key cfg' = mc_access_key cfg \<and>
          mc_skip_tls_verify cfg' = mc_skip_tls_verify cfg))"
proof -
  from clientFor_grows [OF assms(1,3)] assms(2) have g: "m \<subseteq>\<^sub>m m'" "clients_ok M m'" by auto
  from clientFor_cases [OF assms(3)] have k: "m' (cacheKey cfg) = Some c" by auto
  with g(2) obtain cfg' where "cacheKey cfg' = cacheKey cfg" "ml_New M (mc_endpoint cfg') (options_of cfg') = Inr c"
    unfolding clients_ok_def by blast
  with g k cacheKey_eq_iff [of cfg' cfg] show ?thesis by blast
qed

theorem clientFor_shared_witness:
  "let others = (\<lambda>m. snd (clientFor sample_lib (\<lambda>m. m) (sample_cfg ''old'') m));
       m' = snd (clientFor sample_lib others (sample_cfg ''new'') NewMinIOClient)
   in clients_ok sample_lib m' \<and> m' (cacheKey (sample_cfg ''new'')) = Some (''minio:9000'', options_of (sample_cfg ''old''))"
proof -
  let ?o = "\<lambda>m. snd (clientFor sample_lib (\<lambda>m. m) (sample_cfg ''old'') m)"
  have ok: "clients_ok sample_lib NewMinIOClient" by (simp add: clients_ok_def NewMinIOClient_def)
  have run: "clientFor sample_lib ?o (sample_cfg ''new'') NewMinIOClient =
      (Inr (''minio:9000'', options_of (sample_cfg ''old'')), snd (clientFor sample_lib ?o (sample_cfg ''new'') NewMinIOClient))"
    by (simp add: clientFor_def sample_lib_def sample_cfg_def NewMinIOClient_def cacheKey_def Let_def)
  from clientFor_shared [OF grows_clientFor [OF grows_id] ok run] show ?thesis by (simp add: Let_def)
qed

text \<open>
  the cache ignores the secret key, the region and the protocol: after a client has been
  obtained for a configuration, a configuration that differs in exactly these gets the same
  client, without the library being asked, so rotated credentials do not take effect.
\<close>

theorem clientFor_ignores_secret:
  assumes "clientFor M others cfg m = (Inr c, m')"
  shows "clientFor M others' (cfg\<lparr>mc_secret_key := s, mc_bucket := b, mc_region := r, mc_use_ssl := u\<rparr>) m' = (Inr c, m')"
proof -
  from clientFor_cases [OF assms] have "m' (cacheKey cfg) = Some c" by auto
  moreover have "cacheKey (cfg\<lparr>mc_secret_key := s, mc_bucket := b, mc_region := r, mc_use_ssl := u\<rparr>) = cacheKey cfg"
    by (simp add: cacheKey_def)
  ultimately show ?thesis by (simp add: clientFor_def)
qed

theorem clientFor_ignores_secret_witness:
  "\<exists>m'. clientFor sample_lib (\<lambda>m. m) (sample_cfg ''old'') NewMinIOClient = (Inr (''minio:9000'', options_of (sample_cfg ''old'')), m') \<and>
        fst (clientFor sample_lib (\<lambda>m. m) (sample_cfg ''new'') m') = Inr (''minio:9000'', options_of (sample_cfg ''old''))"
proof -
  let ?m = "[cacheKey (sample_cfg ''old'') \<mapsto> (''minio:9000'', options_of (sample_cfg ''old''))]"
  have "clientFor sample_lib (\<lambda>m. m) (sample_cfg ''old'') NewMinIOClient = (Inr (''minio:9000'', options_of (sample_cfg ''old'')), ?m)"
    by (simp add: clientFor_def NewMinIOClient_def sample_lib_def sample_cfg_def)
  moreover from clientFor_ignores_secret [OF this, where others' = "\<lambda>m. m" and s = "''new''" and b = "''in''" and
      r = "''us-east-1''" and u = False]
  have "fst (clientFor sample_lib (\<lambda>m. m) (sample_cfg ''new'') ?m) = Inr (''minio:9000'', options_of (sample_cfg ''old''))"
    by (simp add: sample_cfg_def)
  ultimately show ?thesis by blast
qed

end
