(* ===== verification/FG_Hub.thy ===== *)
theory FG_Hub
  imports FG_Golib Complex_Main "HOL-Library.Sublist"
begin

text \<open>
  The package \<open>internal/hub\<close>: the messages (\<open>message.go\<close>), the hub with its single event loop
  (\<open>hub.go\<close>) and the read and write pumps of a WebSocket connection (\<open>client.go\<close>).

  A client object is known by a number, the hub's \<open>map[*Client]struct{}\<close> is a set of them and
  the objects are a heap. \<open>NewClient\<close>, the two pumps of every client, \<open>Run\<close> and any number of
  callers of \<open>Broadcast\<close> are goroutines; \<open>hub_step\<close> interleaves them. A send or a close on a
  closed channel is a panic, which ends the run (\<open>Inl\<close>). The unbuffered channels
  \<open>register\<close> and \<open>unregister\<close> are rendezvous: one step of the sender and of \<open>Run\<close> together.
  The connection itself is not code of the repository; its reads and writes may fail at any time.
\<close>

section \<open>Messages\<close>

datatype message_type =
    MsgTransferQueued | MsgTransferStarted | MsgTransferCompleted | MsgTransferFailed | MsgTransferRetrying
  | MsgStatsUpdate | MsgPing
  | MsgGroupCreated | MsgGroupUpdated | MsgGroupDeleted
  | MsgAppCreated | MsgAppUpdated | MsgAppDeleted

fun message_type_string :: "message_type \<Rightarrow> string" where
  "message_type_string MsgTransferQueued = ''transfer:queued''"
| "message_type_string MsgTransferStarted = ''transfer:started''"
| "message_type_string MsgTransferCompleted = ''transfer:completed''"
| "message_type_string MsgTransferFailed = ''transfer:failed''"
| "message_type_string MsgTransferRetrying = ''transfer:retrying''"
| "message_type_string MsgStatsUpdate = ''stats:update''"
| "message_type_string MsgPing = ''ping''"
| "message_type_string MsgGroupCreated = ''group:created''"
| "message_type_string MsgGroupUpdated = ''group:updated''"
| "message_type_string MsgGroupDeleted = ''group:deleted''"
| "message_type_string MsgAppCreated = ''app:created''"
| "message_type_string MsgAppUpdated = ''app:updated''"
| "message_type_string MsgAppDeleted = ''app:deleted''"

text \<open>The values a payload is made of, before they are printed as JSON.\<close>

datatype json =
    JNull
  | JBool bool
  | JInt int
  | JNum rat
  | JString string
  | JTime time
  | JList "json list"
  | JObject "(string \<times> json) list"

record message =
  msg_type :: message_type
  msg_timestamp :: time
  msg_payload :: json

section \<open>Clients and the hub\<close>

abbreviation sendBufSize :: nat where
  "sendBufSize \<equiv> 256"

text \<open>
  Where the read pump is: the client still waits in \<open>Register\<close>, it reads, it waits in
  \<open>Unregister\<close>, it has returned. The write pump has not started, runs, or has returned.
\<close>

datatype read_pc = RRegister | RReading | RUnregister | RDone
datatype write_pc = WIdle | WRunning | WDone

text \<open>
  The last three fields are history: what the write pump took from \<open>send\<close>, what it wrote to the
  connection, and how many messages the hub had fanned out when the client was registered.
\<close>

record client =
  c_send :: "message chan"
  c_conn_open :: bool
  c_read :: read_pc
  c_write :: write_pc
  c_taken :: "message list"
  c_wire :: "message list"
  c_base :: nat

text \<open>\<open>h_running\<close> is whether \<open>Run\<close> has returned; \<open>h_log\<close> is history, the messages fanned out so far.\<close>

record hub =
  h_clients :: "nat set"
  h_broadcast :: "message chan"
  h_heap :: "nat \<Rightarrow> client"
  h_next :: nat
  h_running :: bool
  h_log :: "message list"

definition fresh_client :: client where
  "fresh_client =
     \<lparr>c_send = make_chan sendBufSize, c_conn_open = True, c_read = RRegister, c_write = WIdle,
      c_taken = [], c_wire = [], c_base = 0\<rparr>"

definition NewHub :: hub where
  "NewHub =
     \<lparr>h_clients = {}, h_broadcast = make_chan 256, h_heap = (\<lambda>_. fresh_client), h_next = 0,
      h_running = True, h_log = []\<rparr>"

definition upd_client :: "nat \<Rightarrow> (client \<Rightarrow> client) \<Rightarrow> hub \<Rightarrow> hub" where
  "upd_client c f h = h\<lparr>h_heap := (h_heap h)(c := f (h_heap h c))\<rparr>"

text \<open>\<open>NewClient\<close> up to the blocking \<open>h.register <- c\<close>.\<close>

definition NewClient :: "hub \<Rightarrow> hub" where
  "NewClient h = (upd_client (h_next h) (\<lambda>_. fresh_client) h)\<lparr>h_next := h_next h + 1\<rparr>"

text \<open>
  The case \<open>c := <-h.register\<close>; the sender continues with \<open>go c.writePump()\<close> and
  \<open>go c.readPump()\<close>.
\<close>

definition run_register :: "nat \<Rightarrow> hub \<Rightarrow> hub" where
  "run_register c h =
     (upd_client c (\<lambda>cl. cl\<lparr>c_read := RReading, c_write := WRunning, c_base := length (h_log h)\<rparr>) h)
       \<lparr>h_clients := insert c (h_clients h)\<rparr>"

text \<open>\<open>delete(h.clients, c); close(c.send)\<close>\<close>

definition evict :: "nat \<Rightarrow> hub \<Rightarrow> panic + hub" where
  "evict c h =
     (case close_chan (c_send (h_heap h c)) of
        Inl p \<Rightarrow> Inl p
      | Inr ch \<Rightarrow> Inr ((upd_client c (\<lambda>cl. cl\<lparr>c_send := ch\<rparr>) h)\<lparr>h_clients := h_clients h - {c}\<rparr>))"

definition run_unregister :: "nat \<Rightarrow> hub \<Rightarrow> panic + hub" where
  "run_unregister c h = (if c \<in> h_clients h then evict c h else Inr h)"

definition deliver :: "message \<Rightarrow> nat \<Rightarrow> hub \<Rightarrow> panic + hub" where
  "deliver m c h =
     (case try_send (c_send (h_heap h c)) m of
        Inl p \<Rightarrow> Inl p
      | Inr (Some ch) \<Rightarrow> Inr (upd_client c (\<lambda>cl. cl\<lparr>c_send := ch\<rparr>) h)
      | Inr None \<Rightarrow> evict c h)"

text \<open>\<open>for c := range h.clients\<close>, the clients in the order in which the iteration meets them.\<close>

fun fan_out :: "message \<Rightarrow> nat list \<Rightarrow> hub \<Rightarrow> panic + hub" where
  "fan_out m [] h = Inr h"
| "fan_out m (c # cs) h = (case deliver m c h of Inl p \<Rightarrow> Inl p | Inr h' \<Rightarrow> fan_out m cs h')"

text \<open>The case \<open>msg, ok := <-h.broadcast\<close>; \<open>None\<close> where the receive would block.\<close>

definition run_broadcast :: "nat list \<Rightarrow> hub \<Rightarrow> (panic + hub) option" where
  "run_broadcast order h =
     (case try_recv (h_broadcast h) of
        None \<Rightarrow> None
      | Some (None, ch) \<Rightarrow> Some (Inr (h\<lparr>h_broadcast := ch, h_running := False\<rparr>))
      | Some (Some m, ch) \<Rightarrow> Some (fan_out m order (h\<lparr>h_broadcast := ch, h_log := h_log h @ [m]\<rparr>)))"

definition Broadcast :: "message \<Rightarrow> hub \<Rightarrow> panic + hub" where
  "Broadcast m h =
     (case try_send (h_broadcast h) m of
        Inl p \<Rightarrow> Inl p
      | Inr (Some ch) \<Rightarrow> Inr (h\<lparr>h_broadcast := ch\<rparr>)
      | Inr None \<Rightarrow> Inr h)"

text \<open>
  One iteration of the write pump that takes from \<open>send\<close>; \<open>ok\<close> is whether \<open>WriteJSON\<close>
  succeeds. On a closed channel it writes the close frame and returns.
\<close>

definition write_pump :: "bool \<Rightarrow> client \<Rightarrow> client option" where
  "write_pump ok cl =
     (case try_recv (c_send cl) of
        None \<Rightarrow> None
      | Some (None, ch) \<Rightarrow> Some (cl\<lparr>c_send := ch, c_conn_open := False, c_write := WDone\<rparr>)
      | Some (Some m, ch) \<Rightarrow>
          Some (if ok then cl\<lparr>c_send := ch, c_taken := c_taken cl @ [m], c_wire := c_wire cl @ [m]\<rparr>
                else cl\<lparr>c_send := ch, c_conn_open := False, c_write := WDone, c_taken := c_taken cl @ [m]\<rparr>))"

section \<open>The interleaving\<close>

inductive hub_step :: "panic + hub \<Rightarrow> panic + hub \<Rightarrow> bool" where
  new_client: "hub_step (Inr h) (Inr (NewClient h))"
| register: "h_running h \<Longrightarrow> c < h_next h \<Longrightarrow> c_read (h_heap h c) = RRegister \<Longrightarrow>
    hub_step (Inr h) (Inr (run_register c h))"
| read_error: "c < h_next h \<Longrightarrow> c_read (h_heap h c) = RReading \<Longrightarrow>
    hub_step (Inr h) (Inr (upd_client c (\<lambda>cl. cl\<lparr>c_read := RUnregister\<rparr>) h))"
| unregister: "h_running h \<Longrightarrow> c < h_next h \<Longrightarrow> c_read (h_heap h c) = RUnregister \<Longrightarrow>
    hub_step (Inr h)
      (map_sum id (upd_client c (\<lambda>cl. cl\<lparr>c_conn_open := False, c_read := RDone\<rparr>)) (run_unregister c h))"
| broadcast: "hub_step (Inr h) (Broadcast m h)"
| fan: "h_running h \<Longrightarrow> distinct order \<Longrightarrow> set order = h_clients h \<Longrightarrow> run_broadcast order h = Some r \<Longrightarrow>
    hub_step (Inr h) r"
| write_msg: "c < h_next h \<Longrightarrow> c_write (h_heap h c) = WRunning \<Longrightarrow> write_pump ok (h_heap h c) = Some cl \<Longrightarrow>
    hub_step (Inr h) (Inr (upd_client c (\<lambda>_. cl) h))"
| ping_error: "c < h_next h \<Longrightarrow> c_write (h_heap h c) = WRunning \<Longrightarrow>
    hub_step (Inr h) (Inr (upd_client c (\<lambda>cl. cl\<lparr>c_conn_open := False, c_write := WDone\<rparr>) h))"

abbreviation hub_reach :: "panic + hub \<Rightarrow> bool" where
  "hub_reach \<equiv> reach (\<lambda>st. st = Inr NewHub) hub_step"

section \<open>The invariant\<close>

definition client_ok :: "bool \<Rightarrow> message list \<Rightarrow> client \<Rightarrow> bool" where
  "client_ok member hist cl \<longleftrightarrow>
     ch_cap (c_send cl) = sendBufSize \<and> length (ch_buf (c_send cl)) \<le> sendBufSize \<and>
     c_base cl \<le> length hist \<and>
     (if c_read cl = RRegister
      then \<not> member \<and> \<not> ch_closed (c_send cl) \<and> ch_buf (c_send cl) = [] \<and> c_taken cl = [] \<and> c_write cl = WIdle
      else (ch_closed (c_send cl) \<longleftrightarrow> \<not> member) \<and> c_write cl \<noteq> WIdle) \<and>
     (member \<longrightarrow> c_read cl \<noteq> RDone \<and> c_taken cl @ ch_buf (c_send cl) = drop (c_base cl) hist) \<and>
     prefix (c_taken cl @ ch_buf (c_send cl)) (drop (c_base cl) hist) \<and>
     prefix (c_wire cl) (c_taken cl) \<and> length (c_taken cl) \<le> Suc (length (c_wire cl)) \<and>
     (c_write cl = WRunning \<longrightarrow> c_wire cl = c_taken cl)"

definition hub_ok :: "hub \<Rightarrow> bool" where
  "hub_ok h \<longleftrightarrow>
     h_running h \<and> \<not> ch_closed (h_broadcast h) \<and> ch_cap (h_broadcast h) = 256 \<and>
     length (ch_buf (h_broadcast h)) \<le> 256 \<and> (\<forall>c \<in> h_clients h. c < h_next h) \<and>
     (\<forall>c < h_next h. client_ok (c \<in> h_clients h) (h_log h) (h_heap h c))"

definition hub_inv :: "panic + hub \<Rightarrow> bool" where
  "hub_inv st = (case st of Inl _ \<Rightarrow> False | Inr h \<Rightarrow> hub_ok h)"

section \<open>Lemmas\<close>

inductive_cases hub_stepE: "hub_step (Inr h) st"

lemma upd_client_sel [simp]:
  "h_clients (upd_client c f h) = h_clients h" "h_broadcast (upd_client c f h) = h_broadcast h"
  "h_heap (upd_client c f h) = (h_heap h)(c := f (h_heap h c))" "h_next (upd_client c f h) = h_next h"
  "h_running (upd_client c f h) = h_running h" "h_log (upd_client c f h) = h_log h"
  by (simp_all add: upd_client_def)

text \<open>What one fan-out does to one client: deliver if there is room, otherwise close.\<close>

definition offer :: "message \<Rightarrow> client \<Rightarrow> client" where
  "offer m cl =
     (if length (ch_buf (c_send cl)) < ch_cap (c_send cl)
      then cl\<lparr>c_send := (c_send cl)\<lparr>ch_buf := ch_buf (c_send cl) @ [m]\<rparr>\<rparr>
      else cl\<lparr>c_send := (c_send cl)\<lparr>ch_closed := True\<rparr>\<rparr>)"

definition full :: "client \<Rightarrow> bool" where
  "full cl \<longleftrightarrow> \<not> length (ch_buf (c_send cl)) < ch_cap (c_send cl)"

lemma deliver_open:
  "\<not> ch_closed (c_send (h_heap h c)) \<Longrightarrow>
   deliver m c h = Inr (h\<lparr>h_clients := (if full (h_heap h c) then h_clients h - {c} else h_clients h),
                          h_heap := (h_heap h)(c := offer m (h_heap h c))\<rparr>)"
  by (auto simp: deliver_def evict_def try_send_def close_chan_def offer_def full_def upd_client_def)

lemma fan_out_closed_form:
  "distinct cs \<Longrightarrow> (\<forall>c \<in> set cs. \<not> ch_closed (c_send (h_heap h c))) \<Longrightarrow>
   fan_out m cs h =
     Inr (h\<lparr>h_clients := h_clients h - {c \<in> set cs. full (h_heap h c)},
            h_heap := (\<lambda>c. if c \<in> set cs then offer m (h_heap h c) else h_heap h c)\<rparr>)"
proof (induction cs arbitrary: h)
  case (Cons c cs)
  let ?h = "h\<lparr>h_clients := (if full (h_heap h c) then h_clients h - {c} else h_clients h),
              h_heap := (h_heap h)(c := offer m (h_heap h c))\<rparr>"
  from Cons.prems have "fan_out m (c # cs) h = fan_out m cs ?h" by (simp add: deliver_open)
  also have "\<dots> = Inr (?h\<lparr>h_clients := h_clients ?h - {d \<in> set cs. full (h_heap ?h d)},
                          h_heap := (\<lambda>d. if d \<in> set cs then offer m (h_heap ?h d) else h_heap ?h d)\<rparr>)"
    using Cons.prems by (intro Cons.IH) auto
  also have "\<dots> = Inr (h\<lparr>h_clients := h_clients h - {d \<in> set (c # cs). full (h_heap h d)},
                          h_heap := (\<lambda>d. if d \<in> set (c # cs) then offer m (h_heap h d) else h_heap h d)\<rparr>)"
    using Cons.prems by (auto intro!: hub.equality simp: fun_eq_iff)
  finally show ?case .
qed simp

lemma client_ok_log: "client_ok False hist cl \<Longrightarrow> client_ok False (hist @ [m]) cl"
  by (auto simp: client_ok_def intro: prefix_prefix)

lemma client_ok_offer:
  "client_ok True hist cl \<Longrightarrow> client_ok (\<not> full cl) (hist @ [m]) (offer m cl)"
  by (auto simp: client_ok_def offer_def full_def split: if_splits)

lemma client_ok_fresh: "client_ok False hist fresh_client"
  by (simp add: client_ok_def fresh_client_def make_chan_def)

lemma client_ok_register:
  "client_ok mem hist cl \<Longrightarrow> c_read cl = RRegister \<Longrightarrow>
   client_ok True hist (cl\<lparr>c_read := RReading, c_write := WRunning, c_base := length hist\<rparr>)"
  by (auto simp: client_ok_def)

lemma client_ok_read_error:
  "client_ok mem hist cl \<Longrightarrow> c_read cl = RReading \<Longrightarrow> client_ok mem hist (cl\<lparr>c_read := RUnregister\<rparr>)"
  by (auto simp: client_ok_def)

lemma client_ok_unregister:
  "client_ok mem hist cl \<Longrightarrow> c_read cl = RUnregister \<Longrightarrow>
   client_ok False hist (cl\<lparr>c_send := (c_send cl)\<lparr>ch_closed := True\<rparr>, c_conn_open := False, c_read := RDone\<rparr>)"
  by (auto simp: client_ok_def)

lemma client_ok_write:
  assumes "client_ok mem hist cl" "c_write cl = WRunning" "write_pump ok cl = Some cl'"
  shows "client_ok mem hist cl'"
  using assms by (auto simp: client_ok_def write_pump_def try_recv_def split: list.splits if_splits)

lemma client_ok_ping:
  "client_ok mem hist cl \<Longrightarrow> c_write cl = WRunning \<Longrightarrow>
   client_ok mem hist (cl\<lparr>c_conn_open := False, c_write := WDone\<rparr>)"
  by (auto simp: client_ok_def)

lemma hub_ok_upd:
  "hub_ok h \<Longrightarrow> client_ok (c \<in> h_clients h) (h_log h) (f (h_heap h c)) \<Longrightarrow> hub_ok (upd_client c f h)"
  by (simp add: hub_ok_def)

lemma hub_ok_unregister:
  assumes ok: "hub_ok h" and c: "c < h_next h" "c_read (h_heap h c) = RUnregister"
  shows "hub_inv (map_sum id (upd_client c (\<lambda>cl. cl\<lparr>c_conn_open := False, c_read := RDone\<rparr>)) (run_unregister c h))"
proof -
  from ok c have cl: "client_ok (c \<in> h_clients h) (h_log h) (h_heap h c)" by (simp add: hub_ok_def)
  show ?thesis
  proof (cases "c \<in> h_clients h")
    case True
    with cl c have "\<not> ch_closed (c_send (h_heap h c))" by (simp add: client_ok_def)
    with True ok client_ok_unregister [OF cl c(2)] show ?thesis
      by (auto simp: run_unregister_def evict_def close_chan_def hub_inv_def hub_ok_def)
  next
    case False
    with cl have "client_ok False (h_log h) (h_heap h c)" by simp
    with c have "client_ok False (h_log h) ((h_heap h c)\<lparr>c_conn_open := False, c_read := RDone\<rparr>)"
      by (auto simp: client_ok_def)
    with False ok show ?thesis by (auto simp: run_unregister_def hub_inv_def intro!: hub_ok_upd)
  qed
qed

lemma hub_ok_open: "hub_ok h \<Longrightarrow> c \<in> h_clients h \<Longrightarrow> \<not> ch_closed (c_send (h_heap h c))"
  by (auto simp: hub_ok_def client_ok_def split: if_splits)

lemma hub_ok_fan:
  assumes ok: "hub_ok h" and "distinct order" "set order = h_clients h" "run_broadcast order h = Some r"
  shows "hub_inv r"
proof -
  from ok assms(4) obtain m ch where ch: "try_recv (h_broadcast h) = Some (Some m, ch)"
    by (auto simp: run_broadcast_def try_recv_def hub_ok_def split: list.splits)
  let ?h = "h\<lparr>h_broadcast := ch, h_log := h_log h @ [m]\<rparr>"
  have "r = fan_out m order ?h" using assms(4) ch by (simp add: run_broadcast_def)
  also have "\<dots> = Inr (?h\<lparr>h_clients := h_clients h - {c \<in> h_clients h. full (h_heap h c)},
            h_heap := (\<lambda>c. if c \<in> h_clients h then offer m (h_heap h c) else h_heap h c)\<rparr>)"
    using assms hub_ok_open [OF ok] by (subst fan_out_closed_form) (auto intro!: hub.equality)
  finally have r: "r = Inr (?h\<lparr>h_clients := h_clients h - {c \<in> h_clients h. full (h_heap h c)},
            h_heap := (\<lambda>c. if c \<in> h_clients h then offer m (h_heap h c) else h_heap h c)\<rparr>)" .
  have "client_ok (\<not> full (h_heap h c)) (h_log h @ [m]) (offer m (h_heap h c))" if "c \<in> h_clients h" for c
    using ok that by (intro client_ok_offer) (auto simp: hub_ok_def)
  moreover have "client_ok False (h_log h @ [m]) (h_heap h c)" if "c \<notin> h_clients h" "c < h_next h" for c
    using ok that by (intro client_ok_log) (auto simp: hub_ok_def)
  ultimately show ?thesis
    using ok ch r by (auto simp: hub_inv_def hub_ok_def try_recv_def split: list.splits if_splits)
qed

lemma hub_ok_Broadcast: "hub_ok h \<Longrightarrow> hub_inv (Broadcast m h)"
  by (auto simp: hub_inv_def hub_ok_def Broadcast_def try_send_def)

lemma hub_inv_step: "hub_step st st' \<Longrightarrow> hub_inv st \<Longrightarrow> hub_inv st'"
proof (induction rule: hub_step.induct)
  case (new_client h)
  then show ?case
    by (auto simp: hub_inv_def hub_ok_def NewClient_def client_ok_fresh less_Suc_eq)
next
  case (register h c)
  then have "client_ok (c \<in> h_clients h) (h_log h) (h_heap h c)" by (simp add: hub_inv_def hub_ok_def)
  from client_ok_register [OF this register(3)] register show ?case
    by (simp add: hub_inv_def hub_ok_def run_register_def)
next
  case (read_error c h)
  then show ?case
    by (auto simp: hub_inv_def hub_ok_def intro!: client_ok_read_error)
next
  case (unregister h c)
  then show ?case by (intro hub_ok_unregister) (simp_all add: hub_inv_def)
next
  case (broadcast h m)
  then show ?case by (intro hub_ok_Broadcast) (simp add: hub_inv_def)
next
  case (fan h order r)
  then show ?case by (intro hub_ok_fan [of h order]) (simp_all add: hub_inv_def)
next
  case (write_msg c h ok cl)
  then show ?case
    by (auto simp: hub_inv_def hub_ok_def intro: client_ok_write)
next
  case (ping_error c h)
  then show ?case
    by (auto simp: hub_inv_def hub_ok_def intro!: client_ok_ping)
qed

interpretation hub_sys: invariant_system "\<lambda>st. st = Inr NewHub" hub_step hub_inv
  by unfold_locales (simp_all add: hub_inv_step, simp add: hub_inv_def hub_ok_def NewHub_def make_chan_def)

text \<open>Once its channel is closed, a running write pump writes out what is buffered and returns.\<close>

lemma writer_ends:
  assumes "c < h_next h" "c_write (h_heap h c) = WRunning" "ch_closed (c_send (h_heap h c))"
  shows "\<exists>h'. hub_step\<^sup>*\<^sup>* (Inr h) (Inr h') \<and> h_clients h' = h_clients h \<and>
     c_read (h_heap h' c) = c_read (h_heap h c) \<and> c_write (h_heap h' c) = WDone \<and>
     c_wire (h_heap h' c) = c_wire (h_heap h c) @ ch_buf (c_send (h_heap h c))"
  using assms
proof (induction "ch_buf (c_send (h_heap h c))" arbitrary: h)
  case Nil
  let ?cl = "(h_heap h c)\<lparr>c_conn_open := False, c_write := WDone\<rparr>"
  have "write_pump True (h_heap h c) = Some ?cl"
    using Nil by (simp add: write_pump_def try_recv_def flip: Nil(1))
  from write_msg [OF Nil(2,3) this] Nil show ?case
    by (intro exI [of _ "upd_client c (\<lambda>_. ?cl) h"]) (auto simp flip: Nil(1))
next
  case (Cons m ms)
  let ?cl = "(h_heap h c)\<lparr>c_send := (c_send (h_heap h c))\<lparr>ch_buf := ms\<rparr>,
      c_taken := c_taken (h_heap h c) @ [m], c_wire := c_wire (h_heap h c) @ [m]\<rparr>"
  let ?h = "upd_client c (\<lambda>_. ?cl) h"
  have "write_pump True (h_heap h c) = Some ?cl"
    by (simp add: write_pump_def try_recv_def flip: Cons(2))
  with Cons(3,4) have 1: "hub_step (Inr h) (Inr ?h)" by (rule write_msg)
  from Cons(1) [of ?h] Cons(3-5) obtain h' where h': "hub_step\<^sup>*\<^sup>* (Inr ?h) (Inr h')" "h_clients h' = h_clients h"
    "c_read (h_heap h' c) = c_read (h_heap h c)" "c_write (h_heap h' c) = WDone"
    "c_wire (h_heap h' c) = (c_wire (h_heap h c) @ [m]) @ ms" by auto
  with 1 show ?case by (intro exI [of _ h']) (auto simp flip: Cons(2) intro: converse_rtranclp_into_rtranclp)
qed

text \<open>A client whose read fails is unregistered, and its channel is closed.\<close>

lemma reader_ends:
  assumes ok: "hub_ok h" and c: "c < h_next h" "c_read (h_heap h c) = RReading"
  shows "\<exists>h'. hub_step\<^sup>*\<^sup>* (Inr h) (Inr h') \<and> h_next h' = h_next h \<and> c \<notin> h_clients h' \<and>
     c_read (h_heap h' c) = RDone \<and> c_write (h_heap h' c) = c_write (h_heap h c) \<and>
     c_wire (h_heap h' c) = c_wire (h_heap h c) \<and> ch_closed (c_send (h_heap h' c)) \<and>
     ch_buf (c_send (h_heap h' c)) = ch_buf (c_send (h_heap h c))"
proof -
  let ?h1 = "upd_client c (\<lambda>cl. cl\<lparr>c_read := RUnregister\<rparr>) h"
  have 1: "hub_step (Inr h) (Inr ?h1)" using c by (rule read_error)
  with ok hub_inv_step [OF 1] have ok1: "hub_ok ?h1" by (simp add: hub_inv_def)
  let ?r = "map_sum id (upd_client c (\<lambda>cl. cl\<lparr>c_conn_open := False, c_read := RDone\<rparr>)) (run_unregister c ?h1)"
  have 2: "hub_step (Inr ?h1) ?r"
    using ok1 c by (intro unregister) (simp_all add: hub_ok_def)
  from ok c have cl: "ch_closed (c_send (h_heap h c)) \<longleftrightarrow> c \<notin> h_clients h"
    by (auto simp: hub_ok_def client_ok_def split: if_splits)
  have "\<exists>h'. ?r = Inr h' \<and> h_next h' = h_next h \<and> c \<notin> h_clients h' \<and> c_read (h_heap h' c) = RDone \<and>
     c_write (h_heap h' c) = c_write (h_heap h c) \<and> c_wire (h_heap h' c) = c_wire (h_heap h c) \<and>
     ch_closed (c_send (h_heap h' c)) \<and> ch_buf (c_send (h_heap h' c)) = ch_buf (c_send (h_heap h c))"
    using cl by (cases "c \<in> h_clients h") (simp_all add: run_unregister_def evict_def close_chan_def)
  then obtain h' where r: "?r = Inr h'" and h': "h_next h' = h_next h" "c \<notin> h_clients h'" "c_read (h_heap h' c) = RDone"
     "c_write (h_heap h' c) = c_write (h_heap h c)" "c_wire (h_heap h' c) = c_wire (h_heap h c)"
     "ch_closed (c_send (h_heap h' c))" "ch_buf (c_send (h_heap h' c)) = ch_buf (c_send (h_heap h c))"
    by blast
  from 1 2 have "hub_step\<^sup>*\<^sup>* (Inr h) (Inr h')" unfolding r
    by (meson converse_rtranclp_into_rtranclp rtranclp.rtrancl_refl)
  with h' show ?thesis by blast
qed

text \<open>One client, registered on a new hub.\<close>

definition hub_one :: hub where
  "hub_one = run_register 0 (NewClient NewHub)"

definition ping_msg :: message where
  "ping_msg = \<lparr>msg_type = MsgPing, msg_timestamp = 0, msg_payload = JNull\<rparr>"

lemma hub_one_reach: "hub_reach (Inr hub_one)"
proof -
  have "hub_reach (Inr NewHub)" by (rule reach_init) simp
  then have "hub_reach (Inr (NewClient NewHub))" by (rule reach_step) (rule new_client)
  then show ?thesis unfolding hub_one_def
    by (rule reach_step) (rule register, simp_all add: NewClient_def NewHub_def fresh_client_def)
qed

lemma hub_one_sel [simp]:
  "h_clients hub_one = {0}" "h_next hub_one = 1" "h_log hub_one = []" "c_read (h_heap hub_one 0) = RReading"
  "c_write (h_heap hub_one 0) = WRunning" "c_wire (h_heap hub_one 0) = []" "c_base (h_heap hub_one 0) = 0"
  "c_send (h_heap hub_one 0) = make_chan 256" "h_broadcast hub_one = make_chan 256"
  by (simp_all add: hub_one_def run_register_def NewClient_def NewHub_def fresh_client_def)

section \<open>Properties\<close>

text \<open>
  C5: the hub never panics and its buffers stay bounded: under every interleaving of new clients,
  disconnections, evictions, broadcasts and pumps, no channel is closed twice, nothing is sent
  on a closed channel, \<open>Run\<close> keeps running, and no channel holds more than 256 messages.
\<close>

theorem hub_never_panics:
  assumes "hub_reach st"
  shows "\<exists>h. st = Inr h \<and> h_running h \<and> length (ch_buf (h_broadcast h)) \<le> 256 \<and>
     (\<forall>c < h_next h. length (ch_buf (c_send (h_heap h c))) \<le> 256)"
  using hub_sys.reach_inv [OF assms]
  by (cases st) (auto simp: hub_inv_def hub_ok_def client_ok_def)

theorem hub_never_panics_witness:
  "h_running hub_one \<and> length (ch_buf (h_broadcast hub_one)) \<le> 256"
  using hub_never_panics [OF hub_one_reach] by simp

text \<open>
  C22: delivery is in order and without gaps: what has been written to a connection is an initial part of what
  the hub has fanned out since the client was registered, and for a client that is still
  registered and whose write pump runs, everything fanned out since is written or buffered.
\<close>

theorem hub_delivery:
  assumes "hub_reach (Inr h)" and "c < h_next h"
  shows "prefix (c_wire (h_heap h c)) (drop (c_base (h_heap h c)) (h_log h)) \<and>
     (c \<in> h_clients h \<and> c_write (h_heap h c) = WRunning \<longrightarrow>
        c_wire (h_heap h c) @ ch_buf (c_send (h_heap h c)) = drop (c_base (h_heap h c)) (h_log h))"
proof -
  from hub_sys.reach_inv [OF assms(1)] assms(2)
  have ok: "client_ok (c \<in> h_clients h) (h_log h) (h_heap h c)" by (simp add: hub_inv_def hub_ok_def)
  then have "prefix (c_wire (h_heap h c)) (c_taken (h_heap h c) @ ch_buf (c_send (h_heap h c)))"
    "prefix (c_taken (h_heap h c) @ ch_buf (c_send (h_heap h c))) (drop (c_base (h_heap h c)) (h_log h))"
    by (auto simp: client_ok_def intro: prefix_prefix)
  then have "prefix (c_wire (h_heap h c)) (drop (c_base (h_heap h c)) (h_log h))"
    by (rule prefix_order.order_trans)
  with ok show ?thesis by (simp add: client_ok_def)
qed

theorem hub_delivery_witness:
  "c_wire (h_heap hub_one 0) @ ch_buf (c_send (h_heap hub_one 0)) = drop 0 (h_log hub_one)"
  using hub_delivery [OF hub_one_reach, of 0] by simp

text \<open>
  a fan-out is independent of the map's iteration order and a slow client does not affect the others:
  in a reachable state every registered client with room gets the message at the end of its
  buffer, every one without is removed and its channel closed, and nothing else changes.
\<close>

theorem fan_out_spec:
  assumes "hub_reach (Inr h)" and "distinct order" and "set order = h_clients h"
  shows "fan_out m order h =
     Inr (h\<lparr>h_clients := {c \<in> h_clients h. \<not> full (h_heap h c)},
            h_heap := (\<lambda>c. if c \<in> h_clients h then offer m (h_heap h c) else h_heap h c)\<rparr>)"
proof -
  from hub_sys.reach_inv [OF assms(1)] have ok: "hub_ok h" by (simp add: hub_inv_def)
  have "h_clients h - {c \<in> h_clients h. full (h_heap h c)} = {c \<in> h_clients h. \<not> full (h_heap h c)}"
    by blast
  with fan_out_closed_form [OF assms(2), of h m] hub_ok_open [OF ok] assms(3) show ?thesis by simp
qed

theorem fan_out_spec_witness:
  "\<exists>h'. fan_out ping_msg [0] hub_one = Inr h' \<and> h_clients h' = {0} \<and> ch_buf (c_send (h_heap h' 0)) = [ping_msg]"
proof -
  have "{c. c = 0 \<and> \<not> full (h_heap hub_one c)} = {0}" by (auto simp: full_def make_chan_def)
  moreover have "ch_buf (c_send (offer ping_msg (h_heap hub_one 0))) = [ping_msg]"
    by (simp add: offer_def make_chan_def)
  ultimately show ?thesis
    using fan_out_spec [OF hub_one_reach, of "[0]" ping_msg] by (simp del: fan_out.simps)
qed

text \<open>
  C23: a lost connection is cleaned up: from any reachable state in which a client's read pump is reading, once the
  read fails the client can be removed from the hub and both its pumps return; a write pump
  that is running first writes every message that was still buffered.
\<close>

theorem hub_client_leaves:
  assumes "hub_reach (Inr h)" and "c < h_next h" and "c_read (h_heap h c) = RReading"
  shows "\<exists>h'. hub_step\<^sup>*\<^sup>* (Inr h) (Inr h') \<and> c \<notin> h_clients h' \<and>
     c_read (h_heap h' c) = RDone \<and> c_write (h_heap h' c) = WDone \<and>
     (c_write (h_heap h c) = WRunning \<longrightarrow>
        c_wire (h_heap h' c) = c_wire (h_heap h c) @ ch_buf (c_send (h_heap h c)))"
proof -
  from hub_sys.reach_inv [OF assms(1)] have ok: "hub_ok h" by (simp add: hub_inv_def)
  from reader_ends [OF ok assms(2,3)] obtain h1 where h1: "hub_step\<^sup>*\<^sup>* (Inr h) (Inr h1)"
    "h_next h1 = h_next h" "c \<notin> h_clients h1" "c_read (h_heap h1 c) = RDone"
    "c_write (h_heap h1 c) = c_write (h_heap h c)" "c_wire (h_heap h1 c) = c_wire (h_heap h c)"
    "ch_closed (c_send (h_heap h1 c))" "ch_buf (c_send (h_heap h1 c)) = ch_buf (c_send (h_heap h c))" by blast
  from ok assms have "c_write (h_heap h c) \<noteq> WIdle" by (auto simp: hub_ok_def client_ok_def)
  then consider "c_write (h_heap h c) = WDone" | "c_write (h_heap h c) = WRunning"
    by (cases "c_write (h_heap h c)") auto
  then show ?thesis
  proof cases
    case 1
    with h1 show ?thesis by auto
  next
    case 2
    with writer_ends [of c h1] h1 assms(2) obtain h2 where "hub_step\<^sup>*\<^sup>* (Inr h1) (Inr h2)" "h_clients h2 = h_clients h1"
      "c_read (h_heap h2 c) = RDone" "c_write (h_heap h2 c) = WDone"
      "c_wire (h_heap h2 c) = c_wire (h_heap h c) @ ch_buf (c_send (h_heap h c))" by auto
    with h1 show ?thesis by (intro exI [of _ h2]) (auto intro: rtranclp_trans)
  qed
qed

theorem hub_client_leaves_witness:
  "\<exists>h'. hub_step\<^sup>*\<^sup>* (Inr hub_one) (Inr h') \<and> 0 \<notin> h_clients h' \<and> c_write (h_heap h' 0) = WDone"
  using hub_client_leaves [OF hub_one_reach, of 0] by auto

end
