(* ===== verification/FG_Transfer.thy ===== *)
theory FG_Transfer
  imports FG_Store FG_Minio FG_Hub
begin

text \<open>
  The package \<open>internal/transfer\<close>: the job and the statuses (\<open>model.go\<close>), the queue and the
  worker pool (\<open>manager.go\<close>) and the processing of one job with its retries (\<open>worker.go\<close>).

  \<open>mstate\<close> is the manager with what its workers share: the queue, the store, the object storage
  client with the servers, the hub, and the armed timers of \<open>time.AfterFunc\<close>. Each operation is
  a function on it; \<open>process\<close> is split where a worker waits for a server. \<open>pool_step\<close> interleaves
  the webhook handler, the workers, the timers, \<open>Stop\<close> and the hub. A job carries its
  \<open>*storage.Transfer\<close> by value: one goroutine at a time holds the job.

  Times, random numbers and failures of the store come with each call in a record \<open>tenv\<close>.
\<close>

section \<open>Jobs and the manager\<close>

abbreviation StatusPending :: string where
  "StatusPending \<equiv> ''pending''"

abbreviation StatusInProgress :: string where
  "StatusInProgress \<equiv> ''in_progress''"

abbreviation StatusSuccess :: string where
  "StatusSuccess \<equiv> ''success''"

abbreviation StatusFailed :: string where
  "StatusFailed \<equiv> ''failed''"

abbreviation StatusRetrying :: string where
  "StatusRetrying \<equiv> ''retrying''"

record job =
  j_transfer :: transfer
  j_app :: app
  j_object_key :: string
  j_retry_count :: int
  j_max_retries :: int
  j_backoff_secs :: int

record ('c, 'w) mstate =
  m_queue :: "job list"
  m_closed :: bool
  m_workers :: int
  m_db :: db
  m_world :: 'w
  m_clients :: "'c clients"
  m_hub :: hub
  m_timers :: "(time \<times> job) list"

definition NewManager :: "int \<Rightarrow> db \<Rightarrow> 'w \<Rightarrow> 'c clients \<Rightarrow> hub \<Rightarrow> ('c, 'w) mstate" where
  "NewManager workers d w cs h =
     \<lparr>m_queue = [], m_closed = False, m_workers = workers, m_db = d, m_world = w, m_clients = cs,
      m_hub = h, m_timers = []\<rparr>"

definition Enqueue :: "job \<Rightarrow> ('c, 'w) mstate \<Rightarrow> ('c, 'w) mstate" where
  "Enqueue job m = m\<lparr>m_queue := m_queue m @ [job]\<rparr>"

definition QueueDepth :: "('c, 'w) mstate \<Rightarrow> int" where
  "QueueDepth m = int (length (m_queue m))"

definition Stop :: "('c, 'w) mstate \<Rightarrow> ('c, 'w) mstate" where
  "Stop m = m\<lparr>m_closed := True\<rparr>"

text \<open>
  What a worker of \<open>Start\<close> does when it holds the lock: wait (\<open>None\<close>) while the queue is empty
  and the manager open, return (\<open>Some None\<close>) when it is closed and the queue empty, otherwise
  take the first job.
\<close>

definition next_job :: "('c, 'w) mstate \<Rightarrow> (job option \<times> ('c, 'w) mstate) option" where
  "next_job m =
     (case m_queue m of
        [] \<Rightarrow> if m_closed m then Some (None, m) else None
      | job # q \<Rightarrow> Some (Some job, m\<lparr>m_queue := q\<rparr>))"

section \<open>Processing a job\<close>

abbreviation broadcastThrottle :: int where
  "broadcastThrottle \<equiv> 1000"

definition mgr_broadcast :: "message \<Rightarrow> ('c, 'w) mstate \<Rightarrow> panic + ('c, 'w) mstate" where
  "mgr_broadcast msg m =
     (if QueueDepth m \<le> broadcastThrottle then
        (case Broadcast msg (m_hub m) of Inl p \<Rightarrow> Inl p | Inr h \<Rightarrow> Inr (m\<lparr>m_hub := h\<rparr>))
      else Inr m)"

text \<open>\<open>m.store.UpdateTransfer\<close>; an error is only logged.\<close>

definition store_update :: "string option \<Rightarrow> transfer \<Rightarrow> ('c, 'w) mstate \<Rightarrow> ('c, 'w) mstate" where
  "store_update fault t m =
     (case UpdateTransfer fault t (m_db m) of Inl _ \<Rightarrow> m | Inr d \<Rightarrow> m\<lparr>m_db := d\<rparr>)"

text \<open>
  The outside of one call: \<open>te_now\<close>, \<open>te_later\<close> and \<open>te_stamp\<close> are successive clock readings,
  \<open>te_fault\<close> a failure of the store, \<open>te_rnd n\<close> the result of \<open>rand.Int63n(n)\<close> and
  \<open>te_others\<close> what other goroutines add to the client cache meanwhile.
\<close>

record 'c tenv =
  te_now :: time
  te_later :: time
  te_stamp :: time
  te_fault :: "string option"
  te_rnd :: "int \<Rightarrow> int"
  te_others :: "'c clients \<Rightarrow> 'c clients"

definition process_start ::
  "'c tenv \<Rightarrow> job \<Rightarrow> ('c, 'w) mstate \<Rightarrow> panic + job \<times> ('c, 'w) mstate" where
  "process_start e job m =
     (if j_retry_count job = 0 then
        (let t = (j_transfer job)\<lparr>t_status := StatusInProgress, t_started_at := Some (te_now e)\<rparr>
         in case mgr_broadcast
                   \<lparr>msg_type = MsgTransferStarted, msg_timestamp = te_now e,
                    msg_payload = JObject [(''transfer_id'', JString (t_id t)),
                                           (''app_id'', JString (a_id (j_app job))),
                                           (''object_key'', JString (j_object_key job))]\<rparr>
                   (store_update (te_fault e) t m) of
              Inl p \<Rightarrow> Inl p
            | Inr m' \<Rightarrow> Inr (job\<lparr>j_transfer := t\<rparr>, m'))
      else Inr (job, m))"

definition doTransfer ::
  "('c, 'o, 'w) minio_lib \<Rightarrow> ('c clients \<Rightarrow> 'c clients) \<Rightarrow> job \<Rightarrow> ('c, 'w) mstate \<Rightarrow>
   go_error option \<times> ('c, 'w) mstate" where
  "doTransfer M others job m =
     (case GetObject M others (a_src (j_app job)) (j_object_key job) (m_world m) (m_clients m) of
        (Inl err, cs) \<Rightarrow> (Some (Wrap ''GetObject'' err), m\<lparr>m_clients := cs\<rparr>)
      | (Inr (rc, n), cs) \<Rightarrow>
          (let n' = (if n \<le> 0 then t_object_size (j_transfer job) else n) in
           case PutObject M others (a_dst (j_app job)) (j_object_key job) rc n' (m_world m) cs of
             (Some err, w, cs') \<Rightarrow> (Some (Wrap ''PutObject'' err), m\<lparr>m_world := w, m_clients := cs'\<rparr>)
           | (None, w, cs') \<Rightarrow> (None, m\<lparr>m_world := w, m_clients := cs'\<rparr>)))"

abbreviation maxDelay :: duration where
  "maxDelay \<equiv> Hour"

abbreviation minDelay :: duration where
  "minDelay \<equiv> 5 * Second"

text \<open>
  \<open>1 << n\<close> at 64 bits: it panics for a negative count. \<open>rand.Int63n(n)\<close> panics unless its
  argument is positive.
\<close>

definition shl1 :: "int \<Rightarrow> panic + int" where
  "shl1 n = (if n < 0 then Inl NegativeShift else Inr (wrap64 (2 ^ nat n)))"

definition Int63n :: "(int \<Rightarrow> int) \<Rightarrow> int \<Rightarrow> panic + int" where
  "Int63n rnd n = (if n \<le> 0 then Inl Int63nNonPositive else Inr (rnd n))"

text \<open>The delay of \<open>scheduleRetry\<close>; \<open>retryCount\<close> is the count after the increment.\<close>

definition retry_delay :: "(int \<Rightarrow> int) \<Rightarrow> int \<Rightarrow> int \<Rightarrow> panic + duration" where
  "retry_delay rnd backoffSecs retryCount =
     (let base = wrap64 (backoffSecs * Second) in
      case shl1 (wrap64 (retryCount - 1)) of
        Inl p \<Rightarrow> Inl p
      | Inr s \<Rightarrow>
          (let d0 = wrap64 (base * s);
               d1 = (if d0 > maxDelay \<or> d0 \<le> 0 then maxDelay else d0);
               d2 = (if d1 < minDelay then minDelay else d1)
           in if d2 > minDelay then
                (case Int63n rnd (d2 - minDelay) of Inl p \<Rightarrow> Inl p | Inr j \<Rightarrow> Inr (minDelay + j))
              else Inr d2))"

definition scheduleRetry ::
  "'c tenv \<Rightarrow> job \<Rightarrow> go_error \<Rightarrow> ('c, 'w) mstate \<Rightarrow> panic + ('c, 'w) mstate" where
  "scheduleRetry e job0 cause m =
     (let job = job0\<lparr>j_retry_count := wrap64 (j_retry_count job0 + 1)\<rparr> in
      case retry_delay (te_rnd e) (j_backoff_secs job) (j_retry_count job) of
        Inl p \<Rightarrow> Inl p
      | Inr delay \<Rightarrow>
          (let nextRetry = time_add (te_later e) delay;
               t = (j_transfer job)\<lparr>t_status := StatusRetrying, t_error_message := error_string cause,
                                    t_retry_count := j_retry_count job, t_next_retry_at := Some nextRetry\<rparr>
           in case mgr_broadcast
                     \<lparr>msg_type = MsgTransferRetrying, msg_timestamp = te_stamp e,
                      msg_payload = JObject [(''transfer_id'', JString (t_id t)),
                                             (''app_id'', JString (a_id (j_app job))),
                                             (''object_key'', JString (j_object_key job)),
                                             (''retry_count'', JInt (j_retry_count job)),
                                             (''max_retries'', JInt (j_max_retries job)),
                                             (''next_retry_at'', JTime nextRetry),
                                             (''error_message'', JString (error_string cause))]\<rparr>
                     (store_update (te_fault e) t m) of
                Inl p \<Rightarrow> Inl p
              | Inr m' \<Rightarrow> Inr (m'\<lparr>m_timers := m_timers m' @ [(nextRetry, job\<lparr>j_transfer := t\<rparr>)]\<rparr>)))"

text \<open>The function that \<open>time.AfterFunc\<close> runs.\<close>

definition retry_fire :: "job \<Rightarrow> ('c, 'w) mstate \<Rightarrow> ('c, 'w) mstate" where
  "retry_fire job m =
     (let t = (j_transfer job)\<lparr>t_status := StatusPending, t_error_message := [], t_started_at := None,
                               t_completed_at := None, t_next_retry_at := None\<rparr>
      in Enqueue (job\<lparr>j_transfer := t\<rparr>) m)"

definition fail ::
  "'c tenv \<Rightarrow> transfer \<Rightarrow> string \<Rightarrow> go_error \<Rightarrow> ('c, 'w) mstate \<Rightarrow> panic + ('c, 'w) mstate" where
  "fail e t0 key cause m =
     (let completed = te_later e;
          t = t0\<lparr>t_status := StatusFailed, t_error_message := error_string cause, t_completed_at := Some completed\<rparr>
      in mgr_broadcast
           \<lparr>msg_type = MsgTransferFailed, msg_timestamp = completed,
            msg_payload = JObject [(''transfer_id'', JString (t_id t)), (''object_key'', JString key),
                                   (''error_message'', JString (error_string cause))]\<rparr>
           (store_update (te_fault e) t m))"

text \<open>
  \<open>process\<close> after the first update: the transfer itself, then a retry, the failure or the success.
  \<open>now\<close> is the clock reading at the beginning of \<open>process\<close>; \<open>te_later e\<close> is the reading after
  the transfer.
\<close>

definition process_finish ::
  "('c, 'o, 'w) minio_lib \<Rightarrow> 'c tenv \<Rightarrow> time \<Rightarrow> job \<Rightarrow> ('c, 'w) mstate \<Rightarrow> panic + ('c, 'w) mstate" where
  "process_finish M e now job m =
     (case doTransfer M (te_others e) job m of
        (Some err, m') \<Rightarrow>
          if j_retry_count job < j_max_retries job then scheduleRetry e job err m'
          else fail e (j_transfer job) (j_object_key job) err m'
      | (None, m') \<Rightarrow>
          (let completed = te_later e;
               durationMs = rat_of_int (go_div (time_sub completed now) Millisecond);
               t0 = j_transfer job;
               t = t0\<lparr>t_status := StatusSuccess, t_bytes_transferred := t_object_size t0,
                      t_completed_at := Some completed, t_duration_ms := durationMs\<rparr>
           in mgr_broadcast
                \<lparr>msg_type = MsgTransferCompleted, msg_timestamp = completed,
                 msg_payload = JObject [(''transfer_id'', JString (t_id t)),
                                        (''app_id'', JString (a_id (j_app job))),
                                        (''object_key'', JString (j_object_key job)),
                                        (''duration_ms'', JNum durationMs),
                                        (''bytes'', JInt (t_object_size t))]\<rparr>
                (store_update (te_fault e) t m')))"

definition process ::
  "('c, 'o, 'w) minio_lib \<Rightarrow> 'c tenv \<Rightarrow> 'c tenv \<Rightarrow> job \<Rightarrow> ('c, 'w) mstate \<Rightarrow> panic + ('c, 'w) mstate" where
  "process M e1 e2 job m =
     (case process_start e1 job m of
        Inl p \<Rightarrow> Inl p
      | Inr (job', m') \<Rightarrow> process_finish M e2 (te_now e1) job' m')"

section \<open>The worker pool\<close>

text \<open>
  A worker of \<open>Start\<close> waits for a job, has taken one, is transferring (with the clock reading of the
  beginning of \<open>process\<close>), or has returned.
\<close>

datatype worker = Idle | Fetched job | Started time job | Exited

text \<open>
  \<open>p_accepting\<close> are the jobs whose row the webhook handler has written and which it is about to
  enqueue; \<open>p_submitted\<close> is history, the ids of the rows written so far.
\<close>

record ('c, 'w) pool =
  p_m :: "('c, 'w) mstate"
  p_pool :: "worker list"
  p_accepting :: "job list"
  p_submitted :: "string set"

definition Start :: "('c, 'w) mstate \<Rightarrow> ('c, 'w) pool" where
  "Start m = \<lparr>p_m = m, p_pool = replicate (nat (m_workers m)) Idle, p_accepting = [], p_submitted = {}\<rparr>"

text \<open>\<open>rand.Int63n\<close> is documented to return a number in \<open>[0, n)\<close>.\<close>

definition rnd_ok :: "(int \<Rightarrow> int) \<Rightarrow> bool" where
  "rnd_ok rnd \<longleftrightarrow> (\<forall>n > 0. 0 \<le> rnd n \<and> rnd n < n)"

text \<open>A call's environment; without \<open>faulty\<close> the store does not fail.\<close>

definition env_ok :: "bool \<Rightarrow> 'c tenv \<Rightarrow> bool" where
  "env_ok faulty e \<longleftrightarrow> rnd_ok (te_rnd e) \<and> (faulty \<or> te_fault e = None)"

abbreviation jid :: "job \<Rightarrow> string" where
  "jid j \<equiv> t_id (j_transfer j)"

text \<open>The steps of the pool itself.\<close>

inductive work_step ::
  "('c, 'o, 'w) minio_lib \<Rightarrow> bool \<Rightarrow> panic + ('c, 'w) pool \<Rightarrow> panic + ('c, 'w) pool \<Rightarrow> bool"
  for M :: "('c, 'o, 'w) minio_lib" and faulty :: bool where
  enqueue: "p_accepting p = as @ job # bs \<Longrightarrow>
    work_step M faulty (Inr p) (Inr (p\<lparr>p_m := Enqueue job (p_m p), p_accepting := as @ bs\<rparr>))"
| take: "p_pool p = us @ Idle # vs \<Longrightarrow> next_job (p_m p) = Some (Some job, m) \<Longrightarrow>
    work_step M faulty (Inr p) (Inr (p\<lparr>p_m := m, p_pool := us @ Fetched job # vs\<rparr>))"
| exit: "p_pool p = us @ Idle # vs \<Longrightarrow> next_job (p_m p) = Some (None, m) \<Longrightarrow>
    work_step M faulty (Inr p) (Inr (p\<lparr>p_m := m, p_pool := us @ Exited # vs\<rparr>))"
| start: "p_pool p = us @ Fetched job # vs \<Longrightarrow> env_ok faulty e \<Longrightarrow>
    work_step M faulty (Inr p)
      (map_sum id (\<lambda>(job', m). p\<lparr>p_m := m, p_pool := us @ Started (te_now e) job' # vs\<rparr>)
        (process_start e job (p_m p)))"
| finish: "p_pool p = us @ Started now job # vs \<Longrightarrow> env_ok faulty e \<Longrightarrow>
    work_step M faulty (Inr p)
      (map_sum id (\<lambda>m. p\<lparr>p_m := m, p_pool := us @ Idle # vs\<rparr>) (process_finish M e now job (p_m p)))"
| timer: "m_timers (p_m p) = xs @ (due, job) # ys \<Longrightarrow>
    work_step M faulty (Inr p) (Inr (p\<lparr>p_m := retry_fire job ((p_m p)\<lparr>m_timers := xs @ ys\<rparr>)\<rparr>))"

text \<open>
  With its surroundings: the webhook handler writes a pending row, \<open>Stop\<close> is called, the hub and
  its clients move, other operations of the store leave the transfers alone, the servers change.
\<close>

inductive pool_step ::
  "('c, 'o, 'w) minio_lib \<Rightarrow> bool \<Rightarrow> panic + ('c, 'w) pool \<Rightarrow> panic + ('c, 'w) pool \<Rightarrow> bool"
  for M :: "('c, 'o, 'w) minio_lib" and faulty :: bool where
  work: "work_step M faulty st st' \<Longrightarrow> pool_step M faulty st st'"
| create: "CreateTransfer None (j_transfer job) (m_db (p_m p)) = Inr d \<Longrightarrow>
    t_status (j_transfer job) = StatusPending \<Longrightarrow> j_retry_count job = 0 \<Longrightarrow> in_int64 (j_max_retries job) \<Longrightarrow>
    pool_step M faulty (Inr p)
      (Inr (p\<lparr>p_m := (p_m p)\<lparr>m_db := d\<rparr>, p_accepting := p_accepting p @ [job],
             p_submitted := insert (jid job) (p_submitted p)\<rparr>))"
| stop: "pool_step M faulty (Inr p) (Inr (p\<lparr>p_m := Stop (p_m p)\<rparr>))"
| hub_moves: "hub_step (Inr (m_hub (p_m p))) (Inr h) \<Longrightarrow>
    pool_step M faulty (Inr p) (Inr (p\<lparr>p_m := (p_m p)\<lparr>m_hub := h\<rparr>\<rparr>))"
| db_other: "transfers d = transfers (m_db (p_m p)) \<Longrightarrow>
    pool_step M faulty (Inr p) (Inr (p\<lparr>p_m := (p_m p)\<lparr>m_db := d\<rparr>\<rparr>))"
| servers: "pool_step M faulty (Inr p) (Inr (p\<lparr>p_m := (p_m p)\<lparr>m_world := w\<rparr>\<rparr>))"

definition pool_init :: "panic + ('c, 'w) pool \<Rightarrow> bool" where
  "pool_init st \<longleftrightarrow>
     (\<exists>workers d w cs. 0 < workers \<and> st = Inr (Start (NewManager workers d w cs NewHub)))"

section \<open>What the pool promises\<close>

fun busy :: "worker \<Rightarrow> (bool \<times> job) list" where
  "busy (Fetched j) = [(False, j)]"
| "busy (Started now j) = [(True, j)]"
| "busy Idle = []"
| "busy Exited = []"

text \<open>The jobs the pool is responsible for, each with whether its transfer has begun.\<close>

definition live :: "('c, 'w) pool \<Rightarrow> (bool \<times> job) list" where
  "live p =
     map (Pair False) (p_accepting p) @ map (Pair False) (m_queue (p_m p)) @
     map (\<lambda>(due, j). (False, j)) (m_timers (p_m p)) @ concat (map busy (p_pool p))"

definition row_status :: "db \<Rightarrow> string \<Rightarrow> string option" where
  "row_status d i = map_option tr_status (find_transfer d i)"

text \<open>The status the database shows for a live job.\<close>

definition expected_status :: "bool \<Rightarrow> job \<Rightarrow> string" where
  "expected_status begun j =
     (if j_retry_count j = 0 then (if begun then StatusInProgress else StatusPending) else StatusRetrying)"

definition final_status :: "string \<Rightarrow> bool" where
  "final_status s \<longleftrightarrow> s \<in> {StatusSuccess, StatusFailed}"

definition retries_ok :: "job \<Rightarrow> bool" where
  "retries_ok j \<longleftrightarrow>
     0 \<le> j_retry_count j \<and> (j_retry_count j = 0 \<or> j_retry_count j \<le> j_max_retries j) \<and> in_int64 (j_max_retries j)"

definition jobs_ok ::
  "bool \<Rightarrow> (bool \<times> job) list \<Rightarrow> (string \<Rightarrow> string option) \<Rightarrow> string set \<Rightarrow> bool" where
  "jobs_ok faulty js rs ids \<longleftrightarrow>
     distinct (map (jid \<circ> snd) js) \<and> (jid \<circ> snd) ` set js \<subseteq> ids \<and>
     (\<forall>(b, j) \<in> set js. retries_ok j) \<and> (\<forall>i \<in> ids. rs i \<noteq> None) \<and>
     (\<not> faulty \<longrightarrow>
        (\<forall>(b, j) \<in> set js. rs (jid j) = Some (expected_status b j)) \<and>
        (\<forall>i \<in> ids - (jid \<circ> snd) ` set js. \<exists>s. rs i = Some s \<and> final_status s))"

definition pool_ok :: "bool \<Rightarrow> ('c, 'w) pool \<Rightarrow> bool" where
  "pool_ok faulty p \<longleftrightarrow>
     hub_ok (m_hub (p_m p)) \<and> p_pool p \<noteq> [] \<and> (Exited \<in> set (p_pool p) \<longrightarrow> m_closed (p_m p)) \<and>
     jobs_ok faulty (live p) (row_status (m_db (p_m p))) (p_submitted p)"

definition pool_inv :: "bool \<Rightarrow> panic + ('c, 'w) pool \<Rightarrow> bool" where
  "pool_inv faulty st = (case st of Inl _ \<Rightarrow> False | Inr p \<Rightarrow> pool_ok faulty p)"

text \<open>How much work is left; every step of the pool itself makes it smaller.\<close>

definition retries_left :: "job \<Rightarrow> nat" where
  "retries_left j = nat (j_max_retries j - j_retry_count j)"

fun worker_load :: "worker \<Rightarrow> nat" where
  "worker_load (Fetched j) = 5 * retries_left j + 4"
| "worker_load (Started now j) = 5 * retries_left j + 3"
| "worker_load Idle = 1"
| "worker_load Exited = 0"

definition pool_load :: "('c, 'w) pool \<Rightarrow> nat" where
  "pool_load p =
     sum_list (map (\<lambda>j. 5 * retries_left j + 5) (p_accepting p)) +
     sum_list (map (\<lambda>j. 5 * retries_left j + 4) (m_queue (p_m p))) +
     sum_list (map (\<lambda>(due, j). 5 * retries_left j + 5) (m_timers (p_m p))) +
     sum_list (map worker_load (p_pool p))"

section \<open>Lemmas on single operations\<close>

lemma find_transfer_update:
  "find (\<lambda>r. tr_id r = i) (map (\<lambda>r. if tr_id r = k then update_transfer_row t r else r) rs) =
     map_option (\<lambda>r. if i = k then update_transfer_row t r else r) (find (\<lambda>r. tr_id r = i) rs)"
  by (induction rs) (auto simp: update_transfer_row_def)

lemma row_status_update:
  "row_status (m_db (store_update f t m)) i =
     (if f = None \<and> i = t_id t \<and> row_status (m_db m) i \<noteq> None then Some (t_status t) else row_status (m_db m) i)"
  by (cases f; cases "i = t_id t"; cases "find (\<lambda>r. tr_id r = i) (transfers (m_db m))")
    (auto simp: row_status_def store_update_def UpdateTransfer_def with_fault_def find_transfer_def
      find_transfer_update update_transfer_row_def)

lemma store_update_sel [simp]:
  "m_queue (store_update f t m) = m_queue m" "m_closed (store_update f t m) = m_closed m"
  "m_hub (store_update f t m) = m_hub m" "m_timers (store_update f t m) = m_timers m"
  by (simp_all add: store_update_def split: sum.splits)

lemma row_status_create:
  assumes "CreateTransfer None t d = Inr d'"
  shows "row_status d (t_id t) = None \<and>
     row_status d' i = (if i = t_id t then Some (t_status t) else row_status d i)"
proof -
  from assms have new: "\<forall>r \<in> set (transfers d). tr_id r \<noteq> t_id t"
    and d': "transfers d' = transfers d @ [transfer_to_row t]"
    by (auto simp: CreateTransfer_def with_fault_def list_ex_iff split: if_splits)
  from new have "find (\<lambda>r. tr_id r = t_id t) (transfers d) = None" by (auto simp: find_None_iff)
  moreover have "find (\<lambda>r. tr_id r = i) (transfers d') =
      (case find (\<lambda>r. tr_id r = i) (transfers d) of
         None \<Rightarrow> if i = t_id t then Some (transfer_to_row t) else None | Some r \<Rightarrow> Some r)"
    unfolding d' by (auto simp: find_append_case transfer_to_row_def split: option.splits)
  ultimately show ?thesis
    by (auto simp: row_status_def find_transfer_def transfer_to_row_def split: option.splits)
qed

definition hub_after :: "message \<Rightarrow> ('c, 'w) mstate \<Rightarrow> hub" where
  "hub_after msg m =
     (case mgr_broadcast msg m of Inl _ \<Rightarrow> m_hub m | Inr m' \<Rightarrow> m_hub m')"

lemma mgr_broadcast_eq: "hub_ok (m_hub m) \<Longrightarrow> mgr_broadcast msg m = Inr (m\<lparr>m_hub := hub_after msg m\<rparr>)"
  using hub_ok_Broadcast [of "m_hub m" msg]
  by (auto simp: hub_after_def mgr_broadcast_def hub_inv_def split: sum.splits)

lemma hub_after_ok: "hub_ok (m_hub m) \<Longrightarrow> hub_ok (hub_after msg m)"
  using hub_ok_Broadcast [of "m_hub m" msg]
  by (auto simp: hub_after_def mgr_broadcast_def hub_inv_def split: sum.splits)

lemma doTransfer_frame: "doTransfer M others job m = (r, m') \<Longrightarrow> \<exists>w cs. m' = m\<lparr>m_world := w, m_clients := cs\<rparr>"
  by (intro exI [of _ "m_world m'"] exI [of _ "m_clients m'"] mstate.equality)
    (auto simp: doTransfer_def Let_def split: prod.splits sum.splits option.splits if_splits)

lemma retry_delay_bounds:
  assumes "rnd_ok rnd" "1 \<le> n" "in_int64 n"
  shows "\<exists>d. retry_delay rnd b n = Inr d \<and> minDelay \<le> d \<and> d < maxDelay"
proof -
  from assms have "wrap64 (n - 1) = n - 1"
    by (intro wrap64_id) (auto simp: int64)
  with assms(2) obtain s where s: "shl1 (wrap64 (n - 1)) = Inr s" by (simp add: shl1_def)
  define d0 where "d0 = wrap64 (wrap64 (b * Second) * s)"
  define d1 where "d1 = (if d0 > maxDelay \<or> d0 \<le> 0 then maxDelay else d0)"
  define d2 where "d2 = (if d1 < minDelay then minDelay else d1)"
  have "minDelay \<le> d2" "d2 \<le> maxDelay" by (auto simp: d2_def d1_def)
  moreover have "retry_delay rnd b n =
      (if d2 > minDelay then Inr (minDelay + rnd (d2 - minDelay)) else Inr d2)"
    by (simp add: retry_delay_def s Int63n_def Let_def d0_def d1_def d2_def)
  moreover from assms(1) have "d2 > minDelay \<Longrightarrow> 0 \<le> rnd (d2 - minDelay) \<and> rnd (d2 - minDelay) < d2 - minDelay"
    by (simp add: rnd_ok_def)
  ultimately show ?thesis by (cases "d2 > minDelay") auto
qed

text \<open>A backoff of zero does not mean a short delay: it is taken for an overflow and replaced by the maximum.\<close>

lemma zero_backoff_delay: "1 \<le> n \<Longrightarrow> in_int64 n \<Longrightarrow> retry_delay rnd 0 n = Inr (minDelay + rnd (maxDelay - minDelay))"
proof -
  assume n: "1 \<le> n" "in_int64 n"
  then have "wrap64 (n - 1) = n - 1" by (intro wrap64_id) (auto simp: int64)
  with n show ?thesis by (simp add: retry_delay_def shl1_def Int63n_def wrap64_id int64)
qed

text \<open>Without overflow the delay stays below the exponential value.\<close>

lemma retry_delay_ceiling:
  assumes "rnd_ok rnd" "1 \<le> n" "in_int64 n" and b: "0 < b" and le: "b * Second * 2 ^ nat (n - 1) \<le> maxDelay"
    and d: "retry_delay rnd b n = Inr d"
  shows "d \<le> max minDelay (b * Second * 2 ^ nat (n - 1))"
proof -
  let ?P = "(2::int) ^ nat (n - 1)"
  have P: "1 \<le> ?P" by simp
  have bP: "b \<le> b * ?P" "?P \<le> b * ?P" using b P by (simp_all add: mult_le_cancel_left1 mult_le_cancel_right1)
  have eq: "b * Second * ?P = Second * (b * ?P)" by simp
  with le have "Second * (b * ?P) \<le> Second * 3600" by simp
  then have lim: "b * ?P \<le> 3600" by (rule mult_le_cancel_left_pos [THEN iffD1, rotated]) simp
  have fits: "wrap64 x = x" if "0 \<le> x" "x \<le> Second * 3600" for x
    using that by (intro wrap64_id) (simp add: int64)
  from assms have 1: "wrap64 (n - 1) = n - 1"
    by (intro wrap64_id) (auto simp: int64)
  have 2: "wrap64 ?P = ?P" "wrap64 (b * Second) = b * Second" "wrap64 (b * Second * ?P) = b * Second * ?P"
    using bP lim b P le by (intro fits; linarith?; simp)+
  have pos: "0 < b * Second * ?P" using b by simp
  from assms(1) have "0 < x \<Longrightarrow> rnd x < x" for x by (simp add: rnd_ok_def)
  from this [of "b * Second * ?P - minDelay"] d assms(2) le pos show ?thesis
    by (auto simp: retry_delay_def shl1_def 1 2 Int63n_def Let_def max_def split: if_splits)
qed

text \<open>What the first half of \<open>process\<close> does, in a state whose hub is sound.\<close>

lemma process_start_ok:
  assumes "hub_ok (m_hub m)"
  shows "\<exists>job' m'. process_start e job m = Inr (job', m') \<and> hub_ok (m_hub m') \<and> m_queue m' = m_queue m \<and>
     m_closed m' = m_closed m \<and> m_timers m' = m_timers m \<and> jid job' = jid job \<and>
     j_retry_count job' = j_retry_count job \<and> j_max_retries job' = j_max_retries job \<and>
     (\<forall>i. row_status (m_db m') i =
        (if j_retry_count job = 0 \<and> te_fault e = None \<and> i = jid job \<and> row_status (m_db m) i \<noteq> None
         then Some StatusInProgress else row_status (m_db m) i))"
proof (cases "j_retry_count job = 0")
  case True
  with assms show ?thesis
    by (simp add: process_start_def Let_def mgr_broadcast_eq hub_after_ok row_status_update)
qed (use assms in \<open>simp add: process_start_def\<close>)

text \<open>
  What the second half does: a retry is armed, with the count one higher, or the job is over.
  Either way only this job's row changes.
\<close>

definition row_upd :: "bool \<Rightarrow> string \<Rightarrow> string \<Rightarrow> (string \<Rightarrow> string option) \<Rightarrow> string \<Rightarrow> string option" where
  "row_upd faultless i s rs = (\<lambda>k. if faultless \<and> k = i \<and> rs k \<noteq> None then Some s else rs k)"

lemma scheduleRetry_ok:
  assumes "hub_ok (m_hub m)" "rnd_ok (te_rnd e)" "retries_ok job" "j_retry_count job < j_max_retries job"
  shows "\<exists>due job' m'. scheduleRetry e job err m = Inr m' \<and> hub_ok (m_hub m') \<and> m_queue m' = m_queue m \<and>
     m_closed m' = m_closed m \<and> m_timers m' = m_timers m @ [(due, job')] \<and> jid job' = jid job \<and>
     j_retry_count job' = j_retry_count job + 1 \<and> j_max_retries job' = j_max_retries job \<and>
     row_status (m_db m') = row_upd (te_fault e = None) (jid job) StatusRetrying (row_status (m_db m))"
proof -
  let ?n = "j_retry_count job + 1"
  have n: "1 \<le> ?n" "in_int64 ?n"
    using assms(3,4) by (auto simp: retries_ok_def int64)
  from retry_delay_bounds [OF assms(2) n] obtain d where
    d: "retry_delay (te_rnd e) (j_backoff_secs job) ?n = Inr d" by blast
  from assms(1) show ?thesis
    by (simp add: scheduleRetry_def Let_def d wrap64_id [OF n(2)] mgr_broadcast_eq hub_after_ok
        row_status_update row_upd_def fun_eq_iff)
qed

lemma fail_ok:
  assumes "hub_ok (m_hub m)"
  shows "\<exists>m'. fail e t key err m = Inr m' \<and> hub_ok (m_hub m') \<and> m_queue m' = m_queue m \<and>
     m_closed m' = m_closed m \<and> m_timers m' = m_timers m \<and>
     row_status (m_db m') = row_upd (te_fault e = None) (t_id t) StatusFailed (row_status (m_db m))"
  using assms
  by (simp add: fail_def Let_def mgr_broadcast_eq hub_after_ok row_status_update row_upd_def fun_eq_iff)

lemma process_finish_ok:
  assumes hub: "hub_ok (m_hub m)" and rnd: "rnd_ok (te_rnd e)" and rt: "retries_ok job"
  obtains (retry) m' due job' where "process_finish M e now job m = Inr m'" "hub_ok (m_hub m')"
      "m_queue m' = m_queue m" "m_closed m' = m_closed m" "m_timers m' = m_timers m @ [(due, job')]"
      "jid job' = jid job" "j_retry_count job < j_max_retries job" "j_retry_count job' = j_retry_count job + 1"
      "j_max_retries job' = j_max_retries job"
      "row_status (m_db m') = row_upd (te_fault e = None) (jid job) StatusRetrying (row_status (m_db m))"
  | (over) m' s where "process_finish M e now job m = Inr m'" "hub_ok (m_hub m')"
      "m_queue m' = m_queue m" "m_closed m' = m_closed m" "m_timers m' = m_timers m" "final_status s"
      "row_status (m_db m') = row_upd (te_fault e = None) (jid job) s (row_status (m_db m))"
proof -
  obtain r m1 where dt: "doTransfer M (te_others e) job m = (r, m1)" by force
  from doTransfer_frame [OF dt] have m1: "hub_ok (m_hub m1)" "m_queue m1 = m_queue m" "m_closed m1 = m_closed m"
    "m_timers m1 = m_timers m" "m_db m1 = m_db m" using hub by auto
  show ?thesis
  proof (cases r)
    case None
    with m1 have "\<exists>m'. process_finish M e now job m = Inr m' \<and> hub_ok (m_hub m') \<and> m_queue m' = m_queue m \<and>
        m_closed m' = m_closed m \<and> m_timers m' = m_timers m \<and>
        row_status (m_db m') = row_upd (te_fault e = None) (jid job) StatusSuccess (row_status (m_db m))"
      by (simp add: process_finish_def dt Let_def mgr_broadcast_eq hub_after_ok row_status_update row_upd_def fun_eq_iff)
    then show ?thesis using over [of _ StatusSuccess] by (auto simp: final_status_def)
  next
    case (Some err)
    show ?thesis
    proof (cases "j_retry_count job < j_max_retries job")
      case True
      then have "process_finish M e now job m = scheduleRetry e job err m1"
        by (simp add: process_finish_def dt Some)
      with scheduleRetry_ok [OF m1(1) rnd rt True, of err] m1 True show ?thesis by (auto intro: retry)
    next
      case False
      then have "process_finish M e now job m = fail e (j_transfer job) (j_object_key job) err m1"
        by (simp add: process_finish_def dt Some)
      with fail_ok [OF m1(1), of e "j_transfer job" "j_object_key job" err] m1 show ?thesis
        using over [of _ StatusFailed] by (auto simp: final_status_def)
    qed
  qed
qed

section \<open>The invariant of the pool\<close>

lemma jobs_ok_perm:
  assumes "mset js = mset js'"
  shows "jobs_ok f js rs ids \<longleftrightarrow> jobs_ok f js' rs ids"
proof -
  from assms have "set js = set js'" by (rule mset_eq_setD)
  moreover from assms have "distinct (map (jid \<circ> snd) js) \<longleftrightarrow> distinct (map (jid \<circ> snd) js')"
    by (intro mset_eq_imp_distinct_iff) (metis mset_map)
  ultimately show ?thesis by (simp add: jobs_ok_def)
qed

lemma jobs_ok_same:
  "jobs_ok f ((b, j) # L) rs ids \<Longrightarrow> jid j' = jid j \<Longrightarrow> retries_ok j' \<Longrightarrow>
   expected_status b' j' = expected_status b j \<Longrightarrow> jobs_ok f ((b', j') # L) rs ids"
  by (auto simp: jobs_ok_def)

lemma jobs_ok_replace:
  assumes "jobs_ok f ((b, j) # L) rs ids" "jid j' = jid j" "retries_ok j'"
    "\<not> f \<longrightarrow> ok \<and> s = expected_status b' j'"
  shows "jobs_ok f ((b', j') # L) (row_upd ok (jid j) s rs) ids"
proof -
  from assms(1) have "jid j \<notin> (jid \<circ> snd) ` set L" by (simp add: jobs_ok_def)
  then have "\<forall>(b, k) \<in> set L. jid k \<noteq> jid j" by force
  with assms show ?thesis by (auto simp: jobs_ok_def row_upd_def)
qed

lemma jobs_ok_drop:
  assumes "jobs_ok f ((b, j) # L) rs ids" "final_status s" "\<not> f \<longrightarrow> ok"
  shows "jobs_ok f L (row_upd ok (jid j) s rs) ids"
proof -
  from assms(1) have "jid j \<notin> (jid \<circ> snd) ` set L" by (simp add: jobs_ok_def)
  then have "\<forall>(b, k) \<in> set L. jid k \<noteq> jid j" by force
  with assms show ?thesis by (auto simp: jobs_ok_def row_upd_def)
qed

lemma jobs_ok_add:
  assumes "jobs_ok f L rs ids" "rs (jid j) = None" "retries_ok j" "s = expected_status False j"
  shows "jobs_ok f ((False, j) # L) (\<lambda>i. if i = jid j then Some s else rs i) (insert (jid j) ids)"
proof -
  from assms(1,2) have "jid j \<notin> ids" by (auto simp: jobs_ok_def)
  moreover from this assms(1) have "jid k \<noteq> jid j" if "(b, k) \<in> set L" for b k
    using that by (auto simp: jobs_ok_def)
  ultimately show ?thesis
    using assms by (auto simp: jobs_ok_def)
qed

text \<open>A live job's place in the list does not matter.\<close>

lemma mset_live:
  "mset (live p) =
     mset (map (Pair False) (p_accepting p)) + mset (map (Pair False) (m_queue (p_m p))) +
     mset (map (\<lambda>(due, j). (False, j)) (m_timers (p_m p))) + mset (concat (map busy (p_pool p)))"
  by (simp add: live_def)

lemma pool_ok_retries: "pool_ok f p \<Longrightarrow> (b, j) \<in> set (live p) \<Longrightarrow> retries_ok j"
  by (auto simp: pool_ok_def jobs_ok_def)

lemma pool_ok_jobs:
  assumes "pool_ok f p" "mset (live p) = mset js"
  shows "jobs_ok f js (row_status (m_db (p_m p))) (p_submitted p)"
proof -
  from assms(1) have "jobs_ok f (live p) (row_status (m_db (p_m p))) (p_submitted p)"
    by (simp add: pool_ok_def)
  with jobs_ok_perm [OF assms(2)] show ?thesis by blast
qed

lemma pool_ok_enqueue:
  assumes "pool_ok f p" "p_accepting p = as @ job # bs"
  shows "pool_ok f (p\<lparr>p_m := Enqueue job (p_m p), p_accepting := as @ bs\<rparr>)"
proof -
  let ?p = "p\<lparr>p_m := Enqueue job (p_m p), p_accepting := as @ bs\<rparr>"
  have "mset (live p) = mset (live ?p)" using assms(2) by (simp add: mset_live Enqueue_def)
  from jobs_ok_perm [OF this] assms show ?thesis by (simp add: pool_ok_def Enqueue_def)
qed

lemma pool_ok_take:
  assumes "pool_ok f p" "p_pool p = us @ Idle # vs" "next_job (p_m p) = Some (Some job, m)"
  shows "pool_ok f (p\<lparr>p_m := m, p_pool := us @ Fetched job # vs\<rparr>)"
proof -
  let ?p = "p\<lparr>p_m := m, p_pool := us @ Fetched job # vs\<rparr>"
  from assms(3) have m: "m_queue (p_m p) = job # m_queue m" "m = (p_m p)\<lparr>m_queue := m_queue m\<rparr>"
    by (auto simp: next_job_def split: list.splits if_splits)
  then have sel: "m_hub m = m_hub (p_m p)" "m_closed m = m_closed (p_m p)" "m_db m = m_db (p_m p)"
    "m_timers m = m_timers (p_m p)" by (metis mstate.select_convs mstate.surjective mstate.update_convs(1))+
  have "mset (live p) = mset (live ?p)" using assms(2) m(1) sel by (simp add: mset_live)
  from jobs_ok_perm [OF this] assms sel show ?thesis by (auto simp: pool_ok_def)
qed

lemma pool_ok_exit:
  assumes "pool_ok f p" "p_pool p = us @ Idle # vs" "next_job (p_m p) = Some (None, m)"
  shows "pool_ok f (p\<lparr>p_m := m, p_pool := us @ Exited # vs\<rparr>)"
proof -
  from assms(3) have m: "m = p_m p" "m_closed m" by (auto simp: next_job_def split: list.splits if_splits)
  with assms show ?thesis by (auto simp: pool_ok_def live_def)
qed

lemma pool_ok_timer:
  assumes "pool_ok f p" "m_timers (p_m p) = xs @ (due, job) # ys"
  shows "pool_ok f (p\<lparr>p_m := retry_fire job ((p_m p)\<lparr>m_timers := xs @ ys\<rparr>)\<rparr>)"
proof -
  let ?p = "p\<lparr>p_m := retry_fire job ((p_m p)\<lparr>m_timers := xs @ ys\<rparr>)\<rparr>"
  let ?R = "map (Pair False) (p_accepting p) @ map (Pair False) (m_queue (p_m p)) @
     map (\<lambda>(due, j). (False, j)) (xs @ ys) @ concat (map busy (p_pool p))"
  obtain t where t: "m_queue (p_m ?p) = m_queue (p_m p) @ [job\<lparr>j_transfer := t\<rparr>]" "t_id t = jid job"
    by (simp add: retry_fire_def Let_def Enqueue_def)
  have sel: "m_timers (p_m ?p) = xs @ ys" "m_hub (p_m ?p) = m_hub (p_m p)" "m_db (p_m ?p) = m_db (p_m p)"
    "m_closed (p_m ?p) = m_closed (p_m p)"
    by (simp_all add: retry_fire_def Let_def Enqueue_def)
  have "mset (live p) = mset ((False, job) # ?R)" using assms(2) by (simp add: mset_live)
  with assms(1) have "jobs_ok f ((False, job) # ?R) (row_status (m_db (p_m p))) (p_submitted p)"
    by (rule pool_ok_jobs)
  moreover have "jid (job\<lparr>j_transfer := t\<rparr>) = jid job" using t(2) by simp
  moreover have "retries_ok (job\<lparr>j_transfer := t\<rparr>)"
    using pool_ok_retries [OF assms(1), of False job] assms(2) by (auto simp: live_def retries_ok_def)
  moreover have "expected_status False (job\<lparr>j_transfer := t\<rparr>) = expected_status False job"
    by (simp add: expected_status_def)
  ultimately have "jobs_ok f ((False, job\<lparr>j_transfer := t\<rparr>) # ?R) (row_status (m_db (p_m p))) (p_submitted p)"
    by (rule jobs_ok_same)
  moreover have "mset ((False, job\<lparr>j_transfer := t\<rparr>) # ?R) = mset (live ?p)"
    using t(1) sel(1) by (simp add: mset_live)
  ultimately have "jobs_ok f (live ?p) (row_status (m_db (p_m p))) (p_submitted p)"
    using jobs_ok_perm by blast
  with assms(1) sel show ?thesis by (simp add: pool_ok_def)
qed

text \<open>The jobs other than the one of a given worker.\<close>

definition others_live :: "('c, 'w) mstate \<Rightarrow> job list \<Rightarrow> worker list \<Rightarrow> (bool \<times> job) list" where
  "others_live m acc ws =
     map (Pair False) acc @ map (Pair False) (m_queue m) @ map (\<lambda>(due, j). (False, j)) (m_timers m) @
     concat (map busy ws)"

lemma mset_live_worker:
  "p_pool p = us @ W # vs \<Longrightarrow> mset (live p) = mset (busy W @ others_live (p_m p) (p_accepting p) (us @ vs))"
  by (simp add: mset_live others_live_def)

lemma pool_ok_start:
  assumes ok: "pool_ok f p" and pool: "p_pool p = us @ Fetched job # vs" and e: "env_ok f e"
  shows "pool_inv f (map_sum id (\<lambda>(job', m). p\<lparr>p_m := m, p_pool := us @ Started (te_now e) job' # vs\<rparr>)
           (process_start e job (p_m p)))"
proof -
  let ?R = "others_live (p_m p) (p_accepting p) (us @ vs)"
  from ok have hub: "hub_ok (m_hub (p_m p))" by (simp add: pool_ok_def)
  from process_start_ok [OF hub, of e job] obtain job' m where ps: "process_start e job (p_m p) = Inr (job', m)"
    and m: "hub_ok (m_hub m)" "m_queue m = m_queue (p_m p)" "m_closed m = m_closed (p_m p)" "m_timers m = m_timers (p_m p)"
    and job': "jid job' = jid job" "j_retry_count job' = j_retry_count job" "j_max_retries job' = j_max_retries job"
    and rs: "row_status (m_db m) = (if j_retry_count job = 0
        then row_upd (te_fault e = None) (jid job) StatusInProgress (row_status (m_db (p_m p)))
        else row_status (m_db (p_m p)))"
    by (auto simp: row_upd_def fun_eq_iff)
  let ?p = "p\<lparr>p_m := m, p_pool := us @ Started (te_now e) job' # vs\<rparr>"
  from mset_live_worker [OF pool] have "mset (live p) = mset ((False, job) # ?R)" by simp
  with ok have J: "jobs_ok f ((False, job) # ?R) (row_status (m_db (p_m p))) (p_submitted p)"
    by (rule pool_ok_jobs)
  have r: "retries_ok job'"
    using pool_ok_retries [OF ok, of False job] pool job' by (auto simp: live_def retries_ok_def)
  have "jobs_ok f ((True, job') # ?R) (row_status (m_db m)) (p_submitted p)"
  proof (cases "j_retry_count job = 0")
    case True
    with job' e have "\<not> f \<longrightarrow> te_fault e = None \<and> StatusInProgress = expected_status True job'"
      by (auto simp: expected_status_def env_ok_def)
    with True rs jobs_ok_replace [OF J job'(1) r] show ?thesis by simp
  next
    case False
    with job' have "expected_status True job' = expected_status False job" by (simp add: expected_status_def)
    with False rs jobs_ok_same [OF J job'(1) r] show ?thesis by simp
  qed
  moreover have "mset ((True, job') # ?R) = mset (live ?p)"
    using m by (simp add: mset_live others_live_def)
  ultimately have "jobs_ok f (live ?p) (row_status (m_db m)) (p_submitted p)" using jobs_ok_perm by blast
  with ok m pool ps show ?thesis by (auto simp: pool_inv_def pool_ok_def)
qed

lemma pool_ok_finish:
  assumes ok: "pool_ok f p" and pool: "p_pool p = us @ Started now job # vs" and e: "env_ok f e"
  shows "pool_inv f (map_sum id (\<lambda>m. p\<lparr>p_m := m, p_pool := us @ Idle # vs\<rparr>) (process_finish M e now job (p_m p)))"
proof -
  let ?R = "others_live (p_m p) (p_accepting p) (us @ vs)"
  from ok have hub: "hub_ok (m_hub (p_m p))" by (simp add: pool_ok_def)
  from e have rnd: "rnd_ok (te_rnd e)" and fault: "\<not> f \<longrightarrow> te_fault e = None" by (auto simp: env_ok_def)
  have r: "retries_ok job" using pool_ok_retries [OF ok, of True job] pool by (simp add: live_def)
  from mset_live_worker [OF pool] have "mset (live p) = mset ((True, job) # ?R)" by simp
  with ok have J: "jobs_ok f ((True, job) # ?R) (row_status (m_db (p_m p))) (p_submitted p)"
    by (rule pool_ok_jobs)
  from hub rnd r show ?thesis
  proof (cases rule: process_finish_ok [where M = M and now = now])
    case (retry m due job')
    let ?p = "p\<lparr>p_m := m, p_pool := us @ Idle # vs\<rparr>"
    have "jobs_ok f ((False, job') # ?R) (row_status (m_db m)) (p_submitted p)"
      unfolding retry(10) using r retry fault
      by (intro jobs_ok_replace [OF J]) (auto simp: retries_ok_def expected_status_def)
    moreover have "mset ((False, job') # ?R) = mset (live ?p)"
      using retry by (simp add: mset_live others_live_def)
    ultimately have "jobs_ok f (live ?p) (row_status (m_db m)) (p_submitted p)" using jobs_ok_perm by blast
    with ok retry pool show ?thesis by (auto simp: pool_inv_def pool_ok_def)
  next
    case (over m s)
    let ?p = "p\<lparr>p_m := m, p_pool := us @ Idle # vs\<rparr>"
    have "jobs_ok f ?R (row_status (m_db m)) (p_submitted p)"
      unfolding over(7) using over(6) fault by (intro jobs_ok_drop [OF J]) auto
    moreover have "mset ?R = mset (live ?p)"
      using over by (simp add: mset_live others_live_def)
    ultimately have "jobs_ok f (live ?p) (row_status (m_db m)) (p_submitted p)" using jobs_ok_perm by blast
    with ok over pool show ?thesis by (auto simp: pool_inv_def pool_ok_def)
  qed
qed

lemma pool_inv_work: "work_step M f st st' \<Longrightarrow> pool_inv f st \<Longrightarrow> pool_inv f st'"
proof (induction rule: work_step.induct)
  case (start p us job vs e)
  then show ?case by (intro pool_ok_start) (auto simp: pool_inv_def)
next
  case (finish p us now job vs e)
  then show ?case by (intro pool_ok_finish) (auto simp: pool_inv_def)
qed (simp_all add: pool_inv_def pool_ok_enqueue pool_ok_take pool_ok_exit pool_ok_timer)

lemma pool_ok_create:
  assumes ok: "pool_ok f p" and c: "CreateTransfer None (j_transfer job) (m_db (p_m p)) = Inr d"
    and job: "t_status (j_transfer job) = StatusPending" "j_retry_count job = 0" "in_int64 (j_max_retries job)"
  shows "pool_ok f (p\<lparr>p_m := (p_m p)\<lparr>m_db := d\<rparr>, p_accepting := p_accepting p @ [job],
             p_submitted := insert (jid job) (p_submitted p)\<rparr>)"
proof -
  let ?p = "p\<lparr>p_m := (p_m p)\<lparr>m_db := d\<rparr>, p_accepting := p_accepting p @ [job],
             p_submitted := insert (jid job) (p_submitted p)\<rparr>"
  from row_status_create [OF c] have new: "row_status (m_db (p_m p)) (jid job) = None"
    and rs: "row_status d = (\<lambda>i. if i = jid job then Some StatusPending else row_status (m_db (p_m p)) i)"
    by (auto simp: job)
  from ok have "jobs_ok f (live p) (row_status (m_db (p_m p))) (p_submitted p)" by (simp add: pool_ok_def)
  then have "jobs_ok f ((False, job) # live p) (row_status d) (insert (jid job) (p_submitted p))"
    unfolding rs using new job by (intro jobs_ok_add) (auto simp: retries_ok_def expected_status_def)
  moreover have "mset ((False, job) # live p) = mset (live ?p)" by (simp add: mset_live)
  ultimately have "jobs_ok f (live ?p) (row_status d) (insert (jid job) (p_submitted p))"
    using jobs_ok_perm by blast
  with ok show ?thesis by (simp add: pool_ok_def)
qed

lemma row_status_transfers: "transfers d = transfers d' \<Longrightarrow> row_status d = row_status d'"
  by (simp add: row_status_def find_transfer_def fun_eq_iff)

lemma pool_inv_step: "pool_step M f st st' \<Longrightarrow> pool_inv f st \<Longrightarrow> pool_inv f st'"
proof (induction rule: pool_step.induct)
  case (hub_moves p h)
  with hub_inv_step [OF hub_moves(1)] show ?case by (simp add: pool_inv_def hub_inv_def pool_ok_def live_def)
next
  case (db_other d p)
  with row_status_transfers [OF db_other(1)] show ?case by (simp add: pool_inv_def pool_ok_def live_def)
next
  case (work st st')
  then show ?case by (rule pool_inv_work)
next
  case (create job p d)
  then show ?case using pool_ok_create [of f p job d] by (simp add: pool_inv_def)
qed (simp_all add: pool_inv_def pool_ok_def live_def Stop_def)

lemma pool_inv_init: "pool_init st \<Longrightarrow> pool_inv f st"
  using hub_sys.reach_inv [OF reach_init, of "Inr NewHub"]
  by (auto simp: pool_init_def pool_inv_def pool_ok_def jobs_ok_def Start_def NewManager_def live_def hub_inv_def)

interpretation pool_sys: invariant_system pool_init "pool_step M f" "pool_inv f" for M f
  by unfold_locales (auto intro: pool_inv_init pool_inv_step)

text \<open>The job queue is a first-in first-out queue without a bound.\<close>

definition queue_pop :: "('c, 'w) mstate \<Rightarrow> (job \<times> ('c, 'w) mstate) option" where
  "queue_pop m = (case next_job m of Some (Some job, m') \<Rightarrow> Some (job, m') | _ \<Rightarrow> None)"

interpretation jobq: fifo_queue "\<lambda>m job. Some (Enqueue job m)" queue_pop m_queue "\<lambda>_. True"
  by unfold_locales
    (auto simp: Enqueue_def queue_pop_def next_job_def split: list.splits if_splits)

section \<open>Termination and progress\<close>

lemma next_job_Some: "next_job m = Some (Some job, m') \<Longrightarrow> m_queue m = job # m_queue m' \<and> m_timers m' = m_timers m"
  by (intro conjI jobq.pop_Some) (auto simp: queue_pop_def next_job_def split: list.splits if_splits)

lemma next_job_None: "next_job m = Some (None, m') \<Longrightarrow> m' = m \<and> m_queue m = []"
  by (auto simp: next_job_def split: list.splits if_splits)

lemma load_start:
  assumes "pool_ok f p" "p_pool p = us @ Fetched job # vs"
    "map_sum id (\<lambda>(job', m). p\<lparr>p_m := m, p_pool := us @ Started now job' # vs\<rparr>) (process_start e job (p_m p)) = Inr p'"
  shows "pool_load p' < pool_load p"
proof -
  from assms(1) have hub: "hub_ok (m_hub (p_m p))" by (simp add: pool_ok_def)
  from process_start_ok [OF hub, of e job] obtain job' m where "process_start e job (p_m p) = Inr (job', m)"
    "m_queue m = m_queue (p_m p)" "m_timers m = m_timers (p_m p)"
    "j_retry_count job' = j_retry_count job" "j_max_retries job' = j_max_retries job" by auto
  with assms show ?thesis by (auto simp: pool_load_def retries_left_def)
qed

lemma load_finish:
  assumes ok: "pool_ok f p" and pool: "p_pool p = us @ Started now job # vs" and e: "env_ok f e"
    and run: "map_sum id (\<lambda>m. p\<lparr>p_m := m, p_pool := us @ Idle # vs\<rparr>) (process_finish M e now job (p_m p)) = Inr p'"
  shows "pool_load p' < pool_load p"
proof -
  from ok have hub: "hub_ok (m_hub (p_m p))" by (simp add: pool_ok_def)
  from e have rnd: "rnd_ok (te_rnd e)" by (simp add: env_ok_def)
  have r: "retries_ok job" using pool_ok_retries [OF ok, of True job] pool by (simp add: live_def)
  from hub rnd r show ?thesis
  proof (cases rule: process_finish_ok [where M = M and now = now])
    case (retry m due job')
    then have "5 * retries_left job' + 5 = 5 * retries_left job" by (simp add: retries_left_def)
    with retry run pool show ?thesis by (auto simp: pool_load_def)
  next
    case (over m s)
    with run pool show ?thesis by (auto simp: pool_load_def)
  qed
qed

lemma work_decreases:
  "work_step M f st st' \<Longrightarrow> st = Inr p \<Longrightarrow> st' = Inr p' \<Longrightarrow> pool_ok f p \<Longrightarrow> pool_load p' < pool_load p"
proof (induction rule: work_step.induct)
  case (start q us job vs e)
  then show ?case by (auto intro: load_start)
next
  case (finish q us now job vs e)
  then show ?case by (auto intro: load_finish)
next
  case (timer q xs due job ys)
  then show ?case by (auto simp: pool_load_def retry_fire_def Let_def Enqueue_def retries_left_def)
qed (auto simp: pool_load_def Enqueue_def dest!: next_job_Some next_job_None)

lemma work_no_infinite:
  assumes "pool_inv f (\<sigma> 0)" "\<forall>i. work_step M f (\<sigma> i) (\<sigma> (Suc i))"
  shows False
proof -
  have inv: "pool_inv f (\<sigma> i)" for i
    by (induction i) (use assms pool_inv_work in blast)+
  define load where "load i = (case \<sigma> i of Inl _ \<Rightarrow> 0 | Inr p \<Rightarrow> pool_load p)" for i
  have "load (Suc i) < load i" for i
  proof -
    from inv [of i] inv [of "Suc i"] obtain p p' where "\<sigma> i = Inr p" "\<sigma> (Suc i) = Inr p'" "pool_ok f p"
      by (auto simp: pool_inv_def split: sum.splits)
    with work_decreases [OF assms(2) [rule_format, of i]] show ?thesis by (simp add: load_def)
  qed
  with no_descent [of load] show False by blast
qed

lemma work_terminates:
  assumes "pool_ok f p"
  shows "\<not> (\<exists>\<sigma>. \<sigma> 0 = Inr p \<and> (\<forall>i. work_step M f (\<sigma> i) (\<sigma> (Suc i))))"
proof (intro notI, elim exE conjE)
  fix \<sigma> assume "\<sigma> 0 = Inr p" "\<forall>i. work_step M f (\<sigma> i) (\<sigma> (Suc i))"
  with assms show False by (intro work_no_infinite [of f \<sigma> M]) (simp_all add: pool_inv_def)
qed

text \<open>An environment in which nothing fails.\<close>

definition calm_env :: "'c tenv" where
  "calm_env = \<lparr>te_now = 0, te_later = 0, te_stamp = 0, te_fault = None, te_rnd = (\<lambda>_. 0), te_others = (\<lambda>m. m)\<rparr>"

lemma calm_env_ok: "env_ok f calm_env"
  by (simp add: env_ok_def calm_env_def rnd_ok_def)


lemma work_keeps:
  "work_step M f st st' \<Longrightarrow> st = Inr p \<Longrightarrow> st' = Inr p' \<Longrightarrow> pool_ok f p \<Longrightarrow>
   m_closed (p_m p') = m_closed (p_m p) \<and> p_submitted p' = p_submitted p"
proof (induction rule: work_step.induct)
  case (start q us job vs e)
  from start have "hub_ok (m_hub (p_m q))" by (simp add: pool_ok_def)
  from process_start_ok [OF this, of e job] start show ?case by auto
next
  case (finish q us now job vs e)
  then have hub: "hub_ok (m_hub (p_m q))" and rnd: "rnd_ok (te_rnd e)" and r: "retries_ok job"
    using pool_ok_retries [of f q True job] by (auto simp: pool_ok_def env_ok_def live_def)
  from hub rnd r show ?case
    by (cases rule: process_finish_ok [where M = M and now = now]) (use finish in auto)
next
  case (take q us vs job m)
  then show ?case by (auto simp: next_job_def split: list.splits if_splits)
next
  case (exit q us vs m)
  then show ?case by (auto dest: next_job_None)
qed (auto simp: Enqueue_def retry_fire_def Let_def)

lemma works_keep:
  assumes "(work_step M f)\<^sup>*\<^sup>* (Inr p) st" "pool_ok f p"
  shows "\<exists>p'. st = Inr p' \<and> pool_ok f p' \<and> m_closed (p_m p') = m_closed (p_m p) \<and> p_submitted p' = p_submitted p"
  using assms
proof (induction rule: rtranclp_induct)
  case (step st st')
  then obtain q where q: "st = Inr q" "pool_ok f q" "m_closed (p_m q) = m_closed (p_m p)" "p_submitted q = p_submitted p"
    by blast
  with pool_inv_work [OF step(2)] obtain q' where "st' = Inr q'" "pool_ok f q'"
    by (auto simp: pool_inv_def split: sum.splits)
  with work_keeps [OF step(2) q(1)] q show ?case by auto
qed simp


text \<open>
  A step of the pool writes at most one row, that of a live job, with one of the five statuses; under a cancelled
  context it is never success.
\<close>

definition db_upd :: "string set \<Rightarrow> string \<Rightarrow> db \<Rightarrow> db \<Rightarrow> bool" where
  "db_upd S i d d' \<longleftrightarrow>
     d' = d \<or> (\<exists>t. t_id t = i \<and> t_status t \<in> S \<and> UpdateTransfer None t d = Inr d')"

definition work_statuses :: "('c, 'o, 'w) minio_lib \<Rightarrow> string set" where
  "work_statuses M = (if cancelled M then valid_statuses - {StatusSuccess} else valid_statuses)"

lemma work_statuses_other:
  "{StatusInProgress, StatusRetrying, StatusFailed} \<subseteq> work_statuses M" "work_statuses M \<subseteq> valid_statuses"
  by (auto simp: work_statuses_def valid_statuses_def)

lemma db_upd_mono: "db_upd S i d d' \<Longrightarrow> S \<subseteq> S' \<Longrightarrow> db_upd S' i d d'"
  by (auto simp: db_upd_def)

lemma db_upd_store:
  "t_status t \<in> S \<Longrightarrow> t_id t = i \<Longrightarrow> db_upd S i (m_db m) (m_db (store_update f t m))"
  by (cases f) (auto simp: db_upd_def store_update_def UpdateTransfer_def)

lemma mgr_broadcast_db: "mgr_broadcast msg m = Inr m' \<Longrightarrow> m_db m' = m_db m"
  by (auto simp: mgr_broadcast_def split: if_splits sum.splits)

lemma process_start_db: "process_start e job m = Inr (job', m') \<Longrightarrow> db_upd {StatusInProgress} (jid job) (m_db m) (m_db m')"
  by (auto simp: process_start_def Let_def dest!: mgr_broadcast_db split: if_splits sum.splits
      intro!: db_upd_store) (simp add: db_upd_def)

lemma scheduleRetry_db: "scheduleRetry e job err m = Inr m' \<Longrightarrow> db_upd {StatusRetrying} (jid job) (m_db m) (m_db m')"
  by (auto simp: scheduleRetry_def Let_def dest!: mgr_broadcast_db split: sum.splits intro!: db_upd_store)

lemma fail_db: "fail e t key err m = Inr m' \<Longrightarrow> db_upd {StatusFailed} (t_id t) (m_db m) (m_db m')"
  by (auto simp: fail_def Let_def dest!: mgr_broadcast_db intro!: db_upd_store)

lemma db_upd_work: "db_upd {s} i d d' \<Longrightarrow> s \<in> {StatusInProgress, StatusRetrying, StatusFailed} \<Longrightarrow> db_upd (work_statuses M) i d d'"
  using work_statuses_other(1) [of M] by (auto elim: db_upd_mono)

lemma doTransfer_cancelled: "cancelled M \<Longrightarrow> doTransfer M others job m = (r, m') \<Longrightarrow> r \<noteq> None"
  using GetObject_cancelled [of M others "a_src (j_app job)" "j_object_key job" "m_world m" "m_clients m"]
  by (auto simp: doTransfer_def)

lemma process_finish_db:
  assumes "process_finish M e now job m = Inr m'"
  shows "db_upd (work_statuses M) (jid job) (m_db m) (m_db m')"
proof -
  obtain r m1 where dt: "doTransfer M (te_others e) job m = (r, m1)" by force
  from doTransfer_frame [OF dt] have [simp]: "m_db m1 = m_db m" by auto
  show ?thesis
  proof (cases r)
    case None
    let ?t = "(j_transfer job)\<lparr>t_status := StatusSuccess, t_bytes_transferred := t_object_size (j_transfer job),
        t_completed_at := Some (te_later e), t_duration_ms := rat_of_int (go_div (time_sub (te_later e) now) Millisecond)\<rparr>"
    from None assms have "m_db m' = m_db (store_update (te_fault e) ?t m1)"
      by (auto simp: process_finish_def dt Let_def dest!: mgr_broadcast_db)
    moreover from None dt have "\<not> cancelled M" using doTransfer_cancelled by blast
    ultimately show ?thesis using db_upd_store [of ?t "work_statuses M" "jid job" m1 "te_fault e"]
      by (simp add: work_statuses_def valid_statuses_def)
  next
    case (Some err)
    with assms scheduleRetry_db [of e job err m1 m'] fail_db [of e "j_transfer job" "j_object_key job" err m1 m']
    show ?thesis by (auto simp: process_finish_def dt split: if_splits elim!: db_upd_work)
  qed
qed

lemma work_step_db:
  assumes "work_step M f (Inr p) (Inr p')"
  shows "m_db (p_m p') = m_db (p_m p) \<or> (\<exists>b j. (b, j) \<in> set (live p) \<and> db_upd (work_statuses M) (jid j) (m_db (p_m p)) (m_db (p_m p')))"
  using assms
proof (cases rule: work_step.cases)
  case (start us job vs e)
  then obtain job' m where "process_start e job (p_m p) = Inr (job', m)" "p_m p' = m"
    by (cases "process_start e job (p_m p)") auto
  moreover have "(False, job) \<in> set (live p)" using start by (simp add: live_def)
  ultimately show ?thesis using db_upd_work [OF process_start_db] by blast
next
  case (finish us now job vs e)
  then obtain m where "process_finish M e now job (p_m p) = Inr m" "p_m p' = m"
    by (cases "process_finish M e now job (p_m p)") auto
  moreover have "(True, job) \<in> set (live p)" using finish by (simp add: live_def)
  ultimately show ?thesis using process_finish_db by blast
next
  case (take us vs job m)
  then show ?thesis by (auto simp: next_job_def split: list.splits if_splits)
next
  case (exit us vs m)
  then show ?thesis by (auto dest: next_job_None)
qed (auto simp: Enqueue_def retry_fire_def Let_def)

lemma expected_active: "active_status (expected_status b j)"
  by (simp add: expected_status_def active_status_def)

text \<open>
  What holds of the tables while the program runs: the constraints of the schema, only the five statuses and, unless the
  engine fails, at most one unfinished transfer per object. The pool keeps it.
\<close>

definition tables_ok :: "bool \<Rightarrow> db \<Rightarrow> bool" where
  "tables_ok faulty d \<longleftrightarrow>
     db_ok d \<and> (\<not> faulty \<longrightarrow> unique_active (find_transfer d)) \<and> (\<forall>r \<in> set (transfers d). tr_status r \<in> valid_statuses)"

lemma UpdateTransfer_statuses:
  "UpdateTransfer None t d = Inr d' \<Longrightarrow> t_status t \<in> valid_statuses \<Longrightarrow>
   \<forall>r \<in> set (transfers d). tr_status r \<in> valid_statuses \<Longrightarrow> \<forall>r \<in> set (transfers d'). tr_status r \<in> valid_statuses"
  by (auto simp: UpdateTransfer_def)

lemma work_step_tables:
  assumes step: "work_step M f (Inr p) (Inr p')" and ok: "pool_ok f p" and tab: "tables_ok f (m_db (p_m p))"
  shows "tables_ok f (m_db (p_m p'))"
proof (cases "m_db (p_m p') = m_db (p_m p)")
  case False
  with work_step_db [OF step] obtain b j t where j: "(b, j) \<in> set (live p)" "t_id t = jid j" "t_status t \<in> valid_statuses"
    and t: "UpdateTransfer None t (m_db (p_m p)) = Inr (m_db (p_m p'))"
    using work_statuses_other(2) [of M] by (auto simp: db_upd_def)
  have "active_status (tr_status r)" if "\<not> f" "find_transfer (m_db (p_m p)) (t_id t) = Some r" for r
  proof -
    from ok j(1) that(1) have "row_status (m_db (p_m p)) (jid j) = Some (expected_status b j)"
      by (auto simp: pool_ok_def jobs_ok_def)
    with j(2) that(2) expected_active [of b j] show ?thesis by (simp add: row_status_def)
  qed
  with tab tstore.update_unique [OF _ t] tstore.update_ok [OF _ t] UpdateTransfer_statuses [OF t j(3)]
  show ?thesis by (auto simp: tables_ok_def)
qed (use tab in simp)

text \<open>A stopped pool comes to rest with every worker gone, so \<open>Stop\<close> returns from its wait.\<close>

lemma stopped_progress:
  assumes ok: "pool_ok f p" and closed: "m_closed (p_m p)" and stuck: "\<nexists>st. work_step M f (Inr p) st"
  shows "\<forall>W \<in> set (p_pool p). W = Exited"
proof
  fix W assume "W \<in> set (p_pool p)"
  then obtain us vs where W: "p_pool p = us @ W # vs" by (auto dest: split_list)
  show "W = Exited"
  proof (cases W)
    case Idle
    obtain r where "next_job (p_m p) = Some r" using closed by (cases "m_queue (p_m p)") (auto simp: next_job_def)
    with stuck W Idle work_step.take [of p us vs] work_step.exit [of p us vs] show ?thesis
      by (cases r; cases "fst r") auto
  qed (use stuck W work_step.start [of p us _ vs f calm_env M] work_step.finish [of p us _ _ vs f calm_env M] in
      \<open>auto simp: calm_env_ok\<close>)
qed

lemma stopped_step:
  "work_step M f st st' \<Longrightarrow> st = Inr p \<Longrightarrow> st' = Inr p' \<Longrightarrow> \<forall>W \<in> set (p_pool p). W = Exited \<Longrightarrow>
   p_pool p' = p_pool p \<and> m_db (p_m p') = m_db (p_m p) \<and>
   mset (map (jid \<circ> snd) (live p')) = mset (map (jid \<circ> snd) (live p))"
proof (induction rule: work_step.induct)
  case (timer q xs due job ys)
  then show ?case by (auto simp: live_def retry_fire_def Let_def Enqueue_def)
qed (auto simp: live_def Enqueue_def)

lemma stopped_steps:
  assumes "(work_step M f)\<^sup>*\<^sup>* (Inr p) st" "st = Inr p'" "\<forall>W \<in> set (p_pool p). W = Exited"
  shows "p_pool p' = p_pool p \<and> m_db (p_m p') = m_db (p_m p) \<and>
     mset (map (jid \<circ> snd) (live p')) = mset (map (jid \<circ> snd) (live p))"
  using assms
proof (induction arbitrary: p' rule: rtranclp_induct)
  case (step st st')
  from step(2) obtain q where "st = Inr q" by (auto elim: work_step.cases)
  note q = step(3) [OF this step(5)]
  with step(5) have "\<forall>W \<in> set (p_pool q). W = Exited" by simp
  note q' = stopped_step [OF step(2) \<open>st = Inr q\<close> step(4) this]
  from q q' show ?case by (metis (no_types, lifting))
qed simp

section \<open>An example pool\<close>

definition sample_job :: job where
  "sample_job =
     \<lparr>j_transfer = sample_transfer\<lparr>t_status := StatusPending, t_started_at := None, t_completed_at := None\<rparr>,
      j_app = sample_app, j_object_key = t_object_key sample_transfer, j_retry_count = 0, j_max_retries = 3,
      j_backoff_secs = 10\<rparr>"

definition sample_pool :: "(sample_client, sample_world) pool" where
  "sample_pool = Start (NewManager 1 (sample_db\<lparr>transfers := []\<rparr>) [] NewMinIOClient NewHub)"

text \<open>The same pool after the webhook handler has written the row of the sample job.\<close>

definition sample_pool1 :: "(sample_client, sample_world) pool" where
  "sample_pool1 =
     sample_pool\<lparr>p_m := (p_m sample_pool)\<lparr>m_db := sample_db\<lparr>transfers := [transfer_to_row (j_transfer sample_job)]\<rparr>\<rparr>,
                 p_accepting := [sample_job], p_submitted := {jid sample_job}\<rparr>"

lemma sample_pool_init: "pool_init (Inr sample_pool)"
  unfolding pool_init_def sample_pool_def by (intro exI conjI) (rule zero_less_one, rule refl)

lemma sample_pool1_reach: "reach pool_init (pool_step sample_lib f) (Inr sample_pool1)"
proof -
  have "reach pool_init (pool_step sample_lib f) (Inr sample_pool)" by (rule reach_init) (rule sample_pool_init)
  moreover have "pool_step sample_lib f (Inr sample_pool) (Inr sample_pool1)"
    using pool_step.create [of sample_job sample_pool "sample_db\<lparr>transfers := [transfer_to_row (j_transfer sample_job)]\<rparr>"]
    by (simp add: sample_pool1_def sample_pool_def Start_def NewManager_def CreateTransfer_def with_fault_def sample_job_def
        sample_defs int64)
  ultimately show ?thesis by (rule reach_step)
qed

section \<open>Properties\<close>

text \<open>
  C24: the backoff never panics and is bounded: for every configured backoff, also one whose
  multiplication overflows 64 bits, and every retry number, the delay is at least five seconds
  and less than an hour; and for a positive backoff whose exponential value is at most an hour, the delay
  does not exceed the larger of five seconds and that value. (A backoff of zero gives up to an hour, \<open>zero_backoff_delay\<close>.)
\<close>

theorem retry_delay_safe:
  assumes "rnd_ok rnd" and "1 \<le> n" and "in_int64 n"
  shows "\<exists>d. retry_delay rnd b n = Inr d \<and> minDelay \<le> d \<and> d < maxDelay \<and>
     (0 < b \<and> b * Second * 2 ^ nat (n - 1) \<le> maxDelay \<longrightarrow> d \<le> max minDelay (b * Second * 2 ^ nat (n - 1)))"
proof -
  from retry_delay_bounds [OF assms, of b] obtain d where
    d: "retry_delay rnd b n = Inr d" "minDelay \<le> d" "d < maxDelay" by blast
  have "d \<le> max minDelay (b * Second * 2 ^ nat (n - 1))"
    if b: "0 < b" and le: "b * Second * 2 ^ nat (n - 1) \<le> maxDelay"
    by (rule retry_delay_ceiling [OF assms b le d(1)])
  with d show ?thesis by blast
qed

theorem retry_delay_safe_witness:
  "\<exists>d. retry_delay (\<lambda>n. n - 1) 30 3 = Inr d \<and> minDelay \<le> d \<and> d \<le> 120 * Second"
  using retry_delay_safe [of "\<lambda>n. n - 1" 3 30] by (auto simp: rnd_ok_def int64)





text \<open>
  \<open>Stop\<close> returns: in every reachable state after \<open>Stop\<close> has closed the manager the workers and timers cannot go on for
  ever, whatever fails and however they are scheduled, and when nothing more can happen every worker has returned, which is what
  \<open>Stop\<close> waits for.
\<close>

theorem stop_returns:
  assumes "reach pool_init (pool_step M f) (Inr p)" and "m_closed (p_m p)"
  shows "\<not> (\<exists>\<sigma>. \<sigma> 0 = Inr p \<and> (\<forall>i. work_step M f (\<sigma> i) (\<sigma> (Suc i)))) \<and>
     (\<forall>st. (work_step M f)\<^sup>*\<^sup>* (Inr p) st \<and> \<not> (\<exists>st'. work_step M f st st') \<longrightarrow>
        (\<exists>p'. st = Inr p' \<and> (\<forall>W \<in> set (p_pool p'). W = Exited)))"
proof (intro conjI allI impI)
  from pool_sys.reach_inv [OF assms(1)] have ok: "pool_ok f p" by (simp add: pool_inv_def)
  from work_terminates [OF ok] show "\<not> (\<exists>\<sigma>. \<sigma> 0 = Inr p \<and> (\<forall>i. work_step M f (\<sigma> i) (\<sigma> (Suc i))))" .
  fix st assume run: "(work_step M f)\<^sup>*\<^sup>* (Inr p) st \<and> \<not> (\<exists>st'. work_step M f st st')"
  then have stuck: "\<nexists>st'. work_step M f st st'" by blast
  from works_keep [OF conjunct1 [OF run] ok] assms(2) obtain p' where "st = Inr p'" "pool_ok f p'" "m_closed (p_m p')" by auto
  with stopped_progress [of f p' M] stuck show "\<exists>p'. st = Inr p' \<and> (\<forall>W \<in> set (p_pool p'). W = Exited)" by blast
qed

theorem stop_returns_witness:
  "\<not> (\<exists>\<sigma>. \<sigma> 0 = Inr (sample_pool1\<lparr>p_m := Stop (p_m sample_pool1)\<rparr>) \<and> (\<forall>i. work_step sample_lib True (\<sigma> i) (\<sigma> (Suc i))))"
proof -
  have "reach pool_init (pool_step sample_lib True) (Inr (sample_pool1\<lparr>p_m := Stop (p_m sample_pool1)\<rparr>))"
    by (rule reach_step [OF sample_pool1_reach pool_step.stop])
  from stop_returns [OF this] show ?thesis by (simp add: Stop_def)
qed

text \<open>
  a stopped pool strands its retries: once \<open>Stop\<close> has been called and the workers have returned, armed timers still
  fire and put their jobs on the queue, but no job is ever processed again and no row changes:
  the ids of the live jobs stay the same for ever and so do their rows.
\<close>

theorem stopped_pool_strands:
  assumes "\<forall>W \<in> set (p_pool p). W = Exited" and "(work_step M f)\<^sup>*\<^sup>* (Inr p) (Inr p')"
  shows "p_pool p' = p_pool p \<and> m_db (p_m p') = m_db (p_m p) \<and>
     mset (map (jid \<circ> snd) (live p')) = mset (map (jid \<circ> snd) (live p))"
  using stopped_steps [OF assms(2) refl assms(1)] .

theorem stopped_pool_strands_witness:
  "let m = (Stop (p_m sample_pool))\<lparr>m_timers := [(7, sample_job)]\<rparr>;
       p = sample_pool\<lparr>p_m := m, p_pool := [Exited]\<rparr>;
       p' = p\<lparr>p_m := retry_fire sample_job (m\<lparr>m_timers := []\<rparr>)\<rparr>
   in mset (map (jid \<circ> snd) (live p')) = {#jid sample_job#}"
proof -
  let ?m = "(Stop (p_m sample_pool))\<lparr>m_timers := [(7, sample_job)]\<rparr>"
  let ?p = "sample_pool\<lparr>p_m := ?m, p_pool := [Exited]\<rparr>"
  let ?p' = "?p\<lparr>p_m := retry_fire sample_job (?m\<lparr>m_timers := []\<rparr>)\<rparr>"
  have "work_step sample_lib False (Inr ?p) (Inr ?p')"
    using work_step.timer [of ?p "[]" 7 sample_job "[]" sample_lib False] by simp
  then have "(work_step sample_lib False)\<^sup>*\<^sup>* (Inr ?p) (Inr ?p')" by simp
  from stopped_pool_strands [OF _ this] show ?thesis
    by (simp add: Let_def live_def sample_pool_def Start_def NewManager_def Stop_def del: work_step.intros)
qed

text \<open>
  the row of a success: when the copy succeeds the row gets status success, the object's size as bytes
  transferred, the time of completion and the duration. If the job came back through a retry timer, the row's start
  time is also overwritten, with NULL, because the timer clears it and only a first attempt sets it.
\<close>

theorem success_row:
  assumes "hub_ok (m_hub m)" and "find_transfer (m_db m) (jid job) = Some r" and "te_fault e = None"
    and "doTransfer M (te_others e) job m = (None, m1)"
  shows "\<exists>m' r'. process_finish M e now job m = Inr m' \<and> find_transfer (m_db m') (jid job) = Some r' \<and>
     tr_status r' = StatusSuccess \<and> tr_bytes_transferred r' = t_object_size (j_transfer job) \<and>
     tr_completed_at r' = Some (to_unix (te_later e)) \<and>
     tr_duration_ms r' = rat_of_int (go_div (time_sub (te_later e) now) Millisecond) \<and>
     (\<forall>job0 m0 q. m_queue (retry_fire job0 m0) = q @ [job] \<longrightarrow> tr_started_at r' = None)"
proof -
  let ?t = "(j_transfer job)\<lparr>t_status := StatusSuccess, t_bytes_transferred := t_object_size (j_transfer job),
      t_completed_at := Some (te_later e), t_duration_ms := rat_of_int (go_div (time_sub (te_later e) now) Millisecond)\<rparr>"
  from doTransfer_frame [OF assms(4)] assms(1) have m1: "hub_ok (m_hub m1)" "m_db m1 = m_db m" by auto
  then have "\<exists>m'. process_finish M e now job m = Inr m' \<and> m_db m' = m_db (store_update None ?t m1)"
    using assms(3) by (simp add: process_finish_def assms(4) Let_def mgr_broadcast_eq)
  then obtain m' where m': "process_finish M e now job m = Inr m'" "m_db m' = m_db (store_update None ?t m1)" by blast
  have "find_transfer (m_db m') (jid job) = Some (update_transfer_row ?t r)"
    using assms(2) m1 by (simp add: m' store_update_def UpdateTransfer_def find_transfer_def find_transfer_update)
  moreover have "tr_started_at (update_transfer_row ?t r) = None" if "m_queue (retry_fire job0 m0) = q @ [job]"
    for job0 m0 q
    using that by (auto simp: retry_fire_def Let_def Enqueue_def update_transfer_row_def nullableUnix_def)
  ultimately show ?thesis using m'(1)
    by (intro exI [of _ m'] exI [of _ "update_transfer_row ?t r"]) (auto simp: update_transfer_row_def nullableUnix_def)
qed

theorem success_row_witness:
  "\<exists>m' r'. process_finish sample_lib calm_env 0 sample_job
       ((p_m sample_pool1)\<lparr>m_world := [((''minio:9000'', ''b'', ''k''), ''payload'')]\<rparr>) = Inr m' \<and>
     find_transfer (m_db m') ''t1'' = Some r' \<and> tr_status r' = StatusSuccess"
proof -
  let ?m = "(p_m sample_pool1)\<lparr>m_world := [((''minio:9000'', ''b'', ''k''), ''payload'')]\<rparr>"
  have "fst (doTransfer sample_lib (te_others calm_env) sample_job ?m) = None"
    by (simp add: doTransfer_def GetObject_def PutObject_def clientFor_def sample_lib_def sample_job_def calm_env_def
        sample_pool1_def sample_pool_def Start_def NewManager_def NewMinIOClient_def sample_defs Let_def cacheKey_def)
  then obtain m1 where "doTransfer sample_lib (te_others calm_env) sample_job ?m = (None, m1)"
    by (metis prod.collapse)
  moreover have "hub_ok (m_hub ?m)"
    using hub_sys.reach_inv [OF reach_init, of "Inr NewHub"]
    by (simp add: sample_pool1_def sample_pool_def Start_def NewManager_def hub_inv_def)
  moreover have "find_transfer (m_db ?m) (jid sample_job) = Some (transfer_to_row (j_transfer sample_job))"
    by (simp add: find_transfer_def sample_pool1_def transfer_to_row_def)
  ultimately show ?thesis
    using success_row [of ?m sample_job _ calm_env sample_lib m1 0] by (auto simp: calm_env_def sample_job_def sample_transfer_def)
qed

end
