(* ===== verification/FG_Webhook.thy ===== *)
theory FG_Webhook
  imports FG_Transfer
begin

text \<open>
  The package \<open>internal/webhook\<close>: the in-memory deduper (\<open>dedup.go\<close>), the cache of decrypted
  apps (\<open>appcache.go\<close>), the token check (\<open>validator.go\<close>), the event (\<open>event.go\<close>) and the
  handler (\<open>handler.go\<close>).

  The operations of the deduper and of the cache are atomic (they hold a mutex); their lemmas are
  about arbitrary sequences of such operations, so about every interleaving of requests and
  sweepers. Clock readings come with each operation. A request carries the outcome of decoding
  its JSON body; a missing \<open>Authorization\<close> header is the empty string, as \<open>Header.Get\<close> gives it.
\<close>

section \<open>The deduper\<close>

record deduper =
  dd_entries :: "string \<rightharpoonup> time"
  dd_window :: duration

text \<open>
  \<open>newDeduper\<close> starts the goroutine \<open>cleanup\<close>, whose first statement is \<open>time.NewTicker(window)\<close>;
  a panic there ends the program.
\<close>

definition newDeduper :: "duration \<Rightarrow> panic + deduper" where
  "newDeduper window =
     (case new_ticker window of
        Inl p \<Rightarrow> Inl p
      | Inr _ \<Rightarrow> Inr \<lparr>dd_entries = Map.empty, dd_window = window\<rparr>)"

text \<open>\<open>since\<close> is the clock reading of \<open>time.Since\<close>, \<open>now\<close> the one of \<open>time.Now\<close>.\<close>

definition IsDuplicate :: "time \<Rightarrow> time \<Rightarrow> string \<Rightarrow> deduper \<Rightarrow> bool \<times> deduper" where
  "IsDuplicate since now key d =
     (case dd_entries d key of
        Some t \<Rightarrow>
          if time_sub since t < dd_window d then (True, d)
          else (False, d\<lparr>dd_entries := (dd_entries d)(key \<mapsto> now)\<rparr>)
      | None \<Rightarrow> (False, d\<lparr>dd_entries := (dd_entries d)(key \<mapsto> now)\<rparr>))"

text \<open>One tick of \<open>cleanup\<close>.\<close>

definition dedup_cleanup :: "time \<Rightarrow> deduper \<Rightarrow> deduper" where
  "dedup_cleanup now d =
     d\<lparr>dd_entries := (\<lambda>k. case dd_entries d k of
                            Some t \<Rightarrow> if time_sub now t \<ge> dd_window d then None else Some t
                          | None \<Rightarrow> None)\<rparr>"

section \<open>The app cache\<close>

abbreviation appCacheTTL :: duration where
  "appCacheTTL \<equiv> 30 * Second"

record cachedApp =
  ca_app :: app
  ca_expires :: time

record appCache =
  ac_entries :: "string \<rightharpoonup> cachedApp"
  ac_ttl :: duration

definition newAppCache :: "duration \<Rightarrow> panic + appCache" where
  "newAppCache ttl =
     (case new_ticker ttl of
        Inl p \<Rightarrow> Inl p
      | Inr _ \<Rightarrow> Inr \<lparr>ac_entries = Map.empty, ac_ttl = ttl\<rparr>)"

definition cache_Get :: "time \<Rightarrow> string \<Rightarrow> appCache \<Rightarrow> app option" where
  "cache_Get now key c =
     (case ac_entries c key of
        None \<Rightarrow> None
      | Some entry \<Rightarrow> if time_after now (ca_expires entry) then None else Some (ca_app entry))"

definition cache_Set :: "time \<Rightarrow> string \<Rightarrow> app \<Rightarrow> appCache \<Rightarrow> appCache" where
  "cache_Set now key ap c =
     c\<lparr>ac_entries := (ac_entries c)(key \<mapsto> \<lparr>ca_app = ap, ca_expires = time_add now (ac_ttl c)\<rparr>)\<rparr>"

definition cache_cleanup :: "time \<Rightarrow> appCache \<Rightarrow> appCache" where
  "cache_cleanup now c =
     c\<lparr>ac_entries := (\<lambda>k. case ac_entries c k of
                            Some v \<Rightarrow> if time_after now (ca_expires v) then None else Some v
                          | None \<Rightarrow> None)\<rparr>"

section \<open>Token and events\<close>

definition Verify :: "string \<Rightarrow> string \<Rightarrow> go_error option" where
  "Verify header storedSecret =
     (if header = [] then Some ErrMissingToken
      else let token = trim_prefix header ''Bearer ''
           in if token \<noteq> storedSecret then Some ErrInvalidToken else None)"

record s3_object =
  so_key :: string
  so_size :: int
  so_etag :: string
  so_content_type :: string

record event_record =
  er_event_name :: string
  er_event_time :: string
  er_bucket :: string
  er_object :: s3_object

record event =
  ev_event_name :: string
  ev_key :: string
  ev_records :: "event_record list"

section \<open>The handler\<close>

record request =
  rq_group :: string
  rq_app :: string
  rq_authorization :: string
  rq_body :: "event option"

text \<open>The handler's constant fields.\<close>

record handler =
  wh_enc_key :: bytes
  wh_default_max_retries :: int
  wh_default_backoff_sec :: int

definition NewHandler :: "bytes \<Rightarrow> int \<Rightarrow> int \<Rightarrow> duration \<Rightarrow> panic + handler \<times> deduper \<times> appCache" where
  "NewHandler encKey defaultMaxRetries defaultBackoffSec dedupWindow =
     (case newDeduper dedupWindow of
        Inl p \<Rightarrow> Inl p
      | Inr dedup \<Rightarrow>
          (case newAppCache appCacheTTL of
             Inl p \<Rightarrow> Inl p
           | Inr cache \<Rightarrow>
               Inr (\<lparr>wh_enc_key = encKey, wh_default_max_retries = defaultMaxRetries,
                     wh_default_backoff_sec = defaultBackoffSec\<rparr>, dedup, cache)))"

text \<open>The state it works on: its deduper and cache, and the manager with the store and the hub.\<close>

record ('c, 'w) wstate =
  w_dedup :: deduper
  w_apps :: appCache
  w_m :: "('c, 'w) mstate"

text \<open>The outside of one request (clock readings, failures of the store) and of one record.\<close>

record req_env =
  qe_get :: time
  qe_set :: time
  qe_route_fault :: "string option"

record rec_env =
  re_since :: time
  re_mark :: time
  re_active_fault :: "string option"
  re_uuid :: string
  re_created :: time
  re_create_fault :: "string option"
  re_stamp :: time

type_synonym response = "int \<times> string"

definition decryptAppCreds :: "aead \<Rightarrow> bytes \<Rightarrow> app \<Rightarrow> app res" where
  "decryptAppCreds A encKey ap =
     (case DecryptSecret A (mc_secret_key (a_src ap)) encKey of
        Inl err \<Rightarrow> Inl err
      | Inr srcSecret \<Rightarrow>
          (case DecryptSecret A (mc_secret_key (a_dst ap)) encKey of
             Inl err \<Rightarrow> Inl err
           | Inr dstSecret \<Rightarrow>
               Inr (ap\<lparr>a_src := (a_src ap)\<lparr>mc_secret_key := srcSecret\<rparr>,
                      a_dst := (a_dst ap)\<lparr>mc_secret_key := dstSecret\<rparr>\<rparr>)))"

definition route_key :: "string \<Rightarrow> string \<Rightarrow> string" where
  "route_key groupSlug appSlug = groupSlug @ '':'' @ appSlug"

text \<open>\<open>ServeHTTP\<close> up to the token check: the app, from the cache or from the store.\<close>

definition resolve_app ::
  "aead \<Rightarrow> handler \<Rightarrow> req_env \<Rightarrow> request \<Rightarrow> ('c, 'w) wstate \<Rightarrow> response + app \<times> ('c, 'w) wstate" where
  "resolve_app A H qe rq s =
     (let groupSlug = rq_group rq; appSlug = rq_app rq; cacheKey = route_key groupSlug appSlug in
      case cache_Get (qe_get qe) cacheKey (w_apps s) of
        Some decryptedApp \<Rightarrow> Inr (decryptedApp, s)
      | None \<Rightarrow>
          (case GetAppByRoute (qe_route_fault qe) groupSlug appSlug (m_db (w_m s)) of
             Inl err \<Rightarrow> Inl (404, ''not found'')
           | Inr None \<Rightarrow> Inl (404, ''not found'')
           | Inr (Some ap) \<Rightarrow>
               if \<not> a_enabled ap then Inl (404, ''not found'')
               else (case decryptAppCreds A (wh_enc_key H) ap of
                       Inl err \<Rightarrow> Inl (500, ''internal error'')
                     | Inr dec \<Rightarrow> Inr (dec, s\<lparr>w_apps := cache_Set (qe_set qe) cacheKey dec (w_apps s)\<rparr>))))"

definition object_key :: "event_record \<Rightarrow> string" where
  "object_key rec =
     (let rawKey = so_key (er_object rec) in
      case path_unescape rawKey of Inl err \<Rightarrow> rawKey | Inr k \<Rightarrow> k)"

definition dedup_key :: "app \<Rightarrow> string \<Rightarrow> string" where
  "dedup_key ap objectKey = a_id ap @ '':'' @ objectKey"

definition pending_transfer :: "rec_env \<Rightarrow> app \<Rightarrow> int \<Rightarrow> event_record \<Rightarrow> transfer" where
  "pending_transfer re ap maxRetries rec =
     \<lparr>t_id = re_uuid re, t_app_id = a_id ap, t_object_key = object_key rec,
      t_src_bucket = mc_bucket (a_src ap), t_dst_bucket = mc_bucket (a_dst ap),
      t_object_size = so_size (er_object rec), t_etag = so_etag (er_object rec), t_status = ''pending'',
      t_error_message = [], t_bytes_transferred = 0, t_started_at = None, t_completed_at = None,
      t_duration_ms = 0, t_created_at = re_created re, t_retry_count = 0, t_max_retries = maxRetries,
      t_next_retry_at = None\<rparr>"

definition record_job :: "rec_env \<Rightarrow> app \<Rightarrow> int \<Rightarrow> int \<Rightarrow> event_record \<Rightarrow> job" where
  "record_job re ap maxRetries backoffSec rec =
     \<lparr>j_transfer = pending_transfer re ap maxRetries rec, j_app = ap, j_object_key = object_key rec,
      j_retry_count = 0, j_max_retries = maxRetries, j_backoff_secs = backoffSec\<rparr>"

definition queued_msg :: "rec_env \<Rightarrow> app \<Rightarrow> event_record \<Rightarrow> transfer \<Rightarrow> message" where
  "queued_msg re ap rec t =
     \<lparr>msg_type = MsgTransferQueued, msg_timestamp = re_stamp re,
      msg_payload = JObject [(''transfer_id'', JString (t_id t)), (''app_id'', JString (a_id ap)),
                             (''object_key'', JString (object_key rec)),
                             (''object_size'', JInt (so_size (er_object rec))),
                             (''src_bucket'', JString (t_src_bucket t)),
                             (''dst_bucket'', JString (t_dst_bucket t))]\<rparr>"

text \<open>One iteration of the loop over the records; \<open>False\<close> is the early return with status 500.\<close>

definition handle_record ::
  "rec_env \<Rightarrow> app \<Rightarrow> int \<Rightarrow> int \<Rightarrow> event_record \<Rightarrow> ('c, 'w) wstate \<Rightarrow> panic + bool \<times> ('c, 'w) wstate" where
  "handle_record re ap maxRetries backoffSec rec s =
     (let objectKey = object_key rec in
      case IsDuplicate (re_since re) (re_mark re) (dedup_key ap objectKey) (w_dedup s) of
        (True, d) \<Rightarrow> Inr (True, s\<lparr>w_dedup := d\<rparr>)
      | (False, d) \<Rightarrow>
          (let s1 = s\<lparr>w_dedup := d\<rparr> in
           if HasActiveTransfer (re_active_fault re) (a_id ap) objectKey (m_db (w_m s1)) = Inr True
           then Inr (True, s1)
           else
             (let t = pending_transfer re ap maxRetries rec in
              case CreateTransfer (re_create_fault re) t (m_db (w_m s1)) of
                Inl err \<Rightarrow> Inr (False, s1)
              | Inr db' \<Rightarrow>
                  (let m = Enqueue (record_job re ap maxRetries backoffSec rec) ((w_m s1)\<lparr>m_db := db'\<rparr>) in
                   if QueueDepth m \<le> 1000 then
                     (case Broadcast (queued_msg re ap rec t) (m_hub m) of
                        Inl p \<Rightarrow> Inl p
                      | Inr h \<Rightarrow> Inr (True, s1\<lparr>w_m := m\<lparr>m_hub := h\<rparr>\<rparr>))
                   else Inr (True, s1\<lparr>w_m := m\<rparr>)))))"

fun handle_records ::
  "(nat \<Rightarrow> rec_env) \<Rightarrow> app \<Rightarrow> int \<Rightarrow> int \<Rightarrow> event_record list \<Rightarrow> ('c, 'w) wstate \<Rightarrow>
   panic + bool \<times> ('c, 'w) wstate" where
  "handle_records env ap maxRetries backoffSec [] s = Inr (True, s)"
| "handle_records env ap maxRetries backoffSec (rec # recs) s =
     (case handle_record (env 0) ap maxRetries backoffSec rec s of
        Inl p \<Rightarrow> Inl p
      | Inr (False, s') \<Rightarrow> Inr (False, s')
      | Inr (True, s') \<Rightarrow> handle_records (env \<circ> Suc) ap maxRetries backoffSec recs s')"

definition effective_retries :: "handler \<Rightarrow> app \<Rightarrow> int" where
  "effective_retries H ap =
     (if a_retry_max_attempts ap > 0 then a_retry_max_attempts ap else wh_default_max_retries H)"

definition effective_backoff :: "handler \<Rightarrow> app \<Rightarrow> int" where
  "effective_backoff H ap =
     (if a_retry_backoff_seconds ap > 0 then a_retry_backoff_seconds ap else wh_default_backoff_sec H)"

definition ServeHTTP ::
  "aead \<Rightarrow> handler \<Rightarrow> req_env \<Rightarrow> (nat \<Rightarrow> rec_env) \<Rightarrow> request \<Rightarrow> ('c, 'w) wstate \<Rightarrow>
   panic + response \<times> ('c, 'w) wstate" where
  "ServeHTTP A H qe env rq s =
     (case resolve_app A H qe rq s of
        Inl resp \<Rightarrow> Inr (resp, s)
      | Inr (decryptedApp, s1) \<Rightarrow>
          if Verify (rq_authorization rq) (a_webhook_secret decryptedApp) \<noteq> None
          then Inr ((401, ''unauthorized''), s1)
          else (case rq_body rq of
                  None \<Rightarrow> Inr ((400, ''bad request: invalid JSON''), s1)
                | Some ev \<Rightarrow>
                    if ev_records ev = [] then Inr ((400, ''bad request: no records''), s1)
                    else (case handle_records env decryptedApp (effective_retries H decryptedApp)
                                 (effective_backoff H decryptedApp) (ev_records ev) s1 of
                            Inl p \<Rightarrow> Inl p
                          | Inr (False, s2) \<Rightarrow> Inr ((500, ''internal error''), s2)
                          | Inr (True, s2) \<Rightarrow> Inr ((202, []), s2))))"

section \<open>Expiry\<close>

definition dedup_live :: "deduper \<Rightarrow> string \<Rightarrow> time \<Rightarrow> time option" where
  "dedup_live d k now =
     (case dd_entries d k of Some t \<Rightarrow> if time_sub now t < dd_window d then Some t else None | None \<Rightarrow> None)"

lemma time_sub_mono: "a \<le> b \<Longrightarrow> time_sub a t \<le> time_sub b t"
  by (auto simp: time_sub_def)

interpretation dedup_map: expiring_map dedup_live dedup_cleanup
proof unfold_locales
  fix now later :: time and s :: deduper and k :: string
  assume le: "now \<le> later"
  show "dedup_live (dedup_cleanup now s) k later = dedup_live s k later"
    using time_sub_mono [OF le]
    by (auto simp: dedup_live_def dedup_cleanup_def split: option.splits) (meson leD le_less_trans)
  show "dedup_live s k later = None" if "dedup_live s k now = None"
    using that time_sub_mono [OF le]
    by (auto simp: dedup_live_def split: option.splits if_splits) (meson le_less_trans)
qed

interpretation cache_map: expiring_map "\<lambda>c k now. cache_Get now k c" cache_cleanup
  by unfold_locales
    (auto simp: cache_Get_def cache_cleanup_def time_after_def split: option.splits if_splits)

section \<open>Sequences of operations on the deduper and the cache\<close>

datatype dedup_op = Check time time string | Sweep time

fun dedup_run :: "dedup_op list \<Rightarrow> deduper \<Rightarrow> bool list \<times> deduper" where
  "dedup_run [] d = ([], d)"
| "dedup_run (Check s m k # ops) d =
     (let (b, d1) = IsDuplicate s m k d; (bs, d2) = dedup_run ops d1 in (b # bs, d2))"
| "dedup_run (Sweep t # ops) d = dedup_run ops (dedup_cleanup t d)"

text \<open>The events let through: key, clock reading of the check, clock reading of the mark.\<close>

fun dedup_accepted :: "dedup_op list \<Rightarrow> deduper \<Rightarrow> (string \<times> time \<times> time) list" where
  "dedup_accepted [] d = []"
| "dedup_accepted (Check s m k # ops) d =
     (let (b, d1) = IsDuplicate s m k d in
      if b then dedup_accepted ops d1 else (k, s, m) # dedup_accepted ops d1)"
| "dedup_accepted (Sweep t # ops) d = dedup_accepted ops (dedup_cleanup t d)"

text \<open>The clock does not run backwards from one reading to the next.\<close>

fun clocked :: "time \<Rightarrow> dedup_op list \<Rightarrow> bool" where
  "clocked now [] = True"
| "clocked now (Check s m k # ops) = (now \<le> s \<and> s \<le> m \<and> clocked m ops)"
| "clocked now (Sweep t # ops) = (now \<le> t \<and> clocked t ops)"

fun is_check :: "dedup_op \<Rightarrow> bool" where
  "is_check (Check s m k) = True"
| "is_check (Sweep t) = False"

datatype cache_op = CSet time string app | CSweep time

fun cache_run :: "cache_op list \<Rightarrow> appCache \<Rightarrow> appCache" where
  "cache_run [] c = c"
| "cache_run (CSet t k a # ops) c = cache_run ops (cache_Set t k a c)"
| "cache_run (CSweep t # ops) c = cache_run ops (cache_cleanup t c)"

lemma IsDuplicate_live:
  "IsDuplicate s m k d =
     (if dedup_live d k s \<noteq> None then (True, d) else (False, d\<lparr>dd_entries := (dd_entries d)(k \<mapsto> m)\<rparr>))"
  by (auto simp: IsDuplicate_def dedup_live_def split: option.splits)

lemma dedup_live_mark:
  "dedup_live (d\<lparr>dd_entries := (dd_entries d)(k \<mapsto> m)\<rparr>) k' t =
     (if k' = k then if time_sub t m < dd_window d then Some m else None else dedup_live d k' t)"
  by (simp add: dedup_live_def split: option.splits)

lemma dd_window_cleanup [simp]: "dd_window (dedup_cleanup t d) = dd_window d"
  by (simp add: dedup_cleanup_def)

text \<open>Two dedupers that no lookup from now on can tell apart.\<close>

definition dedup_sim :: "time \<Rightarrow> deduper \<Rightarrow> deduper \<Rightarrow> bool" where
  "dedup_sim now d e \<longleftrightarrow>
     dd_window d = dd_window e \<and> (\<forall>k later. now \<le> later \<longrightarrow> dedup_live d k later = dedup_live e k later)"

lemma dedup_sim_check:
  assumes "dedup_sim now d e" "now \<le> s" "s \<le> m"
  shows "fst (IsDuplicate s m k d) = fst (IsDuplicate s m k e) \<and>
         dedup_sim m (snd (IsDuplicate s m k d)) (snd (IsDuplicate s m k e))"
proof -
  from assms have "dedup_live d k s = dedup_live e k s" by (simp add: dedup_sim_def)
  with assms show ?thesis by (simp add: IsDuplicate_live dedup_sim_def dedup_live_mark)
qed

lemma dedup_run_sim:
  "clocked now ops \<Longrightarrow> dedup_sim now d e \<Longrightarrow>
   fst (dedup_run ops d) = fst (dedup_run (filter is_check ops) e)"
proof (induction ops arbitrary: now d e)
  case (Cons oper ops)
  show ?case
  proof (cases oper)
    case (Check s m k)
    with Cons.prems dedup_sim_check [OF Cons.prems(2), of s m k] Cons.IH [of m] show ?thesis
      by (auto simp: split_beta)
  next
    case (Sweep t)
    with Cons.prems have "dedup_sim t (dedup_cleanup t d) e"
      by (auto simp: dedup_sim_def dedup_map.live_sweep)
    with Cons.IH [of t "dedup_cleanup t d" e] Cons.prems Sweep show ?thesis by simp
  qed
qed simp

lemma accepted_after_mark:
  "clocked now ops \<Longrightarrow> m \<le> now \<Longrightarrow>
   (\<forall>later \<ge> now. time_sub later m < dd_window d \<longrightarrow> dedup_live d k later \<noteq> None) \<Longrightarrow>
   (k, s', m') \<in> set (dedup_accepted ops d) \<Longrightarrow> dd_window d \<le> time_sub s' m"
proof (induction ops arbitrary: now d)
  case (Cons oper ops)
  show ?case
  proof (cases oper)
    case (Check s m2 k2)
    show ?thesis
    proof (cases "dedup_live d k2 s")
      case None
      let ?d = "d\<lparr>dd_entries := (dd_entries d)(k2 \<mapsto> m2)\<rparr>"
      have "time_sub later m < dd_window d \<longrightarrow> dedup_live ?d k later \<noteq> None" if "m2 \<le> later" for later
      proof (cases "k = k2")
        case True
        have "time_sub later m2 \<le> time_sub later m" using Cons.prems(1,2) Check by (auto simp: time_sub_def)
        with True show ?thesis by (simp add: dedup_live_mark)
      qed (use Cons.prems that Check in \<open>simp add: dedup_live_mark\<close>)
      with Cons.IH [of m2 ?d] Cons.prems Check None show ?thesis
        by (auto simp: IsDuplicate_live)
    next
      case (Some t)
      with Cons.IH [of m2 d] Cons.prems Check show ?thesis by (auto simp: IsDuplicate_live)
    qed
  next
    case (Sweep t)
    with Cons.prems have "\<forall>later \<ge> t. time_sub later m < dd_window d \<longrightarrow> dedup_live (dedup_cleanup t d) k later \<noteq> None"
      by (simp add: dedup_map.live_sweep)
    with Cons.IH [of t "dedup_cleanup t d"] Cons.prems Sweep show ?thesis by simp
  qed
qed simp

lemma dedup_spacing:
  "clocked now ops \<Longrightarrow>
   sorted_wrt (\<lambda>(k1, s1, m1) (k2, s2, m2). k1 = k2 \<longrightarrow> dd_window d \<le> time_sub s2 m1) (dedup_accepted ops d)"
proof (induction ops arbitrary: now d)
  case (Cons oper ops)
  show ?case
  proof (cases oper)
    case (Check s m k)
    show ?thesis
    proof (cases "dedup_live d k s")
      case None
      let ?d = "d\<lparr>dd_entries := (dd_entries d)(k \<mapsto> m)\<rparr>"
      have "dd_window d \<le> time_sub s' m" if "(k, s', m') \<in> set (dedup_accepted ops ?d)" for s' m'
        using accepted_after_mark [of m ops m ?d k s' m'] Cons.prems Check that by (simp add: dedup_live_mark)
      with Cons.IH [of m ?d] Cons.prems Check None show ?thesis by (auto simp: IsDuplicate_live)
    next
      case (Some t)
      with Cons Check show ?thesis by (auto simp: IsDuplicate_live)
    qed
  next
    case (Sweep t)
    with Cons.IH [of t "dedup_cleanup t d"] Cons.prems show ?thesis by simp
  qed
qed simp

lemma dedup_entry_origin:
  "dd_entries (snd (dedup_run ops d)) k = Some t \<Longrightarrow>
   dd_entries d k = Some t \<or> (\<exists>s. (k, s, t) \<in> set (dedup_accepted ops d))"
proof (induction ops arbitrary: d)
  case (Cons oper ops)
  show ?case
  proof (cases oper)
    case (Check s m k2)
    with Cons.IH [of "snd (IsDuplicate s m k2 d)"] Cons.prems show ?thesis
      by (auto simp: IsDuplicate_live split_beta split: if_splits)
  next
    case (Sweep t2)
    with Cons.IH [of "dedup_cleanup t2 d"] Cons.prems show ?thesis
      by (auto simp: dedup_cleanup_def split: option.splits if_splits)
  qed
qed simp

lemma dd_window_run [simp]: "dd_window (snd (dedup_run ops d)) = dd_window d"
proof (induction ops arbitrary: d)
  case (Cons oper ops)
  then show ?case by (cases oper) (simp_all add: split_beta IsDuplicate_live)
qed simp

lemma cache_entry_origin:
  "ac_entries (cache_run ops c) k = Some v \<Longrightarrow>
   ac_entries c k = Some v \<or> (\<exists>t. CSet t k (ca_app v) \<in> set ops \<and> ca_expires v = time_add t (ac_ttl c))"
proof (induction ops c rule: cache_run.induct)
  case (2 t k' a ops c)
  then show ?case by (auto simp: cache_Set_def split: if_splits)
next
  case (3 t ops c)
  then show ?case by (auto simp: cache_cleanup_def split: option.splits if_splits)
qed simp

section \<open>The handler\<close>

lemma Verify_None: "Verify header secret = None \<longleftrightarrow> header \<noteq> [] \<and> trim_prefix header ''Bearer '' = secret"
  by (simp add: Verify_def Let_def)

text \<open>A percent-encoded key is read back.\<close>

lemma object_key_encoded: "so_key (er_object rec) = percent_encode k \<Longrightarrow> object_key rec = k"
  using pctc.dec_enc [of k] by (auto simp: object_key_def split: sum.splits)

text \<open>
  The cache's key does not determine the route: two routes whose names contain colons can share an entry, and then
  one is answered with the other's app.
\<close>

lemma cache_confuses_routes:
  "route_key (g @ '':'' @ a) b = route_key g (a @ '':'' @ b)"
  "cache_Get (qe_get qe) (route_key g (a @ '':'' @ b)) (w_apps s) = Some ap \<Longrightarrow> rq_group rq = g @ '':'' @ a \<Longrightarrow> rq_app rq = b \<Longrightarrow>
   resolve_app A H qe rq s = Inr (ap, s)"
  by (simp_all add: route_key_def resolve_app_def)

lemma dedup_key_inj: "dedup_key ap k = dedup_key ap k' \<longleftrightarrow> k = k'"
  by (simp add: dedup_key_def)

lemma Broadcast_ok: "hub_ok h \<Longrightarrow> \<exists>h'. Broadcast m h = Inr h' \<and> hub_ok h'"
  using hub_ok_Broadcast [of h m] by (auto simp: hub_inv_def split: sum.splits)

lemma CreateTransfer_Inr:
  "CreateTransfer f t d = Inr d' \<Longrightarrow> f = None \<and> d' = d\<lparr>transfers := transfers d @ [transfer_to_row t]\<rparr>"
  by (auto simp: CreateTransfer_def split: if_splits)

text \<open>The four outcomes of one record.\<close>

lemma handle_record_cases:
  assumes "hub_ok (m_hub (w_m s))"
  obtains (dup) "handle_record re ap mr bo rec s = Inr (True, s)"
      "dedup_live (w_dedup s) (dedup_key ap (object_key rec)) (re_since re) \<noteq> None"
  | (active) "handle_record re ap mr bo rec s = Inr (True, s\<lparr>w_dedup := snd (IsDuplicate (re_since re) (re_mark re)
        (dedup_key ap (object_key rec)) (w_dedup s))\<rparr>)"
      "dedup_live (w_dedup s) (dedup_key ap (object_key rec)) (re_since re) = None"
      "has_active (m_db (w_m s)) (a_id ap) (object_key rec)"
  | (failed) "handle_record re ap mr bo rec s = Inr (False, s\<lparr>w_dedup := snd (IsDuplicate (re_since re) (re_mark re)
        (dedup_key ap (object_key rec)) (w_dedup s))\<rparr>)"
      "dedup_live (w_dedup s) (dedup_key ap (object_key rec)) (re_since re) = None"
  | (queued) h where "handle_record re ap mr bo rec s =
        Inr (True, s\<lparr>w_dedup := snd (IsDuplicate (re_since re) (re_mark re) (dedup_key ap (object_key rec)) (w_dedup s)),
          w_m := (w_m s)\<lparr>m_queue := m_queue (w_m s) @ [record_job re ap mr bo rec],
            m_db := (m_db (w_m s))\<lparr>transfers := transfers (m_db (w_m s)) @ [transfer_to_row (pending_transfer re ap mr rec)]\<rparr>,
            m_hub := h\<rparr>\<rparr>)"
      "hub_ok h" "dedup_live (w_dedup s) (dedup_key ap (object_key rec)) (re_since re) = None"
      "HasActiveTransfer (re_active_fault re) (a_id ap) (object_key rec) (m_db (w_m s)) \<noteq> Inr True"
      "CreateTransfer None (pending_transfer re ap mr rec) (m_db (w_m s)) =
         Inr ((m_db (w_m s))\<lparr>transfers := transfers (m_db (w_m s)) @ [transfer_to_row (pending_transfer re ap mr rec)]\<rparr>)"
proof (cases "dedup_live (w_dedup s) (dedup_key ap (object_key rec)) (re_since re)")
  case (Some x)
  then show ?thesis by (intro dup) (simp_all add: handle_record_def Let_def IsDuplicate_live)
next
  case None
  then obtain d' where I: "IsDuplicate (re_since re) (re_mark re) (dedup_key ap (object_key rec)) (w_dedup s) = (False, d')"
    by (simp add: IsDuplicate_live)
  show ?thesis
  proof (cases "HasActiveTransfer (re_active_fault re) (a_id ap) (object_key rec) (m_db (w_m s)) = Inr True")
    case True
    then have "has_active (m_db (w_m s)) (a_id ap) (object_key rec)" by (simp add: HasActiveTransfer_def)
    with True None I show ?thesis by (intro active) (simp_all add: handle_record_def Let_def)
  next
    case nact: False
    show ?thesis
    proof (cases "CreateTransfer (re_create_fault re) (pending_transfer re ap mr rec) (m_db (w_m s))")
      case (Inl err)
      with nact None I show ?thesis by (intro failed) (simp_all add: handle_record_def Let_def)
    next
      case (Inr d)
      let ?m = "Enqueue (record_job re ap mr bo rec) ((w_m s)\<lparr>m_db := d\<rparr>)"
      from Broadcast_ok [OF assms, of "queued_msg re ap rec (pending_transfer re ap mr rec)"] obtain h where
        h: "Broadcast (queued_msg re ap rec (pending_transfer re ap mr rec)) (m_hub (w_m s)) = Inr h" "hub_ok h" by blast
      let ?h = "if QueueDepth ?m \<le> 1000 then h else m_hub (w_m s)"
      have "handle_record re ap mr bo rec s = Inr (True, s\<lparr>w_dedup := d', w_m := ?m\<lparr>m_hub := ?h\<rparr>\<rparr>)"
        using nact I h Inr by (auto simp: handle_record_def Let_def Enqueue_def intro!: mstate.equality)
      moreover have "?m\<lparr>m_hub := ?h\<rparr> = (w_m s)\<lparr>m_queue := m_queue (w_m s) @ [record_job re ap mr bo rec],
            m_db := (m_db (w_m s))\<lparr>transfers := transfers (m_db (w_m s)) @ [transfer_to_row (pending_transfer re ap mr rec)]\<rparr>,
            m_hub := ?h\<rparr>"
        using CreateTransfer_Inr [OF Inr] by (auto simp: Enqueue_def intro!: mstate.equality)
      ultimately show ?thesis using queued [of ?h] h(2) assms None I nact Inr CreateTransfer_Inr [OF Inr] by simp
    qed
  qed
qed


text \<open>What a whole request adds: jobs at the end of the queue and, one for one, pending rows.\<close>

definition adds_jobs :: "job list \<Rightarrow> ('c, 'w) mstate \<Rightarrow> ('c, 'w) mstate \<Rightarrow> bool" where
  "adds_jobs jobs m m' \<longleftrightarrow>
     m_queue m' = m_queue m @ jobs \<and>
     m_db m' = (m_db m)\<lparr>transfers := transfers (m_db m) @ map (transfer_to_row \<circ> j_transfer) jobs\<rparr> \<and>
     m_closed m' = m_closed m \<and> m_timers m' = m_timers m \<and> m_clients m' = m_clients m \<and> m_world m' = m_world m"

definition job_for :: "app \<Rightarrow> int \<Rightarrow> int \<Rightarrow> job \<Rightarrow> bool" where
  "job_for ap mr bo j \<longleftrightarrow>
     j_app j = ap \<and> j_retry_count j = 0 \<and> j_max_retries j = mr \<and> j_backoff_secs j = bo \<and>
     t_status (j_transfer j) = ''pending'' \<and> t_app_id (j_transfer j) = a_id ap \<and>
     t_object_key (j_transfer j) = j_object_key j"

lemma adds_jobs_Nil [simp]: "adds_jobs [] m m"
  by (simp add: adds_jobs_def)

lemma adds_jobs_trans: "adds_jobs js m m' \<Longrightarrow> adds_jobs ks m' m'' \<Longrightarrow> adds_jobs (js @ ks) m m''"
  by (simp add: adds_jobs_def)

lemma handle_records_spec:
  "hub_ok (m_hub (w_m s)) \<Longrightarrow>
   \<exists>b s' jobs. handle_records env ap mr bo recs s = Inr (b, s') \<and> w_apps s' = w_apps s \<and>
     adds_jobs jobs (w_m s) (w_m s') \<and> subseq (map j_object_key jobs) (map object_key recs) \<and>
     (\<forall>j \<in> set jobs. job_for ap mr bo j)"
proof (induction recs arbitrary: s env)
  case Nil
  then show ?case by (auto intro: exI [of _ "[]"])
next
  case (Cons rec recs)
  have keep: ?case if "handle_record (env 0) ap mr bo rec s = Inr (True, s1)" "w_m s1 = w_m s" "w_apps s1 = w_apps s" for s1
    using Cons.IH [of s1 "env \<circ> Suc"] Cons.prems that by (fastforce intro: list_emb_Cons simp del: comp_apply)
  from Cons.prems show ?case
  proof (cases rule: handle_record_cases [where re = "env 0" and ap = ap and mr = mr and bo = bo and rec = rec])
    case dup
    with Cons.prems keep [of s] show ?thesis by blast
  next
    case active
    from keep [OF active(1)] show ?thesis by simp
  next
    case failed
    then show ?thesis by (auto intro: exI [of _ "[]"])
  next
    case (queued h)
    let ?j = "record_job (env 0) ap mr bo rec"
    obtain s1 where s1: "handle_record (env 0) ap mr bo rec s = Inr (True, s1)" "hub_ok (m_hub (w_m s1))"
      "w_apps s1 = w_apps s" "adds_jobs [?j] (w_m s) (w_m s1)"
      using queued by (auto simp: adds_jobs_def record_job_def)
    from Cons.IH [OF s1(2), of "env \<circ> Suc"] obtain b s' jobs where IH:
      "handle_records (env \<circ> Suc) ap mr bo recs s1 = Inr (b, s')" "w_apps s' = w_apps s1"
      "adds_jobs jobs (w_m s1) (w_m s')" "subseq (map j_object_key jobs) (map object_key recs)"
      "\<forall>j \<in> set jobs. job_for ap mr bo j" by blast
    moreover have "job_for ap mr bo ?j" by (simp add: job_for_def record_job_def pending_transfer_def)
    moreover have "j_object_key ?j = object_key rec" by (simp add: record_job_def)
    ultimately show ?thesis
      using s1 adds_jobs_trans [OF s1(4) IH(3)] by (intro exI [of _ b] exI [of _ s'] exI [of _ "?j # jobs"]) auto
  qed
qed

text \<open>
  Seen from the pool, a request adds live jobs with their rows; it keeps the pool's invariant, and as long
  as the check for an active transfer does not fail it keeps the active transfers unique.
\<close>

definition pool_add :: "job list \<Rightarrow> ('c, 'w) mstate \<Rightarrow> ('c, 'w) pool \<Rightarrow> ('c, 'w) pool" where
  "pool_add jobs m p = p\<lparr>p_m := m, p_submitted := p_submitted p \<union> jid ` set jobs\<rparr>"

lemma pool_add_Nil [simp]: "p_m p = m \<Longrightarrow> pool_add [] m p = p"
  by (auto simp: pool_add_def)

lemma pool_add_append: "pool_add ks m' (pool_add js m p) = pool_add (js @ ks) m' p"
  by (simp add: pool_add_def image_Un Un_assoc)

lemma pool_ok_add:
  assumes ok: "pool_ok f p" and new: "CreateTransfer None (j_transfer job) (m_db (p_m p)) = Inr d"
    and job: "t_status (j_transfer job) = StatusPending" "j_retry_count job = 0" "in_int64 (j_max_retries job)"
    and hub: "hub_ok h"
  shows "pool_ok f (pool_add [job] ((p_m p)\<lparr>m_queue := m_queue (p_m p) @ [job], m_db := d, m_hub := h\<rparr>) p)"
proof -
  let ?p = "pool_add [job] ((p_m p)\<lparr>m_queue := m_queue (p_m p) @ [job], m_db := d, m_hub := h\<rparr>) p"
  have row: "row_status (m_db (p_m p)) (jid job) = None"
    "row_status d = (\<lambda>i. if i = jid job then Some StatusPending else row_status (m_db (p_m p)) i)"
    using row_status_create [OF new] job(1) by (auto simp: fun_eq_iff)
  have "retries_ok job" "StatusPending = expected_status False job"
    using job by (simp_all add: retries_ok_def expected_status_def)
  with ok row(1) have "jobs_ok f ((False, job) # live p) (row_status d) (insert (jid job) (p_submitted p))"
    unfolding row(2) by (intro jobs_ok_add) (simp_all add: pool_ok_def)
  moreover have "mset ((False, job) # live p) = mset (live ?p)" by (simp add: mset_live pool_add_def)
  ultimately have "jobs_ok f (live ?p) (row_status d) (insert (jid job) (p_submitted p))"
    using jobs_ok_perm by blast
  with ok hub show ?thesis by (simp add: pool_ok_def pool_add_def)
qed

lemma handle_record_pool:
  assumes ok: "pool_ok f p" "p_m p = w_m s" "tables_ok f (m_db (w_m s))"
    and env: "f \<or> re_active_fault re = None" "in_int64 mr"
    and run: "handle_record re ap mr bo rec s = Inr (b, s1)"
  shows "\<exists>js. adds_jobs js (w_m s) (w_m s1) \<and> pool_ok f (pool_add js (w_m s1) p) \<and> tables_ok f (m_db (w_m s1))"
proof -
  have same: ?thesis if "w_m s1 = w_m s"
    using that ok by (intro exI [of _ "[]"]) simp
  from ok(1,2) have "hub_ok (m_hub (w_m s))" by (simp add: pool_ok_def)
  then show ?thesis
  proof (cases rule: handle_record_cases [where re = re and ap = ap and mr = mr and bo = bo and rec = rec])
    case (queued h)
    let ?job = "record_job re ap mr bo rec"
    let ?d = "(m_db (w_m s))\<lparr>transfers := transfers (m_db (w_m s)) @ [transfer_to_row (pending_transfer re ap mr rec)]\<rparr>"
    have m: "w_m s1 = (w_m s)\<lparr>m_queue := m_queue (w_m s) @ [?job], m_db := ?d, m_hub := h\<rparr>"
      using queued(1) run by auto
    have "adds_jobs [?job] (w_m s) (w_m s1)" by (simp add: m adds_jobs_def record_job_def)
    moreover have "pool_ok f (pool_add [?job] (w_m s1) p)"
      using pool_ok_add [OF ok(1), of ?job ?d h] queued(2,5) env(2) ok(2)
      by (simp add: m record_job_def pending_transfer_def)
    moreover have "\<not> has_active (m_db (w_m s)) (a_id ap) (object_key rec)" if "\<not> f"
      using queued(4) env(1) that by (simp add: HasActiveTransfer_def)
    then have "unique_active (find_transfer ?d)" if "\<not> f"
      using that tstore.create_unique [OF _ queued(5)] ok(3) by (simp add: tables_ok_def pending_transfer_def)
    with tstore.create_ok [OF _ queued(5)] ok(3) have "tables_ok f (m_db (w_m s1))"
      by (simp add: tables_ok_def m pending_transfer_def valid_statuses_def)
    ultimately show ?thesis by blast
  qed (use run same in auto)
qed

lemma handle_records_pool:
  "pool_ok f p \<Longrightarrow> p_m p = w_m s \<Longrightarrow> tables_ok f (m_db (w_m s)) \<Longrightarrow> \<forall>i. f \<or> re_active_fault (env i) = None \<Longrightarrow>
   in_int64 mr \<Longrightarrow> handle_records env ap mr bo recs s = Inr (b, s') \<Longrightarrow>
   \<exists>js. adds_jobs js (w_m s) (w_m s') \<and> pool_ok f (pool_add js (w_m s') p) \<and> tables_ok f (m_db (w_m s'))"
proof (induction recs arbitrary: s env p)
  case Nil
  then show ?case by (intro exI [of _ "[]"]) auto
next
  case (Cons rec recs)
  from Cons.prems(6) obtain b1 s1 where s1: "handle_record (env 0) ap mr bo rec s = Inr (b1, s1)"
    by (auto split: sum.splits)
  from handle_record_pool [OF Cons.prems(1-3) Cons.prems(4) [rule_format] Cons.prems(5) s1] obtain js where
    js: "adds_jobs js (w_m s) (w_m s1)" "pool_ok f (pool_add js (w_m s1) p)" "tables_ok f (m_db (w_m s1))" by blast
  show ?case
  proof (cases b1)
    case True
    with Cons.prems(6) s1 have rest: "handle_records (env \<circ> Suc) ap mr bo recs s1 = Inr (b, s')" by simp
    from Cons.IH [OF js(2) _ js(3) _ Cons.prems(5) rest] Cons.prems(4) obtain ks where
      ks: "adds_jobs ks (w_m s1) (w_m s')" "pool_ok f (pool_add ks (w_m s') (pool_add js (w_m s1) p))"
        "tables_ok f (m_db (w_m s'))" by (auto simp: pool_add_def)
    with adds_jobs_trans [OF js(1) ks(1)] show ?thesis
      by (intro exI [of _ "js @ ks"]) (simp add: pool_add_append)
  next
    case False
    with Cons.prems(6) s1 js show ?thesis by auto
  qed
qed

lemma has_active_append: "has_active d a k \<Longrightarrow> has_active (d\<lparr>transfers := transfers d @ rs\<rparr>) a k"
  by (simp add: has_active_def)

lemma adds_jobs_active: "adds_jobs js m m' \<Longrightarrow> has_active (m_db m) a k \<Longrightarrow> has_active (m_db m') a k"
  by (auto simp: adds_jobs_def intro: has_active_append)

text \<open>
  Every key marked in the deduper since \<open>d0\<close> belongs to an object with an active transfer.
\<close>

definition marks_covered :: "app \<Rightarrow> deduper \<Rightarrow> ('c, 'w) wstate \<Rightarrow> bool" where
  "marks_covered ap d0 s \<longleftrightarrow>
     dd_window (w_dedup s) = dd_window d0 \<and>
     (\<forall>k t. dd_entries (w_dedup s) (dedup_key ap k) = Some t \<longrightarrow>
        dd_entries d0 (dedup_key ap k) = Some t \<or> has_active (m_db (w_m s)) (a_id ap) k)"

lemma marks_covered_live:
  "marks_covered ap d0 s \<Longrightarrow> dedup_live (w_dedup s) (dedup_key ap k) t \<noteq> None \<Longrightarrow>
   dedup_live d0 (dedup_key ap k) t \<noteq> None \<or> has_active (m_db (w_m s)) (a_id ap) k"
  by (fastforce simp: marks_covered_def dedup_live_def split: option.splits if_splits)

text \<open>After a record that did not fail, its object is covered too.\<close>

lemma handle_record_covers:
  assumes hub: "hub_ok (m_hub (w_m s))" and run: "handle_record re ap mr bo rec s = Inr (True, s1)"
    and inv: "marks_covered ap d0 s"
  shows "hub_ok (m_hub (w_m s1)) \<and> marks_covered ap d0 s1 \<and>
     (dedup_live d0 (dedup_key ap (object_key rec)) (re_since re) \<noteq> None \<or>
      has_active (m_db (w_m s1)) (a_id ap) (object_key rec))"
  using hub
proof (cases rule: handle_record_cases [where re = re and ap = ap and mr = mr and bo = bo and rec = rec])
  case dup
  with run have "s1 = s" by simp
  with marks_covered_live [OF inv dup(2)] hub inv show ?thesis by blast
next
  case active
  with run have s1: "s1 = s\<lparr>w_dedup := (w_dedup s)\<lparr>dd_entries := (dd_entries (w_dedup s))(dedup_key ap (object_key rec) \<mapsto> re_mark re)\<rparr>\<rparr>"
    by (simp add: IsDuplicate_live)
  with inv active(3) have "marks_covered ap d0 s1" by (auto simp: marks_covered_def dedup_key_inj)
  with s1 active(3) hub show ?thesis by simp
next
  case failed
  with run show ?thesis by simp
next
  case (queued h)
  let ?m = "(w_m s)\<lparr>m_queue := m_queue (w_m s) @ [record_job re ap mr bo rec],
      m_db := (m_db (w_m s))\<lparr>transfers := transfers (m_db (w_m s)) @ [transfer_to_row (pending_transfer re ap mr rec)]\<rparr>,
      m_hub := h\<rparr>"
  from run queued(1,3) have s1: "s1 = s\<lparr>w_dedup := (w_dedup s)\<lparr>dd_entries := (dd_entries (w_dedup s))(dedup_key ap (object_key rec) \<mapsto> re_mark re)\<rparr>,
      w_m := ?m\<rparr>"
    by (simp add: IsDuplicate_live)
  have a: "has_active (m_db ?m) (a_id ap) (object_key rec)"
    by (simp add: has_active_def active_status_def transfer_to_row_def pending_transfer_def)
  have "has_active (m_db ?m) (a_id ap) k" if "has_active (m_db (w_m s)) (a_id ap) k" for k
    using has_active_append [OF that] by simp
  with a inv have "marks_covered ap d0 s1" unfolding s1 by (auto simp: marks_covered_def dedup_key_inj)
  with a queued(2) show ?thesis by (simp add: s1)
qed

lemma handle_records_cover:
  "handle_records env ap mr bo recs s = Inr (True, s') \<Longrightarrow> hub_ok (m_hub (w_m s)) \<Longrightarrow> marks_covered ap d0 s \<Longrightarrow>
   i < length recs \<Longrightarrow>
   dedup_live d0 (dedup_key ap (object_key (recs ! i))) (re_since (env i)) \<noteq> None \<or>
   has_active (m_db (w_m s')) (a_id ap) (object_key (recs ! i))"
proof (induction recs arbitrary: s env i)
  case (Cons rec recs)
  from Cons.prems(1) obtain s1 where s1: "handle_record (env 0) ap mr bo rec s = Inr (True, s1)"
    and rest: "handle_records (env \<circ> Suc) ap mr bo recs s1 = Inr (True, s')"
    by (auto split: sum.splits prod.splits bool.splits)
  note cov = handle_record_covers [OF Cons.prems(2) s1 Cons.prems(3)]
  show ?case
  proof (cases i)
    case 0
    from handle_records_spec [of s1 "env \<circ> Suc" ap mr bo recs] cov rest obtain jobs where
      "adds_jobs jobs (w_m s1) (w_m s')" by auto
    with cov 0 adds_jobs_active show ?thesis by (metis nth_Cons_0)
  next
    case (Suc n)
    with Cons.IH [OF rest, of n] cov Cons.prems(4) show ?thesis by simp
  qed
qed simp

lemma ServeHTTP_202:
  assumes "ServeHTTP A H qe env rq s = Inr ((202, b), s')"
  obtains ap s1 ev where "resolve_app A H qe rq s = Inr (ap, s1)"
    "Verify (rq_authorization rq) (a_webhook_secret ap) = None" "rq_body rq = Some ev" "ev_records ev \<noteq> []"
    "handle_records env ap (effective_retries H ap) (effective_backoff H ap) (ev_records ev) s1 = Inr (True, s')"
  using assms
  by (auto simp: ServeHTTP_def resolve_app_def Let_def split: sum.splits prod.splits option.splits if_splits bool.splits)

lemma resolve_app_frame:
  "resolve_app A H qe rq s = Inr (ap, s1) \<Longrightarrow> w_m s1 = w_m s \<and> w_dedup s1 = w_dedup s"
  by (auto simp: resolve_app_def Let_def split: option.splits sum.splits if_splits)

lemma ServeHTTP_pool:
  assumes ok: "pool_ok f p" "p_m p = w_m s" "tables_ok f (m_db (w_m s))"
    and env: "\<forall>i. f \<or> re_active_fault (env i) = None"
      "\<forall>ap s1. resolve_app A H qe rq s = Inr (ap, s1) \<longrightarrow> in_int64 (effective_retries H ap)"
  shows "\<exists>resp s' js. ServeHTTP A H qe env rq s = Inr (resp, s') \<and> adds_jobs js (w_m s) (w_m s') \<and>
     pool_ok f (pool_add js (w_m s') p) \<and> tables_ok f (m_db (w_m s'))"
proof -
  have same: ?thesis if "ServeHTTP A H qe env rq s = Inr (resp, s')" "w_m s' = w_m s" for resp s'
    using that ok by (intro exI [of _ resp] exI [of _ s'] exI [of _ "[]"]) simp
  show ?thesis
  proof (cases "resolve_app A H qe rq s")
    case (Inl resp)
    then show ?thesis by (intro same [of resp s]) (simp_all add: ServeHTTP_def)
  next
    case (Inr r)
    then obtain ap s1 where r: "resolve_app A H qe rq s = Inr (ap, s1)" by (cases r) auto
    note fr = resolve_app_frame [OF r]
    show ?thesis
    proof (cases "Verify (rq_authorization rq) (a_webhook_secret ap) = None \<and> (\<exists>ev. rq_body rq = Some ev \<and> ev_records ev \<noteq> [])")
      case True
      then obtain ev where ev: "rq_body rq = Some ev" "ev_records ev \<noteq> []" by blast
      let ?run = "handle_records env ap (effective_retries H ap) (effective_backoff H ap) (ev_records ev) s1"
      from ok(1,2) fr have "hub_ok (m_hub (w_m s1))" by (simp add: pool_ok_def)
      from handle_records_spec [OF this] obtain b s' where run: "?run = Inr (b, s')" by blast
      moreover have "\<exists>resp. ServeHTTP A H qe env rq s = Inr (resp, s')"
        using True ev run by (cases b) (auto simp: ServeHTTP_def r)
      ultimately show ?thesis using handle_records_pool [OF ok(1) _ _ env(1) _ run] ok env(2) r fr by metis
    next
      case False
      then have "\<exists>resp. ServeHTTP A H qe env rq s = Inr (resp, s1)" by (auto simp: ServeHTTP_def r split: option.splits)
      with same fr show ?thesis by blast
    qed
  qed
qed

lemma resolve_app_origin:
  "resolve_app A H qe rq s = Inr (ap, s1) \<Longrightarrow>
   cache_Get (qe_get qe) (route_key (rq_group rq) (rq_app rq)) (w_apps s) = Some ap \<or>
   (\<exists>stored. GetAppByRoute None (rq_group rq) (rq_app rq) (m_db (w_m s)) = Inr (Some stored) \<and>
      a_enabled stored \<and> decryptAppCreds A (wh_enc_key H) stored = Inr ap)"
  by (auto simp: resolve_app_def Let_def GetAppByRoute_def split: option.splits sum.splits if_splits)

text \<open>Up to the token check nothing but the cache changes.\<close>

lemma ServeHTTP_token:
  assumes "ServeHTTP A H qe env rq s = Inr ((code, b), s')"
  obtains (refused) "w_m s' = w_m s" "w_dedup s' = w_dedup s" "code \<noteq> 202"
  | (token) ap where "rq_authorization rq \<noteq> []" "trim_prefix (rq_authorization rq) ''Bearer '' = a_webhook_secret ap"
      "cache_Get (qe_get qe) (route_key (rq_group rq) (rq_app rq)) (w_apps s) = Some ap \<or>
       (\<exists>stored. GetAppByRoute None (rq_group rq) (rq_app rq) (m_db (w_m s)) = Inr (Some stored) \<and>
          a_enabled stored \<and> decryptAppCreds A (wh_enc_key H) stored = Inr ap)"
proof (cases "resolve_app A H qe rq s")
  case (Inl resp)
  with assms show ?thesis
    by (intro refused)
      (auto simp: ServeHTTP_def resolve_app_def Let_def split: option.splits sum.splits if_splits)
next
  case (Inr r)
  then obtain ap s1 where r: "resolve_app A H qe rq s = Inr (ap, s1)" by (cases r) auto
  show ?thesis
  proof (cases "Verify (rq_authorization rq) (a_webhook_secret ap)")
    case None
    with resolve_app_origin [OF r] show ?thesis by (auto simp: Verify_None intro: token)
  next
    case (Some err)
    with assms resolve_app_frame [OF r] r show ?thesis by (intro refused) (auto simp: ServeHTTP_def)
  qed
qed

text \<open>What a request answered 202 has added.\<close>

lemma ServeHTTP_jobs:
  assumes "ServeHTTP A H qe env rq s = Inr ((202, b), s')" and "hub_ok (m_hub (w_m s))"
  shows "\<exists>ap ev jobs. rq_body rq = Some ev \<and> adds_jobs jobs (w_m s) (w_m s') \<and>
     subseq (map j_object_key jobs) (map object_key (ev_records ev)) \<and>
     (\<forall>j \<in> set jobs. job_for ap (effective_retries H ap) (effective_backoff H ap) j) \<and>
     (\<forall>i < length (ev_records ev).
        dedup_live (w_dedup s) (dedup_key ap (object_key (ev_records ev ! i))) (re_since (env i)) \<noteq> None \<or>
        has_active (m_db (w_m s')) (a_id ap) (object_key (ev_records ev ! i)))"
proof -
  from assms(1) obtain ap s1 ev where r: "resolve_app A H qe rq s = Inr (ap, s1)" "rq_body rq = Some ev"
    "handle_records env ap (effective_retries H ap) (effective_backoff H ap) (ev_records ev) s1 = Inr (True, s')"
    by (rule ServeHTTP_202)
  from resolve_app_frame [OF r(1)] assms(2) have s1: "w_m s1 = w_m s" "w_dedup s1 = w_dedup s" "hub_ok (m_hub (w_m s1))"
    by auto
  from handle_records_spec [OF s1(3), of env ap "effective_retries H ap" "effective_backoff H ap" "ev_records ev"] r(3) s1(1)
  obtain jobs where "adds_jobs jobs (w_m s) (w_m s')" "subseq (map j_object_key jobs) (map object_key (ev_records ev))"
    "\<forall>j \<in> set jobs. job_for ap (effective_retries H ap) (effective_backoff H ap) j" by auto
  moreover have "marks_covered ap (w_dedup s) s1" using s1 by (simp add: marks_covered_def)
  note handle_records_cover [OF r(3) s1(3) this]
  ultimately show ?thesis using r(2) by blast
qed

section \<open>An example request\<close>

definition sample_event :: event where
  "sample_event =
     \<lparr>ev_event_name = ''s3:ObjectCreated:Put'', ev_key = ''b/k'',
      ev_records = [\<lparr>er_event_name = ''s3:ObjectCreated:Put'', er_event_time = [], er_bucket = ''b'',
                     er_object = \<lparr>so_key = ''k'', so_size = 7, so_etag = [], so_content_type = []\<rparr>\<rparr>]\<rparr>"

definition sample_request :: request where
  "sample_request =
     \<lparr>rq_group = ''prod'', rq_app = ''backup'', rq_authorization = ''Bearer tok'', rq_body = Some sample_event\<rparr>"

definition sample_wstate :: "(sample_client, sample_world) wstate" where
  "sample_wstate =
     \<lparr>w_dedup = \<lparr>dd_entries = Map.empty, dd_window = 10 * Second\<rparr>,
      w_apps = \<lparr>ac_entries = [route_key ''prod'' ''backup'' \<mapsto> \<lparr>ca_app = sample_app, ca_expires = appCacheTTL\<rparr>],
                ac_ttl = appCacheTTL\<rparr>,
      w_m = p_m sample_pool\<rparr>"

definition sample_handler :: handler where
  "sample_handler = \<lparr>wh_enc_key = [], wh_default_max_retries = 3, wh_default_backoff_sec = 30\<rparr>"

definition sample_req_env :: req_env where
  "sample_req_env = \<lparr>qe_get = 0, qe_set = 0, qe_route_fault = None\<rparr>"

definition sample_rec_env :: "string option \<Rightarrow> rec_env" where
  "sample_rec_env create_fault =
     \<lparr>re_since = Second, re_mark = Second, re_active_fault = None, re_uuid = ''u1'', re_created = Second,
      re_create_fault = create_fault, re_stamp = Second\<rparr>"

lemmas sample_webhook_defs [sample] =
  sample_event_def sample_request_def sample_wstate_def sample_handler_def sample_req_env_def sample_rec_env_def
  sample_pool_def Start_def NewManager_def sample_defs

lemma hub_ok_NewHub: "hub_ok NewHub"
  using hub_sys.reach_inv [OF reach_init, of "Inr NewHub"] by (simp add: hub_inv_def)

lemma sample_hub_ok: "hub_ok (m_hub (w_m sample_wstate))"
  by (simp add: sample_wstate_def sample_pool_def Start_def NewManager_def hub_ok_NewHub)

lemma sample_resolve:
  "resolve_app tag_aead sample_handler sample_req_env sample_request sample_wstate = Inr (sample_app, sample_wstate)"
  by (simp add: resolve_app_def cache_Get_def sample_request_def sample_wstate_def sample_req_env_def time_after_def)

lemma sample_verify: "Verify (rq_authorization sample_request) (a_webhook_secret sample_app) = None"
  by (simp add: Verify_def sample_request_def sample_app_def trim_prefix_def)

lemma sample_object_key: "object_key (ev_records sample_event ! 0) = ''k''"
  by (simp add: object_key_def sample_event_def)

lemma sample_serve:
  "\<exists>s'. ServeHTTP tag_aead sample_handler sample_req_env (\<lambda>_. sample_rec_env None) sample_request sample_wstate =
     Inr ((202, []), s')"
proof -
  obtain rec where ev: "ev_records sample_event = [rec]" by (simp add: sample_event_def)
  have "\<exists>s1. handle_record (sample_rec_env None) sample_app 3 30 rec sample_wstate = Inr (True, s1)"
    using sample_hub_ok
  proof (cases rule: handle_record_cases
      [where re = "sample_rec_env None" and ap = sample_app and mr = 3 and bo = 30 and rec = rec])
    case failed
    have "CreateTransfer None (pending_transfer (sample_rec_env None) sample_app 3 rec) (m_db (w_m sample_wstate)) \<noteq> Inl e" for e
      by (simp add: CreateTransfer_def pending_transfer_def sample_webhook_defs)
    with failed show ?thesis
      by (auto simp: handle_record_def Let_def sample_rec_env_def IsDuplicate_live
          split: sum.splits if_splits)
  qed auto
  moreover have "rq_body sample_request = Some sample_event" by (simp add: sample_request_def)
  moreover have "effective_retries sample_handler sample_app = 3" "effective_backoff sample_handler sample_app = 30"
    by (simp_all add: effective_retries_def effective_backoff_def sample_handler_def sample_app_def)
  ultimately show ?thesis by (auto simp: ServeHTTP_def sample_resolve sample_verify ev)
qed

section \<open>Properties\<close>

text \<open>
  C14: the deduper lets an event through exactly when its key has not been let through within the window,
  for every interleaving of checks and sweeps in which the clock does not run backwards: sweeping changes no
  answer; two events let through for the same key are at least the window apart; and a rejected
  event comes within the window of one that was let through.
\<close>

theorem dedup_window_exact:
  assumes "newDeduper w = Inr d" and "clocked now ops"
  shows "fst (dedup_run ops d) = fst (dedup_run (filter is_check ops) d) \<and>
     sorted_wrt (\<lambda>(k1, s1, m1) (k2, s2, m2). k1 = k2 \<longrightarrow> w \<le> time_sub s2 m1) (dedup_accepted ops d) \<and>
     (\<forall>s m k. fst (IsDuplicate s m k (snd (dedup_run ops d))) \<longrightarrow>
        (\<exists>s' m'. (k, s', m') \<in> set (dedup_accepted ops d) \<and> time_sub s m' < w))"
proof (intro conjI allI impI)
  from assms(1) have d: "d = \<lparr>dd_entries = Map.empty, dd_window = w\<rparr>"
    by (auto simp: newDeduper_def new_ticker_def split: if_splits)
  show "fst (dedup_run ops d) = fst (dedup_run (filter is_check ops) d)"
    using dedup_run_sim [OF assms(2), of d d] by (simp add: dedup_sim_def)
  show "sorted_wrt (\<lambda>(k1, s1, m1) (k2, s2, m2). k1 = k2 \<longrightarrow> w \<le> time_sub s2 m1) (dedup_accepted ops d)"
    using dedup_spacing [OF assms(2), of d] by (simp add: d)
  fix s m k assume "fst (IsDuplicate s m k (snd (dedup_run ops d)))"
  then obtain t where "dd_entries (snd (dedup_run ops d)) k = Some t" "time_sub s t < w"
    by (auto simp: IsDuplicate_live dedup_live_def d split: option.splits if_splits)
  with dedup_entry_origin [of ops d k t] d show "\<exists>s' m'. (k, s', m') \<in> set (dedup_accepted ops d) \<and> time_sub s m' < w"
    by auto
qed

theorem dedup_window_exact_witness:
  "fst (dedup_run [Check 0 0 ''a'', Sweep 5, Check 6 6 ''a'', Check 20 20 ''a''] \<lparr>dd_entries = Map.empty, dd_window = 10\<rparr>) =
   fst (dedup_run [Check 0 0 ''a'', Check 6 6 ''a'', Check 20 20 ''a''] \<lparr>dd_entries = Map.empty, dd_window = 10\<rparr>)"
  using dedup_window_exact [of 10 "\<lparr>dd_entries = Map.empty, dd_window = 10\<rparr>" 0
      "[Check 0 0 ''a'', Sweep 5, Check 6 6 ''a'', Check 20 20 ''a'']"]
  by (simp add: newDeduper_def new_ticker_def)

text \<open>
  C33: a cached app is at most its lifetime old: whatever was set and swept before, what \<open>Get\<close> returns was put in
  the cache under that key at most the lifetime (30 seconds in the handler) ago.
\<close>

theorem cache_bounded_staleness:
  assumes "newAppCache ttl = Inr c" and "cache_Get now k (cache_run ops c) = Some a"
  shows "\<exists>t. CSet t k a \<in> set ops \<and> now \<le> t + ttl"
proof -
  from assms(1) have c: "c = \<lparr>ac_entries = Map.empty, ac_ttl = ttl\<rparr>"
    by (auto simp: newAppCache_def new_ticker_def split: if_splits)
  from assms(2) obtain v where v: "ac_entries (cache_run ops c) k = Some v" "ca_app v = a" "now \<le> ca_expires v"
    by (auto simp: cache_Get_def time_after_def split: option.splits if_splits)
  with cache_entry_origin [OF v(1)] show ?thesis by (auto simp: c time_add_def)
qed

theorem cache_bounded_staleness_witness:
  "\<exists>t. CSet t ''g:a'' sample_app \<in> set [CSet 5 ''g:a'' sample_app, CSweep 9] \<and> 20 \<le> t + appCacheTTL"
  by (rule cache_bounded_staleness [of _ "\<lparr>ac_entries = Map.empty, ac_ttl = appCacheTTL\<rparr>"])
    (simp_all add: newAppCache_def new_ticker_def cache_Get_def cache_Set_def cache_cleanup_def time_after_def time_add_def)

text \<open>
  nothing happens without the token: if a request changes the store, the queue or the deduper, or is
  answered 202, then its Authorization header is the secret of the app it addresses, optionally after \<open>Bearer \<close>, and that app is
  cached or is in the store, enabled, with decryptable credentials.
\<close>

theorem webhook_requires_token:
  assumes "ServeHTTP A H qe env rq s = Inr ((code, b), s')"
    and "w_m s' \<noteq> w_m s \<or> w_dedup s' \<noteq> w_dedup s \<or> code = 202"
  shows "\<exists>ap. rq_authorization rq \<noteq> [] \<and> trim_prefix (rq_authorization rq) ''Bearer '' = a_webhook_secret ap \<and>
     (cache_Get (qe_get qe) (route_key (rq_group rq) (rq_app rq)) (w_apps s) = Some ap \<or>
      (\<exists>stored. GetAppByRoute None (rq_group rq) (rq_app rq) (m_db (w_m s)) = Inr (Some stored) \<and>
         a_enabled stored \<and> decryptAppCreds A (wh_enc_key H) stored = Inr ap))"
  using assms(1)
proof (cases rule: ServeHTTP_token)
  case refused
  with assms(2) show ?thesis by simp
qed auto

theorem webhook_requires_token_witness:
  "\<exists>ap. trim_prefix (rq_authorization sample_request) ''Bearer '' = a_webhook_secret ap \<and>
     (cache_Get 0 (route_key ''prod'' ''backup'') (w_apps sample_wstate) = Some ap \<or>
      (\<exists>stored. GetAppByRoute None ''prod'' ''backup'' (m_db (w_m sample_wstate)) = Inr (Some stored) \<and>
         a_enabled stored \<and> decryptAppCreds tag_aead [] stored = Inr ap))"
proof -
  from sample_serve obtain s' where
    "ServeHTTP tag_aead sample_handler sample_req_env (\<lambda>_. sample_rec_env None) sample_request sample_wstate =
       Inr ((202, []), s')" by blast
  from webhook_requires_token [OF this] show ?thesis
    by (auto simp: sample_req_env_def sample_request_def sample_handler_def)
qed

text \<open>
  C3: what 202 means: the queue and the transfers table have grown by the same new pending jobs, in the order of the records and
  with the app's retry settings; and the object of every record of the request has an active transfer
  or had been let through by the deduper within the window before this request.
\<close>

theorem webhook_accepted:
  assumes "ServeHTTP A H qe env rq s = Inr ((202, b), s')" and "hub_ok (m_hub (w_m s))"
  shows "\<exists>ap ev jobs. rq_body rq = Some ev \<and> adds_jobs jobs (w_m s) (w_m s') \<and>
     subseq (map j_object_key jobs) (map object_key (ev_records ev)) \<and>
     (\<forall>j \<in> set jobs. job_for ap (effective_retries H ap) (effective_backoff H ap) j) \<and>
     (\<forall>i < length (ev_records ev).
        dedup_live (w_dedup s) (dedup_key ap (object_key (ev_records ev ! i))) (re_since (env i)) \<noteq> None \<or>
        has_active (m_db (w_m s')) (a_id ap) (object_key (ev_records ev ! i)))"
  using ServeHTTP_jobs [OF assms] .

theorem webhook_accepted_witness:
  "\<exists>s' jobs. ServeHTTP tag_aead sample_handler sample_req_env (\<lambda>_. sample_rec_env None) sample_request sample_wstate =
       Inr ((202, []), s') \<and>
     adds_jobs jobs (w_m sample_wstate) (w_m s') \<and> subseq (map j_object_key jobs) [''k'']"
proof -
  from sample_serve obtain s' where s':
    "ServeHTTP tag_aead sample_handler sample_req_env (\<lambda>_. sample_rec_env None) sample_request sample_wstate =
       Inr ((202, []), s')" by blast
  from webhook_accepted [OF s' sample_hub_ok] sample_object_key
  obtain jobs where "adds_jobs jobs (w_m sample_wstate) (w_m s')" "subseq (map j_object_key jobs) [''k'']"
    by (auto simp: sample_request_def sample_event_def)
  with s' show ?thesis by blast
qed



end
