(* ===== verification/FG_Auth.thy ===== *)
theory FG_Auth
  imports FG_Hub
begin

text \<open>
  The package \<open>internal/auth\<close>: sessions of the dashboard, login and logout, and the three
  middlewares that gate the API and the pages.

  A handler maps a request and a state to a response or a panic and the state it leaves; the state
  is the session table together with whatever the wrapped handler works on (\<open>'s\<close>). The request carries
  the outcome of decoding its body. The pause before a refusal is not modelled.
\<close>

section \<open>Requests and responses\<close>

record 'b http_req =
  hr_method :: string
  hr_path :: string
  hr_cookie :: "string option"
  hr_confirm :: string
  hr_body :: 'b

datatype same_site = SameSiteLaxMode

record cookie =
  ck_name :: string
  ck_value :: string
  ck_path :: string
  ck_http_only :: bool
  ck_secure :: bool
  ck_same_site :: same_site
  ck_max_age :: int

text \<open>
  A body is a text or an encoded value. \<open>http.Error\<close> ends its text with a newline; the short page that
  \<open>http.Redirect\<close> adds for browsers is left out.
\<close>

datatype body = NoBody | Text string | Encoded json

record resp =
  rs_code :: int
  rs_body :: body
  rs_cookie :: "cookie option"
  rs_location :: string

definition http_Error :: "string \<Rightarrow> int \<Rightarrow> resp" where
  "http_Error msg code = \<lparr>rs_code = code, rs_body = Text (msg @ [CHR 0x0A]), rs_cookie = None, rs_location = []\<rparr>"

definition writeJSON :: "int \<Rightarrow> json \<Rightarrow> resp" where
  "writeJSON code v = \<lparr>rs_code = code, rs_body = Encoded v, rs_cookie = None, rs_location = []\<rparr>"

definition http_Redirect :: "string \<Rightarrow> int \<Rightarrow> resp" where
  "http_Redirect url code = \<lparr>rs_code = code, rs_body = NoBody, rs_cookie = None, rs_location = url\<rparr>"

definition WriteHeader :: "int \<Rightarrow> resp" where
  "WriteHeader code = \<lparr>rs_code = code, rs_body = NoBody, rs_cookie = None, rs_location = []\<rparr>"

section \<open>The service\<close>

definition cookieName :: string where
  "cookieName = ''flowgate_session''"

abbreviation sessionTTL :: duration where
  "sessionTTL \<equiv> 24 * Hour"

record auth =
  au_enabled :: bool
  au_username :: string
  au_password :: string
  au_secure :: bool
  au_sessions :: "string \<rightharpoonup> time"

type_synonym ('b, 's) hnd = "'b http_req \<Rightarrow> auth \<times> 's \<Rightarrow> (panic + resp) \<times> auth \<times> 's"

definition auth_NewService :: "bool \<Rightarrow> string \<Rightarrow> string \<Rightarrow> bool \<Rightarrow> auth" where
  "auth_NewService enabled username password secureCookies =
     \<lparr>au_enabled = enabled, au_username = username, au_password = password, au_secure = secureCookies,
      au_sessions = Map.empty\<rparr>"

definition gcLocked :: "time \<Rightarrow> auth \<Rightarrow> auth" where
  "gcLocked now s =
     s\<lparr>au_sessions := (\<lambda>tok. case au_sessions s tok of
                              Some expiry \<Rightarrow> if time_after now expiry then None else Some expiry
                            | None \<Rightarrow> None)\<rparr>"

text \<open>\<open>rd n\<close> is the outcome of reading \<open>n\<close> random bytes.\<close>

definition newToken :: "(nat \<Rightarrow> bytes res) \<Rightarrow> panic + string" where
  "newToken rd = (case rd 32 of Inl err \<Rightarrow> Inl RandUnavailable | Inr b \<Rightarrow> Inr (hex_encode b))"

definition session_cookie :: "auth \<Rightarrow> string \<Rightarrow> int \<Rightarrow> cookie" where
  "session_cookie s value max_age =
     \<lparr>ck_name = cookieName, ck_value = value, ck_path = ''/'', ck_http_only = True, ck_secure = au_secure s,
      ck_same_site = SameSiteLaxMode, ck_max_age = max_age\<rparr>"

text \<open>What a login does while it holds the mutex.\<close>

definition add_session :: "time \<Rightarrow> string \<Rightarrow> auth \<Rightarrow> auth" where
  "add_session now token s =
     (let s1 = gcLocked now s in s1\<lparr>au_sessions := (au_sessions s1)(token \<mapsto> time_add now sessionTTL)\<rparr>)"

definition handleLogin ::
  "(nat \<Rightarrow> bytes res) \<Rightarrow> time \<Rightarrow> (string \<times> string) option \<Rightarrow> auth \<Rightarrow> (panic + resp) \<times> auth" where
  "handleLogin rd now body s =
     (if \<not> au_enabled s then (Inr (writeJSON 200 (JObject [(''authenticated'', JBool True)])), s)
      else (case body of
              None \<Rightarrow> (Inr (http_Error ''invalid request body'' 400), s)
            | Some (username, password) \<Rightarrow>
                (let userOK = (username = au_username s); passOK = (password = au_password s) in
                 if \<not> userOK \<or> \<not> passOK then (Inr (http_Error ''invalid username or password'' 401), s)
                 else (case newToken rd of
                         Inl p \<Rightarrow> (Inl p, s)
                       | Inr token \<Rightarrow>
                           (Inr ((writeJSON 200 (JObject [(''authenticated'', JBool True)]))
                                   \<lparr>rs_cookie := Some (session_cookie s token (go_div sessionTTL Second))\<rparr>),
                            add_session now token s)))))"

definition handleLogout :: "string option \<Rightarrow> auth \<Rightarrow> resp \<times> auth" where
  "handleLogout ck s =
     (let s' = (case ck of None \<Rightarrow> s | Some v \<Rightarrow> s\<lparr>au_sessions := (au_sessions s)(v := None)\<rparr>)
      in ((WriteHeader 204)\<lparr>rs_cookie := Some (session_cookie s [] (-1))\<rparr>, s'))"

definition Authed :: "time \<Rightarrow> string option \<Rightarrow> auth \<Rightarrow> bool \<times> auth" where
  "Authed now ck s =
     (if \<not> au_enabled s then (True, s)
      else case ck of
             None \<Rightarrow> (False, s)
           | Some v \<Rightarrow>
               if v = [] then (False, s)
               else (case au_sessions s v of
                       None \<Rightarrow> (False, s)
                     | Some expiry \<Rightarrow>
                         if time_after now expiry then (False, s\<lparr>au_sessions := (au_sessions s)(v := None)\<rparr>)
                         else (True, s\<lparr>au_sessions := (au_sessions s)(v \<mapsto> time_add now sessionTTL)\<rparr>)))"

definition handleSession :: "time \<Rightarrow> string option \<Rightarrow> auth \<Rightarrow> resp \<times> auth" where
  "handleSession now ck s =
     (let (ok, s') = Authed now ck s
      in (writeJSON 200 (JObject [(''auth_enabled'', JBool (au_enabled s)), (''authenticated'', JBool ok)]), s'))"

section \<open>Middlewares\<close>

definition RequireSession :: "time \<Rightarrow> ('b, 's) hnd \<Rightarrow> ('b, 's) hnd" where
  "RequireSession now next rq st =
     (let (ok, s') = Authed now (hr_cookie rq) (fst st) in
      if \<not> ok then (Inr (http_Error ''unauthorized'' 401), s', snd st)
      else next rq (s', snd st))"

definition mutating :: "string \<Rightarrow> bool" where
  "mutating meth \<longleftrightarrow> meth \<in> {''POST'', ''PUT'', ''PATCH'', ''DELETE''}"

definition RequireConfirm :: "('b, 's) hnd \<Rightarrow> ('b, 's) hnd" where
  "RequireConfirm next rq st =
     (let s = fst st in
      if \<not> au_enabled s then next rq st
      else if mutating (hr_method rq) then
        (let pw = hr_confirm rq in
         if pw = [] then (Inr (http_Error ''password confirmation required'' 428), st)
         else if pw \<noteq> au_password s then (Inr (http_Error ''incorrect password'' 403), st)
         else next rq st)
      else next rq st)"

definition ProtectPages :: "time \<Rightarrow> ('b, 's) hnd \<Rightarrow> ('b, 's) hnd" where
  "ProtectPages now next rq st =
     (if \<not> au_enabled (fst st) then next rq st
      else
        (let (ok, s') = Authed now (hr_cookie rq) (fst st); st' = (s', snd st) in
         if hr_path rq = ''/login'' \<or> hr_path rq = ''/login.html'' then
           if ok then (Inr (http_Redirect ''/'' 302), st')
           else next (rq\<lparr>hr_path := ''/login.html''\<rparr>) st'
         else if \<not> ok then (Inr (http_Redirect ''/login'' 302), st')
         else next rq st'))"

section \<open>Sequences of operations\<close>

text \<open>
  What can happen to the table, each atomic under the mutex: a successful login that issued
  \<open>tok\<close>, a logout, a check.
\<close>

datatype session_op = Login time string | Logout string | Use time string

fun session_run :: "session_op list \<Rightarrow> auth \<Rightarrow> bool list \<times> auth" where
  "session_run [] s = ([], s)"
| "session_run (Login now tok # ops) s =
     session_run ops (add_session now tok s)"
| "session_run (Logout tok # ops) s = session_run ops (snd (handleLogout (Some tok) s))"
| "session_run (Use now tok # ops) s =
     (let (ok, s1) = Authed now (Some tok) s; (oks, s2) = session_run ops s1 in (ok # oks, s2))"

text \<open>
  The reference: it never forgets, it keeps for each token only when it was last issued or used.
\<close>

fun session_spec :: "session_op list \<Rightarrow> (string \<rightharpoonup> time) \<Rightarrow> bool list" where
  "session_spec [] seen = []"
| "session_spec (Login now tok # ops) seen = session_spec ops (seen(tok \<mapsto> now))"
| "session_spec (Logout tok # ops) seen = session_spec ops (seen(tok := None))"
| "session_spec (Use now tok # ops) seen =
     (let ok = (case seen tok of None \<Rightarrow> False | Some t \<Rightarrow> now \<le> t + sessionTTL)
      in ok # session_spec ops (if ok then seen(tok \<mapsto> now) else seen))"

fun session_clocked :: "time \<Rightarrow> session_op list \<Rightarrow> bool" where
  "session_clocked now [] = True"
| "session_clocked now (Login t tok # ops) = (now \<le> t \<and> tok \<noteq> [] \<and> session_clocked t ops)"
| "session_clocked now (Logout tok # ops) = session_clocked now ops"
| "session_clocked now (Use t tok # ops) = (now \<le> t \<and> session_clocked t ops)"

definition session_live :: "auth \<Rightarrow> string \<Rightarrow> time \<Rightarrow> time option" where
  "session_live s tok now =
     (case au_sessions s tok of Some expiry \<Rightarrow> if time_after now expiry then None else Some expiry | None \<Rightarrow> None)"

section \<open>Lemmas\<close>

interpretation session_map: expiring_map session_live gcLocked
  by unfold_locales
    (auto simp: session_live_def gcLocked_def time_after_def split: option.splits if_splits)

lemma gcLocked_enabled [simp]: "au_enabled (gcLocked now s) = au_enabled s"
  by (simp add: gcLocked_def)

text \<open>From \<open>now\<close> on, the table answers as the reference does.\<close>

definition session_sim :: "time \<Rightarrow> auth \<Rightarrow> (string \<rightharpoonup> time) \<Rightarrow> bool" where
  "session_sim now s seen \<longleftrightarrow>
     au_enabled s \<and> seen [] = None \<and>
     (\<forall>tok later. now \<le> later \<longrightarrow>
        session_live s tok later =
          (case seen tok of None \<Rightarrow> None | Some t \<Rightarrow> if later \<le> t + sessionTTL then Some (t + sessionTTL) else None))"

lemma session_live_upd:
  "session_live (s\<lparr>au_sessions := (au_sessions s)(tok := v)\<rparr>) k t =
     (if k = tok then (case v of None \<Rightarrow> None | Some expiry \<Rightarrow> if t \<le> expiry then Some expiry else None) else session_live s k t)"
  by (auto simp: session_live_def time_after_def split: option.splits)

lemma session_sim_login:
  assumes "session_sim now s seen" "now \<le> t" "tok \<noteq> []"
  shows "session_sim t (add_session t tok s) (seen(tok \<mapsto> t))"
  using assms by (auto simp: session_sim_def add_session_def Let_def session_live_upd session_map.live_sweep time_add_def)

lemma session_sim_logout:
  "session_sim now s seen \<Longrightarrow> session_sim now (snd (handleLogout (Some tok) s)) (seen(tok := None))"
  by (auto simp: session_sim_def handleLogout_def Let_def session_live_upd)

lemma session_sim_use:
  fixes tok :: string
  assumes sim: "session_sim now s seen" and le: "now \<le> t"
  defines "ok \<equiv> (case seen tok of None \<Rightarrow> False | Some u \<Rightarrow> t \<le> u + sessionTTL)"
  shows "fst (Authed t (Some tok) s) = ok \<and>
     session_sim t (snd (Authed t (Some tok) s)) (if ok then seen(tok \<mapsto> t) else seen)"
proof -
  have lv: "session_live s tok t = (case seen tok of None \<Rightarrow> None | Some u \<Rightarrow> if t \<le> u + sessionTTL then Some (u + sessionTTL) else None)"
    using sim le by (simp add: session_sim_def)
  have en: "au_enabled s" "seen [] = None" using sim by (auto simp: session_sim_def)
  have later: "session_sim t s seen" using sim le by (auto simp: session_sim_def)
  show ?thesis
  proof (cases "session_live s tok t")
    case None
    then have "\<not> ok" using lv by (auto simp: ok_def split: option.splits if_splits)
    have live_None: "session_live s tok u = None" if "t \<le> u" for u
      by (rule session_map.live_antimono [OF that None])
    have "fst (Authed t (Some tok) s) = False \<and> (snd (Authed t (Some tok) s) = s \<or>
        snd (Authed t (Some tok) s) = s\<lparr>au_sessions := (au_sessions s)(tok := None)\<rparr>)"
      using None en by (auto simp: Authed_def session_live_def split: option.splits if_splits)
    moreover have "session_sim t (s\<lparr>au_sessions := (au_sessions s)(tok := None)\<rparr>) seen"
      using later live_None by (auto simp: session_sim_def session_live_upd)
    ultimately show ?thesis using \<open>\<not> ok\<close> later by auto
  next
    case (Some e)
    then have ok: "ok" using lv by (auto simp: ok_def split: option.splits if_splits)
    with en have "tok \<noteq> []" by (auto simp: ok_def)
    then have "Authed t (Some tok) s = (True, s\<lparr>au_sessions := (au_sessions s)(tok \<mapsto> time_add t sessionTTL)\<rparr>)"
      using Some en by (auto simp: Authed_def session_live_def split: option.splits if_splits)
    with ok later \<open>tok \<noteq> []\<close> show ?thesis
      by (auto simp: session_sim_def session_live_upd time_add_def)
  qed
qed

lemma session_run_sim:
  "session_clocked now ops \<Longrightarrow> session_sim now s seen \<Longrightarrow> fst (session_run ops s) = session_spec ops seen"
proof (induction ops arbitrary: now s seen)
  case (Cons oper ops)
  show ?case
  proof (cases oper)
    case (Login t tok)
    with Cons.prems session_sim_login [OF Cons.prems(2), of t tok] Cons.IH [of t] show ?thesis by simp
  next
    case (Logout tok)
    with Cons.prems session_sim_logout [OF Cons.prems(2), of tok] Cons.IH [of now] show ?thesis by simp
  next
    case (Use t tok)
    with Cons.prems session_sim_use [OF Cons.prems(2), of t tok] Cons.IH [of t] show ?thesis
      by (simp add: split_beta Let_def)
  qed
qed simp

lemma Authed_True:
  "Authed now ck s = (True, s') \<Longrightarrow> au_enabled s \<Longrightarrow>
   \<exists>tok. ck = Some tok \<and> tok \<noteq> [] \<and> session_live s tok now \<noteq> None"
  by (auto simp: Authed_def session_live_def split: option.splits if_splits)

lemma Authed_frame:
  "Authed now ck s = (b, s') \<Longrightarrow> au_enabled s' = au_enabled s \<and> au_password s' = au_password s"
  by (auto simp: Authed_def split: option.splits if_splits)

text \<open>The two gates: refused with nothing changed, or passed with the right credentials.\<close>

lemma gate_cases:
  assumes en: "au_enabled s" and run: "RequireSession now (RequireConfirm next) rq (s, x) = (r, s', x')"
  obtains (refused) resp where "x' = x" "r = Inr resp" "rs_code resp \<in> {401, 403, 428}"
  | (passed) s1 tok where "next rq (s1, x) = (r, s', x')" "hr_cookie rq = Some tok" "session_live s tok now \<noteq> None"
      "mutating (hr_method rq) \<longrightarrow> hr_confirm rq = au_password s"
proof -
  obtain ok s1 where au: "Authed now (hr_cookie rq) s = (ok, s1)" by force
  note fr = Authed_frame [OF au]
  show ?thesis
  proof (cases ok)
    case False
    with run show ?thesis by (intro refused) (auto simp: RequireSession_def au http_Error_def)
  next
    case True
    with Authed_True [of now "hr_cookie rq" s s1] au en obtain tok where
      tok: "hr_cookie rq = Some tok" "session_live s tok now \<noteq> None" by auto
    from True run have "RequireConfirm next rq (s1, x) = (r, s', x')" by (simp add: RequireSession_def au)
    with fr en tok show ?thesis
      by (auto simp: RequireConfirm_def http_Error_def Let_def split: if_splits intro: refused passed)
  qed
qed

section \<open>Properties\<close>

text \<open>
  C15: sessions behave as their contract says, for every sequence of logins, logouts and requests
  in which the clock does not run backwards: a request's token is accepted exactly when it was issued by a login, has not been
  logged out since, and no more than 24 hours have passed since its last accepted use; neither deleting expired
  entries on use nor collecting them on login changes any answer.
\<close>

theorem sessions_refine_spec:
  assumes "session_clocked now ops"
  shows "fst (session_run ops (auth_NewService True u p sec)) = session_spec ops Map.empty"
  using assms
  by (rule session_run_sim) (simp add: session_sim_def session_live_def auth_NewService_def)

theorem sessions_refine_spec_witness:
  "fst (session_run [Login 0 ''t'', Use (20 * Hour) ''t'', Use (40 * Hour) ''t'', Logout ''t'', Use (41 * Hour) ''t'']
     (auth_NewService True ''admin'' ''pw'' False)) = [True, True, False]"
  using sessions_refine_spec [of 0 "[Login 0 ''t'', Use (20 * Hour) ''t'', Use (40 * Hour) ''t'', Logout ''t'', Use (41 * Hour) ''t'']"
      "''admin''" "''pw''" False]
  by simp

text \<open>
  the API is reached only through both gates: with authentication on, if the chain of \<open>RequireSession\<close> and
  \<open>RequireConfirm\<close> lets the wrapped handler change its state, panic, or answer anything but 401, 403 and 428, then the
  request carries the token of a live session and, for a mutating method, the admin password.
\<close>

theorem api_gated:
  assumes "au_enabled s"
    and "RequireSession now (RequireConfirm next) rq (s, x) = (r, s', x')"
    and "x' \<noteq> x \<or> (case r of Inl _ \<Rightarrow> True | Inr resp \<Rightarrow> rs_code resp \<notin> {401, 403, 428})"
  shows "(\<exists>tok. hr_cookie rq = Some tok \<and> session_live s tok now \<noteq> None) \<and>
     (mutating (hr_method rq) \<longrightarrow> hr_confirm rq = au_password s)"
  using assms(1,2)
proof (cases rule: gate_cases)
  case refused
  with assms(3) show ?thesis by simp
qed auto

theorem api_gated_witness:
  "\<exists>tok. Some ''t'' = Some tok \<and>
     session_live ((auth_NewService True ''admin'' ''pw'' False)\<lparr>au_sessions := [''t'' \<mapsto> 10]\<rparr>) tok 5 \<noteq> None"
proof -
  let ?s = "(auth_NewService True ''admin'' ''pw'' False)\<lparr>au_sessions := [''t'' \<mapsto> 10]\<rparr>"
  let ?rq = "\<lparr>hr_method = ''GET'', hr_path = ''/api/groups'', hr_cookie = Some ''t'', hr_confirm = [], hr_body = ()\<rparr>"
  let ?next = "\<lambda>rq st. (Inr (WriteHeader 200), st)"
  have "\<exists>s'. RequireSession 5 (RequireConfirm ?next) ?rq (?s, ()) = (Inr (WriteHeader 200), s', ())"
    by (simp add: RequireSession_def RequireConfirm_def Authed_def auth_NewService_def time_after_def mutating_def)
  then obtain s' where "RequireSession 5 (RequireConfirm ?next) ?rq (?s, ()) = (Inr (WriteHeader 200), s', ())" by blast
  from api_gated [OF _ this] show ?thesis by (simp add: auth_NewService_def WriteHeader_def)
qed

end
