(* ===== verification/FG_Dashboard.thy ===== *)
theory FG_Dashboard
  imports FG_Store FG_Auth
begin

text \<open>
  The package \<open>internal/dashboard\<close>: the REST handlers (\<open>api.go\<close>) and the handler of the
  embedded pages with the health report (\<open>handler.go\<close>).

  A handler works on the store and the hub (\<open>api_st\<close>); it answers or panics, and the state it
  leaves is part of its result. What it takes from outside comes with the call: failures of the
  store, a fresh id, clock readings, random bytes, the outcome of decoding the body (\<open>None\<close> for a
  body that does not decode) and the query parameters (the empty string for an absent one).
\<close>

section \<open>JSON forms\<close>

text \<open>\<open>encoding/json\<close> prints a nil slice as null; the store's lists are nil when they are empty.\<close>

definition list_json :: "('a \<Rightarrow> json) \<Rightarrow> 'a list \<Rightarrow> json" where
  "list_json f xs = (if xs = [] then JNull else JList (map f xs))"

definition opt_json :: "('a \<Rightarrow> json) \<Rightarrow> 'a option \<Rightarrow> json" where
  "opt_json f x = (case x of None \<Rightarrow> JNull | Some y \<Rightarrow> f y)"

definition group_json :: "grp \<Rightarrow> json" where
  "group_json g =
     JObject [(''id'', JString (g_id g)), (''name'', JString (g_name g)),
              (''description'', JString (g_description g)), (''created_at'', JTime (g_created_at g)),
              (''updated_at'', JTime (g_updated_at g))]"

text \<open>\<open>SecretKey\<close> and \<open>WebhookSecret\<close> are tagged \<open>json:"-"\<close>.\<close>

definition minio_json :: "minio_config \<Rightarrow> json" where
  "minio_json c =
     JObject [(''endpoint'', JString (mc_endpoint c)), (''access_key'', JString (mc_access_key c)),
              (''bucket'', JString (mc_bucket c)), (''region'', JString (mc_region c)),
              (''use_ssl'', JBool (mc_use_ssl c)), (''skip_tls_verify'', JBool (mc_skip_tls_verify c))]"

definition app_json :: "app \<Rightarrow> json" where
  "app_json a =
     JObject [(''id'', JString (a_id a)), (''group_id'', JString (a_group_id a)), (''name'', JString (a_name a)),
              (''description'', JString (a_description a)), (''src'', minio_json (a_src a)),
              (''dst'', minio_json (a_dst a)), (''enabled'', JBool (a_enabled a)),
              (''retry_max_attempts'', JInt (a_retry_max_attempts a)),
              (''retry_backoff_seconds'', JInt (a_retry_backoff_seconds a)),
              (''created_at'', JTime (a_created_at a)), (''updated_at'', JTime (a_updated_at a))]"

definition transfer_json :: "transfer \<Rightarrow> json" where
  "transfer_json t =
     JObject [(''ID'', JString (t_id t)), (''AppID'', JString (t_app_id t)), (''ObjectKey'', JString (t_object_key t)),
              (''SrcBucket'', JString (t_src_bucket t)), (''DstBucket'', JString (t_dst_bucket t)),
              (''ObjectSize'', JInt (t_object_size t)), (''ETag'', JString (t_etag t)), (''Status'', JString (t_status t)),
              (''ErrorMessage'', JString (t_error_message t)), (''BytesTransferred'', JInt (t_bytes_transferred t)),
              (''StartedAt'', opt_json JTime (t_started_at t)), (''CompletedAt'', opt_json JTime (t_completed_at t)),
              (''DurationMs'', JNum (t_duration_ms t)), (''CreatedAt'', JTime (t_created_at t)),
              (''RetryCount'', JInt (t_retry_count t)), (''MaxRetries'', JInt (t_max_retries t)),
              (''NextRetryAt'', opt_json JTime (t_next_retry_at t))]"

definition stats_json :: "transfer_stats \<Rightarrow> json" where
  "stats_json s =
     JObject [(''total_transfers'', JInt (ts_total s)), (''success_count'', JInt (ts_success s)),
              (''failed_count'', JInt (ts_failed s)), (''in_progress_count'', JInt (ts_in_progress s)),
              (''pending_count'', JInt (ts_pending s)), (''retrying_count'', JInt (ts_retrying s)),
              (''total_bytes'', JInt (ts_total_bytes s)), (''avg_duration_ms'', JNum (ts_avg_duration_ms s)),
              (''last_transfer_at'', opt_json JTime (ts_last_transfer_at s))]"

section \<open>State and helpers\<close>

record api_st =
  as_db :: db
  as_hub :: hub

record api_env =
  pe_fault :: "string option"
  pe_fault2 :: "string option"
  pe_uuid :: string
  pe_now :: time
  pe_now2 :: time
  pe_stamp :: time
  pe_rd_src :: rand_read
  pe_rd_dst :: rand_read
  pe_app :: app_env

type_synonym api_result = "(panic + resp) \<times> api_st"

definition answer :: "resp \<Rightarrow> api_st \<Rightarrow> api_result" where
  "answer r st = (Inr r, st)"

text \<open>\<open>a.hub.Broadcast\<close>, then the answer.\<close>

definition broadcast_then :: "message \<Rightarrow> resp \<Rightarrow> api_st \<Rightarrow> api_result" where
  "broadcast_then msg r st =
     (case Broadcast msg (as_hub st) of
        Inl p \<Rightarrow> (Inl p, st)
      | Inr h \<Rightarrow> (Inr r, st\<lparr>as_hub := h\<rparr>))"

definition queryInt :: "string \<Rightarrow> int \<Rightarrow> int" where
  "queryInt s dflt = (if s = [] then dflt else (case atoi s of None \<Rightarrow> dflt | Some v \<Rightarrow> v))"

section \<open>Groups\<close>

definition api_ListGroups :: "api_env \<Rightarrow> api_st \<Rightarrow> api_result" where
  "api_ListGroups e st =
     (case ListGroups (pe_fault e) (as_db st) of
        Inl err \<Rightarrow> answer (http_Error ''internal error'' 500) st
      | Inr xs \<Rightarrow> answer (writeJSON 200 (list_json group_json xs)) st)"

definition api_CreateGroup :: "api_env \<Rightarrow> (string \<times> string) option \<Rightarrow> api_st \<Rightarrow> api_result" where
  "api_CreateGroup e body st =
     (case body of
        None \<Rightarrow> answer (http_Error ''invalid request body'' 400) st
      | Some (name, description) \<Rightarrow>
          if name = [] then answer (http_Error ''invalid request body'' 400) st
          else (let g = \<lparr>g_id = pe_uuid e, g_name = name, g_description = description,
                         g_created_at = pe_now e, g_updated_at = pe_now2 e\<rparr> in
                case CreateGroup (pe_fault e) g (as_db st) of
                  Inl err \<Rightarrow> answer (http_Error ''internal error'' 500) st
                | Inr d \<Rightarrow>
                    broadcast_then \<lparr>msg_type = MsgGroupCreated, msg_timestamp = pe_stamp e, msg_payload = group_json g\<rparr>
                      (writeJSON 201 (group_json g)) (st\<lparr>as_db := d\<rparr>)))"

definition api_GetGroup :: "api_env \<Rightarrow> string \<Rightarrow> api_st \<Rightarrow> api_result" where
  "api_GetGroup e i st =
     (case GetGroup (pe_fault e) i (as_db st) of
        Inl err \<Rightarrow> answer (http_Error ''not found'' 404) st
      | Inr g \<Rightarrow> answer (writeJSON 200 (opt_json group_json g)) st)"

text \<open>Assigning to a field of the nil group panics.\<close>

definition api_UpdateGroup ::
  "api_env \<Rightarrow> string \<Rightarrow> (string option \<times> string option) option \<Rightarrow> api_st \<Rightarrow> api_result" where
  "api_UpdateGroup e i body st =
     (case GetGroup (pe_fault e) i (as_db st) of
        Inl err \<Rightarrow> answer (http_Error ''not found'' 404) st
      | Inr r \<Rightarrow>
          (case body of
             None \<Rightarrow> answer (http_Error ''invalid request body'' 400) st
           | Some (name, description) \<Rightarrow>
               (case r of
                  None \<Rightarrow> (Inl NilDereference, st)
                | Some g0 \<Rightarrow>
                    (let g1 = (case name of None \<Rightarrow> g0 | Some n \<Rightarrow> g0\<lparr>g_name := n\<rparr>);
                         g2 = (case description of None \<Rightarrow> g1 | Some x \<Rightarrow> g1\<lparr>g_description := x\<rparr>);
                         g = g2\<lparr>g_updated_at := pe_now e\<rparr>
                     in case UpdateGroup (pe_fault2 e) g (as_db st) of
                          Inl err \<Rightarrow> answer (http_Error ''internal error'' 500) st
                        | Inr d \<Rightarrow>
                            broadcast_then \<lparr>msg_type = MsgGroupUpdated, msg_timestamp = pe_stamp e, msg_payload = group_json g\<rparr>
                              (writeJSON 200 (group_json g)) (st\<lparr>as_db := d\<rparr>)))))"

definition delete_error :: "go_error \<Rightarrow> resp" where
  "delete_error err =
     (if errors_Is err ErrHasActiveTransfers then http_Error ''conflict: has active transfers'' 409
      else http_Error ''internal error'' 500)"

definition api_DeleteGroup :: "api_env \<Rightarrow> string \<Rightarrow> api_st \<Rightarrow> api_result" where
  "api_DeleteGroup e i st =
     (case DeleteGroup (pe_fault e) i (as_db st) of
        Inl err \<Rightarrow> answer (delete_error err) st
      | Inr d \<Rightarrow>
          broadcast_then \<lparr>msg_type = MsgGroupDeleted, msg_timestamp = pe_stamp e, msg_payload = JObject [(''id'', JString i)]\<rparr>
            (WriteHeader 204) (st\<lparr>as_db := d\<rparr>))"

section \<open>Apps\<close>

definition api_ListApps :: "api_env \<Rightarrow> string \<Rightarrow> api_st \<Rightarrow> api_result" where
  "api_ListApps e groupID st =
     (case ListAppsByGroup (pe_fault e) groupID (as_db st) of
        Inl err \<Rightarrow> answer (http_Error ''internal error'' 500) st
      | Inr xs \<Rightarrow> answer (writeJSON 200 (list_json app_json xs)) st)"

text \<open>The two bodies of an app; the inner structs of \<open>src\<close> and \<open>dst\<close> have the fields of \<open>MinIOConfig\<close>.\<close>

record create_app_body =
  cb_name :: string
  cb_description :: string
  cb_retry_max_attempts :: int
  cb_retry_backoff_seconds :: int
  cb_src :: minio_config
  cb_dst :: minio_config

record update_app_body =
  ub_name :: "string option"
  ub_description :: "string option"
  ub_enabled :: "bool option"
  ub_retry_max_attempts :: "int option"
  ub_retry_backoff_seconds :: "int option"
  ub_src :: "minio_config option"
  ub_dst :: "minio_config option"

definition api_CreateApp ::
  "aead \<Rightarrow> bytes \<Rightarrow> api_env \<Rightarrow> string \<Rightarrow> create_app_body option \<Rightarrow> api_st \<Rightarrow> api_result" where
  "api_CreateApp A encKey e groupID body st =
     (case body of
        None \<Rightarrow> answer (http_Error ''invalid request body'' 400) st
      | Some b \<Rightarrow>
          if cb_name b = [] then answer (http_Error ''invalid request body'' 400) st
          else (case Service_CreateApp A encKey (pe_app e) (CreateApp (pe_fault e)) (as_db st) groupID (cb_name b)
                       (cb_description b) (cb_src b) (cb_dst b) (cb_retry_max_attempts b) (cb_retry_backoff_seconds b) of
                  Inl err \<Rightarrow> answer (http_Error ''internal error'' 500) st
                | Inr (a, d) \<Rightarrow>
                    broadcast_then
                      \<lparr>msg_type = MsgAppCreated, msg_timestamp = pe_stamp e,
                       msg_payload = JObject [(''group_id'', JString groupID), (''app_id'', JString (a_id a))]\<rparr>
                      (writeJSON 201 (app_json a)) (st\<lparr>as_db := d\<rparr>)))"

definition api_GetApp :: "api_env \<Rightarrow> string \<Rightarrow> api_st \<Rightarrow> api_result" where
  "api_GetApp e i st =
     (case GetApp (pe_fault e) i (as_db st) of
        Inl err \<Rightarrow> answer (http_Error ''not found'' 404) st
      | Inr a \<Rightarrow> answer (writeJSON 200 (opt_json app_json a)) st)"

text \<open>One side of an update: the new fields, and a new secret only when one is given.\<close>

definition update_side :: "aead \<Rightarrow> bytes \<Rightarrow> rand_read \<Rightarrow> minio_config option \<Rightarrow> minio_config \<Rightarrow> minio_config res" where
  "update_side A encKey rd body c =
     (case body of
        None \<Rightarrow> Inr c
      | Some b \<Rightarrow>
          (let c1 = c\<lparr>mc_endpoint := mc_endpoint b, mc_access_key := mc_access_key b, mc_bucket := mc_bucket b,
                      mc_region := mc_region b, mc_use_ssl := mc_use_ssl b, mc_skip_tls_verify := mc_skip_tls_verify b\<rparr> in
           if mc_secret_key b \<noteq> [] then
             (case Service_EncryptSecret A encKey rd (mc_secret_key b) of
                Inl err \<Rightarrow> Inl err
              | Inr enc \<Rightarrow> Inr (c1\<lparr>mc_secret_key := enc\<rparr>))
           else Inr c1))"

definition set_opt :: "('a \<Rightarrow> 'b \<Rightarrow> 'b) \<Rightarrow> 'a option \<Rightarrow> 'b \<Rightarrow> 'b" where
  "set_opt f v x = (case v of None \<Rightarrow> x | Some y \<Rightarrow> f y x)"

definition update_scalars :: "update_app_body \<Rightarrow> app \<Rightarrow> app" where
  "update_scalars b a =
     set_opt (\<lambda>v x. x\<lparr>a_retry_backoff_seconds := v\<rparr>) (ub_retry_backoff_seconds b)
       (set_opt (\<lambda>v x. x\<lparr>a_retry_max_attempts := v\<rparr>) (ub_retry_max_attempts b)
         (set_opt (\<lambda>v x. x\<lparr>a_enabled := v\<rparr>) (ub_enabled b)
           (set_opt (\<lambda>v x. x\<lparr>a_description := v\<rparr>) (ub_description b)
             (set_opt (\<lambda>v x. x\<lparr>a_name := v\<rparr>) (ub_name b) a))))"

text \<open>
  \<open>UpdateApp\<close> reads the app and later writes all of it back; other requests run in between. \<open>r\<close> is what it read.
\<close>

definition update_app_write ::
  "aead \<Rightarrow> bytes \<Rightarrow> api_env \<Rightarrow> app option \<Rightarrow> update_app_body option \<Rightarrow> api_st \<Rightarrow> api_result" where
  "update_app_write A encKey e r body st =
     (case body of
        None \<Rightarrow> answer (http_Error ''invalid request body'' 400) st
      | Some b \<Rightarrow>
          (case r of
             None \<Rightarrow> (Inl NilDereference, st)
           | Some a0 \<Rightarrow>
               (let a1 = update_scalars b a0 in
                case update_side A encKey (pe_rd_src e) (ub_src b) (a_src a1) of
                  Inl err \<Rightarrow> answer (http_Error ''internal error'' 500) st
                | Inr src \<Rightarrow>
                    (case update_side A encKey (pe_rd_dst e) (ub_dst b) (a_dst a1) of
                       Inl err \<Rightarrow> answer (http_Error ''internal error'' 500) st
                     | Inr dst \<Rightarrow>
                         (let a = a1\<lparr>a_src := src, a_dst := dst, a_updated_at := pe_now e\<rparr> in
                          case UpdateApp (pe_fault2 e) a (as_db st) of
                            Inl err \<Rightarrow> answer (http_Error ''internal error'' 500) st
                          | Inr d \<Rightarrow>
                              broadcast_then
                                \<lparr>msg_type = MsgAppUpdated, msg_timestamp = pe_stamp e,
                                 msg_payload = JObject [(''group_id'', JString (a_group_id a)), (''app_id'', JString (a_id a))]\<rparr>
                                (writeJSON 200 (app_json a)) (st\<lparr>as_db := d\<rparr>))))))"

definition api_UpdateApp ::
  "aead \<Rightarrow> bytes \<Rightarrow> api_env \<Rightarrow> string \<Rightarrow> update_app_body option \<Rightarrow> api_st \<Rightarrow> api_result" where
  "api_UpdateApp A encKey e i body st =
     (case GetApp (pe_fault e) i (as_db st) of
        Inl err \<Rightarrow> answer (http_Error ''not found'' 404) st
      | Inr r \<Rightarrow> update_app_write A encKey e r body st)"

definition api_DeleteApp :: "api_env \<Rightarrow> string \<Rightarrow> api_st \<Rightarrow> api_result" where
  "api_DeleteApp e i st =
     (let found = GetApp (pe_fault e) i (as_db st) in
      case DeleteApp (pe_fault2 e) i (as_db st) of
        Inl err \<Rightarrow> answer (delete_error err) st
      | Inr d \<Rightarrow>
          (let groupID = (case found of Inr (Some a) \<Rightarrow> a_group_id a | _ \<Rightarrow> [])
           in broadcast_then
                \<lparr>msg_type = MsgAppDeleted, msg_timestamp = pe_stamp e,
                 msg_payload = JObject [(''id'', JString i), (''group_id'', JString groupID)]\<rparr>
                (WriteHeader 204) (st\<lparr>as_db := d\<rparr>)))"

definition api_GetWebhookURL :: "api_env \<Rightarrow> string \<Rightarrow> api_st \<Rightarrow> api_result" where
  "api_GetWebhookURL e i st =
     (case GetApp (pe_fault e) i (as_db st) of
        Inl err \<Rightarrow> answer (http_Error ''not found'' 404) st
      | Inr None \<Rightarrow> (Inl NilDereference, st)
      | Inr (Some a) \<Rightarrow>
          answer (writeJSON 200 (JObject [(''webhook_secret'', JString (a_webhook_secret a)), (''app_id'', JString i)])) st)"

section \<open>Transfers and statistics\<close>

text \<open>\<open>arrange\<close> is how the engine orders rows with equal creation times.\<close>

definition api_ListTransfers ::
  "(transfer_row list \<Rightarrow> transfer_row list) \<Rightarrow> api_env \<Rightarrow> (string \<Rightarrow> string) \<Rightarrow> api_st \<Rightarrow> api_result" where
  "api_ListTransfers arrange e query st =
     (let opts = \<lparr>lo_app_id = query ''app_id'', lo_group_id = query ''group_id'', lo_status = query ''status'',
                  lo_limit = queryInt (query ''limit'') 50, lo_offset = queryInt (query ''offset'') 0\<rparr> in
      case ListTransfers arrange (pe_fault e) (pe_fault2 e) opts (as_db st) of
        Inl err \<Rightarrow> answer (http_Error ''internal error'' 500) st
      | Inr (ts, n) \<Rightarrow>
          answer (writeJSON 200 (JObject [(''transfers'', list_json transfer_json ts), (''total'', JInt n),
                                          (''limit'', JInt (lo_limit opts)), (''offset'', JInt (lo_offset opts))])) st)"

definition api_GetTransfer :: "api_env \<Rightarrow> string \<Rightarrow> api_st \<Rightarrow> api_result" where
  "api_GetTransfer e i st =
     (case GetTransfer (pe_fault e) i (as_db st) of
        Inl err \<Rightarrow> answer (http_Error ''not found'' 404) st
      | Inr t \<Rightarrow> answer (writeJSON 200 (opt_json transfer_json t)) st)"

definition api_AppTransfers ::
  "(transfer_row list \<Rightarrow> transfer_row list) \<Rightarrow> api_env \<Rightarrow> string \<Rightarrow> (string \<Rightarrow> string) \<Rightarrow> api_st \<Rightarrow> api_result" where
  "api_AppTransfers arrange e appID query st =
     (let opts = \<lparr>lo_app_id = appID, lo_group_id = [], lo_status = query ''status'',
                  lo_limit = queryInt (query ''limit'') 50, lo_offset = queryInt (query ''offset'') 0\<rparr> in
      case ListTransfers arrange (pe_fault e) (pe_fault2 e) opts (as_db st) of
        Inl err \<Rightarrow> answer (http_Error ''internal error'' 500) st
      | Inr (ts, n) \<Rightarrow>
          answer (writeJSON 200 (JObject [(''transfers'', list_json transfer_json ts), (''total'', JInt n)])) st)"

definition api_GetStats :: "api_env \<Rightarrow> (string \<Rightarrow> string) \<Rightarrow> api_st \<Rightarrow> api_result" where
  "api_GetStats e query st =
     (case GetStats (pe_fault e) (query ''app_id'') (query ''group_id'') (as_db st) of
        Inl err \<Rightarrow> answer (http_Error ''internal error'' 500) st
      | Inr s \<Rightarrow> answer (writeJSON 200 (stats_json s)) st)"

section \<open>Pages and health\<close>

text \<open>
  \<open>Handler.ServeHTTP\<close>: \<open>opens p\<close> is whether the embedded file system can open \<open>p\<close>, \<open>serve p\<close>
  what the file server answers for the path \<open>p\<close>. Cutting the first byte of an empty path panics.
\<close>

definition serve_page :: "(string \<Rightarrow> bool) \<Rightarrow> (string \<Rightarrow> resp) \<Rightarrow> string \<Rightarrow> panic + resp" where
  "serve_page opens serve path =
     (if path = ''/'' then Inr (serve ''/'')
      else case path of
             [] \<Rightarrow> Inl SliceOutOfRange
           | c # rest \<Rightarrow> if opens rest then Inr (serve path) else Inr (serve ''/''))"

definition Health :: "string option \<Rightarrow> int \<Rightarrow> resp" where
  "Health ping_fault queue_depth =
     (let dbOK = (case Ping ping_fault of Inl err \<Rightarrow> ''error'' | Inr u \<Rightarrow> ''ok'')
      in writeJSON 200 (JObject [(''status'', JString ''ok''), (''db'', JString dbOK), (''queue_depth'', JInt queue_depth)]))"

section \<open>The routes\<close>

text \<open>The entries of \<open>API.Router\<close>, with the parameters of the path, the decoded body and the query.\<close>

datatype api_call =
    CListGroups
  | CCreateGroup "(string \<times> string) option"
  | CGetGroup string
  | CUpdateGroup string "(string option \<times> string option) option"
  | CDeleteGroup string
  | CListApps string
  | CCreateApp string "create_app_body option"
  | CGetApp string
  | CUpdateApp string "update_app_body option"
  | CDeleteApp string
  | CGetWebhookURL string
  | CAppTransfers string "string \<Rightarrow> string"
  | CListTransfers "string \<Rightarrow> string"
  | CGetTransfer string
  | CGetStats "string \<Rightarrow> string"

fun api_method :: "api_call \<Rightarrow> string" where
  "api_method (CCreateGroup b) = ''POST''"
| "api_method (CUpdateGroup i b) = ''PUT''"
| "api_method (CDeleteGroup i) = ''DELETE''"
| "api_method (CCreateApp g b) = ''POST''"
| "api_method (CUpdateApp i b) = ''PUT''"
| "api_method (CDeleteApp i) = ''DELETE''"
| "api_method c = ''GET''"

fun api_handle ::
  "aead \<Rightarrow> bytes \<Rightarrow> (transfer_row list \<Rightarrow> transfer_row list) \<Rightarrow> api_env \<Rightarrow> api_call \<Rightarrow> api_st \<Rightarrow> api_result" where
  "api_handle A encKey arrange e CListGroups st = api_ListGroups e st"
| "api_handle A encKey arrange e (CCreateGroup b) st = api_CreateGroup e b st"
| "api_handle A encKey arrange e (CGetGroup i) st = api_GetGroup e i st"
| "api_handle A encKey arrange e (CUpdateGroup i b) st = api_UpdateGroup e i b st"
| "api_handle A encKey arrange e (CDeleteGroup i) st = api_DeleteGroup e i st"
| "api_handle A encKey arrange e (CListApps g) st = api_ListApps e g st"
| "api_handle A encKey arrange e (CCreateApp g b) st = api_CreateApp A encKey e g b st"
| "api_handle A encKey arrange e (CGetApp i) st = api_GetApp e i st"
| "api_handle A encKey arrange e (CUpdateApp i b) st = api_UpdateApp A encKey e i b st"
| "api_handle A encKey arrange e (CDeleteApp i) st = api_DeleteApp e i st"
| "api_handle A encKey arrange e (CGetWebhookURL i) st = api_GetWebhookURL e i st"
| "api_handle A encKey arrange e (CAppTransfers i q) st = api_AppTransfers arrange e i q st"
| "api_handle A encKey arrange e (CListTransfers q) st = api_ListTransfers arrange e q st"
| "api_handle A encKey arrange e (CGetTransfer i) st = api_GetTransfer e i st"
| "api_handle A encKey arrange e (CGetStats q) st = api_GetStats e q st"

section \<open>What the API shows\<close>

text \<open>The columns of an app without its secrets.\<close>

definition erase_secrets :: "app_row \<Rightarrow> app_row" where
  "erase_secrets r = r\<lparr>ar_src_secret_key := [], ar_dst_secret_key := [], ar_webhook_secret := []\<rparr>"

definition same_public :: "db \<Rightarrow> db \<Rightarrow> bool" where
  "same_public d d' \<longleftrightarrow>
     groups d = groups d' \<and> transfers d = transfers d' \<and>
     map erase_secrets (apps d) = map erase_secrets (apps d')"

section \<open>Lemmas\<close>

lemma erase_sel [simp]:
  "ar_id (erase_secrets r) = ar_id r" "ar_name (erase_secrets r) = ar_name r" "ar_group_id (erase_secrets r) = ar_group_id r"
  by (simp_all add: erase_secrets_def)

lemma app_json_erase: "erase_secrets r = erase_secrets r' \<Longrightarrow> app_json (scanApp r) = app_json (scanApp r')"
proof -
  have "app_json (scanApp (erase_secrets r)) = app_json (scanApp r)" for r
    by (simp add: app_json_def scanApp_def erase_secrets_def minio_json_def)
  then show "erase_secrets r = erase_secrets r' \<Longrightarrow> ?thesis" by metis
qed

lemma find_erase:
  "map erase_secrets xs = map erase_secrets ys \<Longrightarrow>
   map_option erase_secrets (find (\<lambda>r. ar_id r = i) xs) = map_option erase_secrets (find (\<lambda>r. ar_id r = i) ys)"
proof (induction xs arbitrary: ys)
  case (Cons x xs)
  then obtain y ys' where ys: "ys = y # ys'" "erase_secrets x = erase_secrets y" "map erase_secrets xs = map erase_secrets ys'"
    by (cases ys) auto
  from ys(2) have "ar_id x = ar_id y" by (metis erase_sel(1))
  with Cons.IH [OF ys(3)] ys show ?case by simp
qed simp

lemma map_filter_erase:
  "map erase_secrets xs = map erase_secrets ys \<Longrightarrow>
   map erase_secrets (filter (\<lambda>r. ar_group_id r = g) xs) = map erase_secrets (filter (\<lambda>r. ar_group_id r = g) ys)"
proof (induction xs arbitrary: ys)
  case (Cons x xs)
  then obtain y ys' where ys: "ys = y # ys'" "erase_secrets x = erase_secrets y" "map erase_secrets xs = map erase_secrets ys'"
    by (cases ys) auto
  from ys(2) have "ar_group_id x = ar_group_id y" by (metis erase_sel(3))
  with Cons.IH [OF ys(3)] ys show ?case by simp
qed simp

lemma sort_erase: "map erase_secrets (sort_key ar_name xs) = sort_key ar_name (map erase_secrets xs)"
proof -
  have ins: "map erase_secrets (insort_key ar_name x xs) = insort_key ar_name (erase_secrets x) (map erase_secrets xs)" for x xs
    by (induction xs) auto
  show ?thesis by (induction xs) (simp_all add: ins)
qed

lemma map_app_json_erase:
  "map erase_secrets xs = map erase_secrets ys \<Longrightarrow> map (\<lambda>r. app_json (scanApp r)) xs = map (\<lambda>r. app_json (scanApp r)) ys"
proof (induction xs arbitrary: ys)
  case (Cons x xs)
  then obtain y ys' where ys: "ys = y # ys'" "erase_secrets x = erase_secrets y" "map erase_secrets xs = map erase_secrets ys'"
    by (cases ys) auto
  from app_json_erase [OF ys(2)] Cons.IH [OF ys(3)] ys(1) show ?case by simp
qed simp

lemma list_json_erase:
  assumes "map erase_secrets xs = map erase_secrets ys"
  shows "list_json app_json (map scanApp xs) = list_json app_json (map scanApp ys)"
proof -
  from assms have "xs = [] \<longleftrightarrow> ys = []" by auto
  with map_app_json_erase [OF assms] show ?thesis by (simp add: list_json_def comp_def)
qed

lemma opt_json_erase:
  "map_option erase_secrets x = map_option erase_secrets y \<Longrightarrow>
   opt_json app_json (map_option scanApp x) = opt_json app_json (map_option scanApp y)"
  by (cases x; cases y) (auto simp: opt_json_def intro: app_json_erase)

text \<open>
  A handler's result keeps the invariants of the store and the hub, and its only panic is a nil
  dereference, before anything has changed.
\<close>

definition api_good :: "api_st \<Rightarrow> api_result \<Rightarrow> bool" where
  "api_good st res \<longleftrightarrow>
     db_ok (as_db (snd res)) \<and> hub_ok (as_hub (snd res)) \<and>
     (\<forall>p. fst res = Inl p \<longrightarrow> p = NilDereference \<and> snd res = st)"

lemma api_good_answer [simp]: "db_ok (as_db st) \<Longrightarrow> hub_ok (as_hub st) \<Longrightarrow> api_good st (answer r st)"
  by (simp add: api_good_def answer_def)

lemma api_good_nil [simp]: "db_ok (as_db st) \<Longrightarrow> hub_ok (as_hub st) \<Longrightarrow> api_good st (Inl NilDereference, st)"
  by (simp add: api_good_def)

lemma api_good_broadcast:
  "hub_ok (as_hub st) \<Longrightarrow> db_ok d \<Longrightarrow> api_good st (broadcast_then msg r (st\<lparr>as_db := d\<rparr>))"
  using hub_ok_Broadcast [of "as_hub st" msg]
  by (auto simp: api_good_def broadcast_then_def hub_inv_def split: sum.splits)

lemmas store_steps = store_step.intros [THEN store_sys.inv_step]

lemmas api_read_defs =
  api_ListGroups_def api_GetGroup_def api_ListApps_def api_GetApp_def api_GetWebhookURL_def
  api_ListTransfers_def api_GetTransfer_def api_AppTransfers_def api_GetStats_def

lemma api_good_CreateApp:
  assumes "db_ok (as_db st)" "hub_ok (as_hub st)"
  shows "api_good st (api_CreateApp A key e g b st)"
proof -
  have "db_ok d" if "Service_CreateApp A key env (CreateApp f) (as_db st) g' n ds src dst r1 r2 = Inr (a, d)" for env f g' n ds src dst r1 r2 a d
    using that assms(1) store_steps(4) [of f _ "as_db st" d]
    by (auto simp: Service_CreateApp_def Let_def split: sum.splits)
  with assms show ?thesis
    by (auto simp: api_CreateApp_def intro!: api_good_broadcast split: option.splits sum.splits)
qed

lemma api_good_UpdateApp:
  assumes "db_ok (as_db st)" "hub_ok (as_hub st)"
  shows "api_good st (api_UpdateApp A key e i b st)"
  using assms
  by (auto simp: api_UpdateApp_def update_app_write_def Let_def intro!: api_good_broadcast intro: store_steps(5)
      split: option.splits sum.splits)

lemma api_good_groups:
  assumes "db_ok (as_db st)" "hub_ok (as_hub st)"
  shows "api_good st (api_CreateGroup e gb st)" "api_good st (api_UpdateGroup e i ub st)"
    "api_good st (api_DeleteGroup e i st)" "api_good st (api_DeleteApp e i st)"
  using assms
  by (auto simp: api_CreateGroup_def api_UpdateGroup_def api_DeleteGroup_def api_DeleteApp_def Let_def
      intro!: api_good_broadcast intro: store_steps split: option.splits sum.splits)

lemma api_handle_good:
  "db_ok (as_db st) \<Longrightarrow> hub_ok (as_hub st) \<Longrightarrow> api_good st (api_handle A encKey arrange e c st)"
  using api_good_CreateApp api_good_UpdateApp api_good_groups
  by (cases c) (auto simp: api_read_defs Let_def split: sum.splits option.splits)

lemma api_read_only: "\<not> mutating (api_method c) \<Longrightarrow> snd (api_handle A encKey arrange e c st) = st"
  by (cases c) (auto simp: mutating_def api_read_defs answer_def Let_def split: sum.splits option.splits)

text \<open>No route writes the transfers table.\<close>

lemma store_keeps_transfers:
  "CreateGroup f g d = Inr d' \<Longrightarrow> transfers d' = transfers d" "UpdateGroup f g d = Inr d' \<Longrightarrow> transfers d' = transfers d"
  "DeleteGroup f i d = Inr d' \<Longrightarrow> transfers d' = transfers d" "CreateApp f a d = Inr d' \<Longrightarrow> transfers d' = transfers d"
  "UpdateApp f a d = Inr d' \<Longrightarrow> transfers d' = transfers d" "DeleteApp f i d = Inr d' \<Longrightarrow> transfers d' = transfers d"
  by (auto simp: CreateGroup_def UpdateGroup_def DeleteGroup_def CreateApp_def UpdateApp_def DeleteApp_def Let_def
      split: if_splits)

lemma broadcast_then_db: "as_db (snd (broadcast_then msg r st)) = as_db st"
  by (simp add: broadcast_then_def split: sum.splits)

lemma groups_keep_transfers:
  "transfers (as_db (snd (api_CreateGroup e gb st))) = transfers (as_db st)"
  "transfers (as_db (snd (api_UpdateGroup e i ub st))) = transfers (as_db st)"
  "transfers (as_db (snd (api_DeleteGroup e i st))) = transfers (as_db st)"
  "transfers (as_db (snd (api_DeleteApp e i st))) = transfers (as_db st)"
  by (auto simp: api_CreateGroup_def api_UpdateGroup_def api_DeleteGroup_def api_DeleteApp_def Let_def answer_def broadcast_then_db
      dest: store_keeps_transfers split: option.splits sum.splits)

lemma CreateApp_keeps_transfers: "transfers (as_db (snd (api_CreateApp A encKey e g b st))) = transfers (as_db st)"
  by (auto simp: api_CreateApp_def answer_def broadcast_then_db dest!: Service_CreateApp_Inr dest: store_keeps_transfers
      split: option.splits sum.splits)

lemma UpdateApp_keeps_transfers: "transfers (as_db (snd (api_UpdateApp A encKey e i b st))) = transfers (as_db st)"
  by (auto simp: api_UpdateApp_def update_app_write_def Let_def answer_def broadcast_then_db dest: store_keeps_transfers
      split: option.splits sum.splits)

lemma api_keeps_transfers: "transfers (as_db (snd (api_handle A encKey arrange e c st))) = transfers (as_db st)"
proof (cases "mutating (api_method c)")
  case True
  then show ?thesis
    by (cases c) (simp_all add: mutating_def groups_keep_transfers CreateApp_keeps_transfers UpdateApp_keeps_transfers)
qed (simp add: api_read_only)

section \<open>An example state\<close>

definition sample_api :: api_st where
  "sample_api = \<lparr>as_db = sample_db, as_hub = NewHub\<rparr>"

definition sample_api_env :: api_env where
  "sample_api_env =
     \<lparr>pe_fault = None, pe_fault2 = None, pe_uuid = ''g2'', pe_now = 0, pe_now2 = 0, pe_stamp = 0,
      pe_rd_src = const_read (CHR ''s''), pe_rd_dst = const_read (CHR ''d''),
      pe_app = \<lparr>ae_rd_secret = const_read (CHR ''w''), ae_rd_src = const_read (CHR ''s''),
                ae_rd_dst = const_read (CHR ''d''), ae_uuid = ''a2'', ae_created = 0, ae_updated = 0\<rparr>\<rparr>"

lemma sample_api_ok: "db_ok (as_db sample_api)" "hub_ok (as_hub sample_api)"
proof -
  show "db_ok (as_db sample_api)"
    by (simp add: sample_api_def db_ok_def refs_def sample_defs list_ex_iff)
  show "hub_ok (as_hub sample_api)"
    using hub_sys.reach_inv [OF reach_init, of "Inr NewHub"] by (simp add: sample_api_def hub_inv_def)
qed

section \<open>Properties\<close>

text \<open>
  C18: the API keeps the system's invariants: every route, whatever its input and whatever fails, leaves the tables within the
  schema's constraints and the hub sound, changes nothing when its method is GET, and can panic only by dereferencing nil, before
  it has changed anything.
\<close>

theorem api_keeps_invariants:
  assumes "db_ok (as_db st)" and "hub_ok (as_hub st)" and "api_handle A encKey arrange e c st = (r, st')"
  shows "db_ok (as_db st') \<and> hub_ok (as_hub st') \<and> (\<not> mutating (api_method c) \<longrightarrow> st' = st) \<and>
     (\<forall>p. r = Inl p \<longrightarrow> p = NilDereference \<and> st' = st)"
  using api_handle_good [OF assms(1,2), of A encKey arrange e c] api_read_only [of c A encKey arrange e st] assms(3)
  by (auto simp: api_good_def)

theorem api_keeps_invariants_witness:
  "db_ok (as_db (snd (api_handle tag_aead [] newest_first sample_api_env (CCreateGroup (Some (''dev'', []))) sample_api)))"
  using api_keeps_invariants [OF sample_api_ok prod.collapse [symmetric]] by blast

text \<open>
  C35: the API does not show secrets: what it answers for an app or a list of apps does not depend on the stored secret keys or on the
  webhook secrets.
\<close>

theorem api_hides_secrets:
  assumes "same_public (as_db st) (as_db st')"
  shows "fst (api_GetApp e i st) = fst (api_GetApp e i st') \<and> fst (api_ListApps e g st) = fst (api_ListApps e g st')"
proof (intro conjI)
  from assms have ap: "map erase_secrets (apps (as_db st)) = map erase_secrets (apps (as_db st'))"
    by (simp add: same_public_def)
  show "fst (api_GetApp e i st) = fst (api_GetApp e i st')"
    using opt_json_erase [OF find_erase [OF ap]]
    by (cases "pe_fault e") (simp_all add: api_GetApp_def GetApp_def answer_def)
  have "map erase_secrets (sort_key ar_name (filter (\<lambda>a. ar_group_id a = g) (apps (as_db st)))) =
      map erase_secrets (sort_key ar_name (filter (\<lambda>a. ar_group_id a = g) (apps (as_db st'))))"
    unfolding sort_erase by (simp only: map_filter_erase [OF ap])
  from list_json_erase [OF this] show "fst (api_ListApps e g st) = fst (api_ListApps e g st')"
    by (cases "pe_fault e") (simp_all add: api_ListApps_def ListAppsByGroup_def answer_def)
qed

theorem api_hides_secrets_witness:
  "fst (api_GetApp sample_api_env ''a1'' sample_api) =
   fst (api_GetApp sample_api_env ''a1'' (sample_api\<lparr>as_db := sample_db\<lparr>apps := [(app_to_row sample_app)\<lparr>ar_src_secret_key := ''other''\<rparr>]\<rparr>\<rparr>))"
  using api_hides_secrets [of sample_api "sample_api\<lparr>as_db := sample_db\<lparr>apps := [(app_to_row sample_app)\<lparr>ar_src_secret_key := ''other''\<rparr>]\<rparr>\<rparr>"
      sample_api_env "''a1''" "[]"]
  by (simp add: same_public_def sample_api_def sample_db_def erase_secrets_def app_to_row_def)

text \<open>
  C37: an unknown id is not answered 404: the reads answer 200 with null, and the updates and the webhook URL panic on the
  nil pointer.
\<close>

theorem api_unknown_id:
  assumes "pe_fault e = None" and "GetGroup None i (as_db st) = Inr None" and "GetApp None j (as_db st) = Inr None"
    and "GetTransfer None k (as_db st) = Inr None"
  shows "api_GetGroup e i st = (Inr (writeJSON 200 JNull), st) \<and> api_GetApp e j st = (Inr (writeJSON 200 JNull), st) \<and>
     api_GetTransfer e k st = (Inr (writeJSON 200 JNull), st) \<and>
     api_UpdateGroup e i (Some gb) st = (Inl NilDereference, st) \<and>
     api_UpdateApp A encKey e j (Some ab) st = (Inl NilDereference, st) \<and>
     api_GetWebhookURL e j st = (Inl NilDereference, st)"
  using assms
  by (cases gb) (simp add: api_GetGroup_def api_GetApp_def api_GetTransfer_def api_UpdateGroup_def api_UpdateApp_def update_app_write_def
      api_GetWebhookURL_def answer_def opt_json_def)

theorem api_unknown_id_witness:
  "api_UpdateGroup sample_api_env ''nope'' (Some (None, None)) sample_api = (Inl NilDereference, sample_api)"
  using api_unknown_id [of sample_api_env "''nope''" sample_api "''nope''" "''nope''" "(None, None)"]
  by (simp add: sample_api_env_def sample_api_def GetGroup_def GetApp_def GetTransfer_def find_transfer_def sample_defs)








end
