(* ===== verification/FG_Config.thy ===== *)
theory FG_Config
  imports FG_Golib
begin

text \<open>
  The package \<open>internal/config\<close>: the configuration structure and its duration syntax
  (\<open>model.go\<close>), and loading (\<open>loader.go\<close>): interpolation of environment variables, defaults and
  validation. Reading the file, the process environment and the YAML decoder are parameters of
  \<open>Load\<close>. A fractional part of a duration is computed exactly, where Go uses floating point.
\<close>

section \<open>Configuration\<close>

record server_config =
  sc_host :: string
  sc_port :: int
  sc_tls_cert :: string
  sc_tls_key :: string
  sc_read_timeout :: duration
  sc_write_timeout :: duration
  sc_idle_timeout :: duration

record database_config =
  dc_path :: string
  dc_max_open :: int
  dc_max_idle :: int

record transfer_config =
  tc_worker_pool_size :: int
  tc_retry_attempts :: int
  tc_retry_backoff :: duration
  tc_dedup_window :: duration

record logging_config =
  lc_level :: string
  lc_format :: string

record security_config =
  xc_secret_key :: string

record dashboard_config =
  hc_enabled :: bool
  hc_auth_enabled :: bool
  hc_username :: string
  hc_password :: string

record config =
  c_server :: server_config
  c_database :: database_config
  c_transfer :: transfer_config
  c_logging :: logging_config
  c_security :: security_config
  c_dashboard :: dashboard_config

section \<open>Durations\<close>

definition is_digit :: "char \<Rightarrow> bool" where
  "is_digit c \<longleftrightarrow> digit_val c \<noteq> None"

definition digits_num :: "string \<Rightarrow> nat" where
  "digits_num s = (case digits_val 0 s of None \<Rightarrow> 0 | Some n \<Rightarrow> n)"

fun duration_unit :: "string \<Rightarrow> nat option" where
  "duration_unit u =
     (if u = ''ns'' then Some 1
      else if u = ''us'' \<or> u = [CHR 0xC2, CHR 0xB5, CHR ''s''] \<or> u = [CHR 0xCE, CHR 0xBC, CHR ''s'']
        then Some 1000
      else if u = ''ms'' then Some 1000000
      else if u = ''s'' then Some 1000000000
      else if u = ''m'' then Some 60000000000
      else if u = ''h'' then Some 3600000000000
      else None)"

text \<open>One \<open>number unit\<close> group of a duration: its value in nanoseconds and the rest of the text.\<close>

definition duration_group :: "string \<Rightarrow> (nat \<times> string) option" where
  "duration_group s =
     (let ip = takeWhile is_digit s; r1 = dropWhile is_digit s;
          dot = (case r1 of c # _ \<Rightarrow> c = CHR ''.'' | [] \<Rightarrow> False);
          fp = (if dot then takeWhile is_digit (tl r1) else []);
          r2 = (if dot then dropWhile is_digit (tl r1) else r1);
          u = takeWhile (\<lambda>c. c \<noteq> CHR ''.'' \<and> \<not> is_digit c) r2;
          r3 = dropWhile (\<lambda>c. c \<noteq> CHR ''.'' \<and> \<not> is_digit c) r2
      in if ip = [] \<and> fp = [] \<or> u = [] then None
         else case duration_unit u of
                None \<Rightarrow> None
              | Some unit \<Rightarrow>
                  (let v = digits_num ip * unit + digits_num fp * unit div 10 ^ length fp
                   in if 2 ^ 63 < v then None else Some (v, r3)))"

fun duration_groups :: "nat \<Rightarrow> nat \<Rightarrow> string \<Rightarrow> nat option" where
  "duration_groups fuel d [] = Some d"
| "duration_groups 0 d s = None"
| "duration_groups (Suc fuel) d s =
     (case duration_group s of
        None \<Rightarrow> None
      | Some (v, r) \<Rightarrow> if 2 ^ 63 < d + v then None else duration_groups fuel (d + v) r)"

definition parse_duration :: "string \<Rightarrow> duration res" where
  "parse_duration orig =
     (let bad = Inl (Err (''time: invalid duration '' @ go_quote orig));
          neg = (case orig of c # _ \<Rightarrow> c = CHR ''-'' | [] \<Rightarrow> False);
          s = (case orig of c # cs \<Rightarrow> (if c = CHR ''-'' \<or> c = CHR ''+'' then cs else orig) | [] \<Rightarrow> orig)
      in if s = ''0'' then Inr 0
         else if s = [] then bad
         else case duration_groups (length s) 0 s of
                None \<Rightarrow> bad
              | Some d \<Rightarrow> if neg then Inr (- int d)
                          else if int d \<le> max_int64 then Inr (int d) else bad)"

text \<open>
  \<open>Duration.UnmarshalYAML\<close>: \<open>as_string\<close> and \<open>as_int\<close> are what the YAML decoder's callback
  answers when asked for a string and for an \<open>int64\<close>.
\<close>

definition UnmarshalYAML :: "string res \<Rightarrow> int res \<Rightarrow> duration res" where
  "UnmarshalYAML as_string as_int =
     (case as_string of
        Inl err \<Rightarrow> (case as_int of Inl err2 \<Rightarrow> Inl err | Inr n \<Rightarrow> Inr n)
      | Inr s \<Rightarrow>
          (case parse_duration s of
             Inl err \<Rightarrow> Inl (Wrap (''invalid duration '' @ go_quote s) err)
           | Inr dur \<Rightarrow> Inr dur))"

section \<open>Interpolation of environment variables\<close>

text \<open>
  The regular expression \<^verbatim>\<open>\$\{([^}]+)\}\<close> at the front of a text: the name between the braces
  and what follows the closing brace.
\<close>

definition match_env :: "string \<Rightarrow> (string \<times> string) option" where
  "match_env s =
     (case s of
        c1 # c2 # r \<Rightarrow>
          (if c1 = CHR ''$'' \<and> c2 = CHR ''{'' then
             (let key = takeWhile (\<lambda>c. c \<noteq> CHR ''}'') r; rest = dropWhile (\<lambda>c. c \<noteq> CHR ''}'') r
              in if key \<noteq> [] \<and> rest \<noteq> [] then Some (key, tl rest) else None)
           else None)
      | _ \<Rightarrow> None)"

definition env_value :: "(string \<Rightarrow> string option) \<Rightarrow> string \<Rightarrow> string" where
  "env_value lookup_env key =
     (case lookup_env key of Some val \<Rightarrow> val | None \<Rightarrow> ''${'' @ key @ ''}'')"

lemma match_env_length: "match_env s = Some (key, rest) \<Longrightarrow> length rest < length s"
proof -
  assume m: "match_env s = Some (key, rest)"
  then obtain c1 c2 r where s: "s = c1 # c2 # r" and rest: "rest = tl (dropWhile (\<lambda>c. c \<noteq> CHR ''}'') r)"
    by (auto simp: match_env_def Let_def split: list.splits if_splits)
  have "length rest \<le> length (dropWhile (\<lambda>c. c \<noteq> CHR ''}'') r)" by (simp add: rest)
  also have "\<dots> \<le> length r" by (rule length_dropWhile_le)
  finally show ?thesis by (simp add: s)
qed

function expand_env :: "(string \<Rightarrow> string option) \<Rightarrow> string \<Rightarrow> string" where
  "expand_env lookup_env s =
     (case match_env s of
        Some (key, rest) \<Rightarrow> env_value lookup_env key @ expand_env lookup_env rest
      | None \<Rightarrow> (case s of [] \<Rightarrow> [] | c # cs \<Rightarrow> c # expand_env lookup_env cs))"
  by pat_completeness auto
termination
  by (relation "measure (\<lambda>(f, s). length s)") (auto dest: match_env_length)

declare expand_env.simps [simp del]

section \<open>Defaults\<close>

definition default_str :: "string \<Rightarrow> string \<Rightarrow> string" where
  "default_str d x = (if x = [] then d else x)"

definition default_int :: "int \<Rightarrow> int \<Rightarrow> int" where
  "default_int d x = (if x = 0 then d else x)"

definition applyDefaults :: "config \<Rightarrow> config" where
  "applyDefaults cfg =
     (let s = c_server cfg; d = c_database cfg; t = c_transfer cfg; l = c_logging cfg;
          h = c_dashboard cfg
      in cfg\<lparr>c_server := s\<lparr>sc_host := default_str ''0.0.0.0'' (sc_host s),
                            sc_port := default_int 8080 (sc_port s),
                            sc_read_timeout := default_int (30 * Second) (sc_read_timeout s),
                            sc_write_timeout := default_int (30 * Second) (sc_write_timeout s),
                            sc_idle_timeout := default_int (120 * Second) (sc_idle_timeout s)\<rparr>,
             c_database := d\<lparr>dc_path := default_str ''./flowgate.db'' (dc_path d),
                              dc_max_open := default_int 5 (dc_max_open d),
                              dc_max_idle := default_int 2 (dc_max_idle d)\<rparr>,
             c_transfer := t\<lparr>tc_worker_pool_size := default_int 50 (tc_worker_pool_size t),
                              tc_dedup_window := default_int (60 * Second) (tc_dedup_window t)\<rparr>,
             c_logging := l\<lparr>lc_level := default_str ''info'' (lc_level l),
                             lc_format := default_str ''json'' (lc_format l)\<rparr>,
             c_dashboard := h\<lparr>hc_username := default_str ''admin'' (hc_username h)\<rparr>\<rparr>)"

section \<open>Validation and loading\<close>

definition err_secret :: string where
  "err_secret = ''security.secret_key must be set (use the SECRET_KEY env var)''"

definition err_port :: string where
  "err_port = ''server.port must be between 1 and 65535''"

definition err_workers :: string where
  "err_workers = ''transfer.worker_pool_size must be at least 1''"

definition err_tls :: string where
  "err_tls = ''server.tls_cert and server.tls_key must both be set or both be empty''"

definition err_password :: string where
  "err_password = ''dashboard.password must be set when dashboard.auth_enabled is true (use the DASH_PASSWORD env var)''"

text \<open>A value that is blank or still an unresolved placeholder.\<close>

definition unset_value :: "string \<Rightarrow> bool" where
  "unset_value v \<longleftrightarrow> (let k = trim_space v in k = [] \<or> has_prefix k ''${'')"

definition validate_errs :: "config \<Rightarrow> string list" where
  "validate_errs cfg =
     (if unset_value (xc_secret_key (c_security cfg)) then [err_secret] else []) @
     (if sc_port (c_server cfg) < 1 \<or> sc_port (c_server cfg) > 65535 then [err_port] else []) @
     (if tc_worker_pool_size (c_transfer cfg) < 1 then [err_workers] else []) @
     (if (sc_tls_cert (c_server cfg) = []) \<noteq> (sc_tls_key (c_server cfg) = []) then [err_tls] else []) @
     (if hc_auth_enabled (c_dashboard cfg) \<and> unset_value (hc_password (c_dashboard cfg))
      then [err_password] else [])"

definition validate :: "config \<Rightarrow> unit res" where
  "validate cfg =
     (let errs = validate_errs cfg
      in if errs \<noteq> [] then Inl (Err (string_join errs ''; '')) else Inr ())"

definition Load ::
  "(string \<Rightarrow> string res) \<Rightarrow> (string \<Rightarrow> string option) \<Rightarrow> (string \<Rightarrow> config res) \<Rightarrow> string \<Rightarrow> config res" where
  "Load read_file lookup_env yaml_unmarshal path =
     (case read_file path of
        Inl e \<Rightarrow> Inl (Wrap (''read config '' @ path) e)
      | Inr raw \<Rightarrow>
          (case yaml_unmarshal (expand_env lookup_env raw) of
             Inl e \<Rightarrow> Inl (Wrap ''parse config'' e)
           | Inr cfg0 \<Rightarrow>
               (let cfg = applyDefaults cfg0
                in case validate cfg of
                     Inl e \<Rightarrow> Inl (Wrap ''invalid config'' e)
                   | Inr _ \<Rightarrow> Inr cfg)))"

section \<open>What a loaded configuration guarantees\<close>

definition config_ok :: "config \<Rightarrow> bool" where
  "config_ok cfg \<longleftrightarrow>
     \<not> unset_value (xc_secret_key (c_security cfg)) \<and>
     1 \<le> sc_port (c_server cfg) \<and> sc_port (c_server cfg) \<le> 65535 \<and>
     1 \<le> tc_worker_pool_size (c_transfer cfg) \<and>
     (sc_tls_cert (c_server cfg) = [] \<longleftrightarrow> sc_tls_key (c_server cfg) = []) \<and>
     (hc_auth_enabled (c_dashboard cfg) \<longrightarrow> \<not> unset_value (hc_password (c_dashboard cfg)))"

definition defaults_ok :: "config \<Rightarrow> bool" where
  "defaults_ok cfg \<longleftrightarrow>
     sc_host (c_server cfg) \<noteq> [] \<and> sc_port (c_server cfg) \<noteq> 0 \<and>
     sc_read_timeout (c_server cfg) \<noteq> 0 \<and> sc_write_timeout (c_server cfg) \<noteq> 0 \<and>
     sc_idle_timeout (c_server cfg) \<noteq> 0 \<and> dc_path (c_database cfg) \<noteq> [] \<and>
     dc_max_open (c_database cfg) \<noteq> 0 \<and> dc_max_idle (c_database cfg) \<noteq> 0 \<and>
     tc_worker_pool_size (c_transfer cfg) \<noteq> 0 \<and> tc_dedup_window (c_transfer cfg) \<noteq> 0 \<and>
     lc_level (c_logging cfg) \<noteq> [] \<and> lc_format (c_logging cfg) \<noteq> [] \<and>
     hc_username (c_dashboard cfg) \<noteq> []"

text \<open>A concrete configuration file's content, as the YAML decoder returns it.\<close>

definition sample_config :: config where
  "sample_config =
     \<lparr>c_server = \<lparr>sc_host = [], sc_port = 0, sc_tls_cert = [], sc_tls_key = [], sc_read_timeout = 0,
                   sc_write_timeout = 0, sc_idle_timeout = 0\<rparr>,
      c_database = \<lparr>dc_path = [], dc_max_open = 0, dc_max_idle = 0\<rparr>,
      c_transfer = \<lparr>tc_worker_pool_size = 0, tc_retry_attempts = 3, tc_retry_backoff = 5 * Second,
                     tc_dedup_window = 0\<rparr>,
      c_logging = \<lparr>lc_level = [], lc_format = []\<rparr>,
      c_security = \<lparr>xc_secret_key = ''s3cret''\<rparr>,
      c_dashboard = \<lparr>hc_enabled = True, hc_auth_enabled = True, hc_username = [], hc_password = ''pw''\<rparr>\<rparr>"

section \<open>Lemmas\<close>

lemma default_str_neq [simp]: "d \<noteq> [] \<Longrightarrow> default_str d x \<noteq> []"
  by (simp add: default_str_def)

lemma default_int_neq [simp]: "d \<noteq> 0 \<Longrightarrow> default_int d x \<noteq> 0"
  by (simp add: default_int_def)

lemma default_str_id [simp]: "x \<noteq> [] \<Longrightarrow> default_str d x = x"
  by (simp add: default_str_def)

lemma default_int_id [simp]: "x \<noteq> 0 \<Longrightarrow> default_int d x = x"
  by (simp add: default_int_def)

lemma defaults_ok_applyDefaults: "defaults_ok (applyDefaults cfg)"
  by (simp add: defaults_ok_def applyDefaults_def Let_def)

lemma applyDefaults_id: "defaults_ok cfg \<Longrightarrow> applyDefaults cfg = cfg"
  by (simp add: defaults_ok_def applyDefaults_def Let_def)

lemma validate_errs_Nil_iff: "validate_errs cfg = [] \<longleftrightarrow> config_ok cfg"
  by (auto simp: validate_errs_def config_ok_def)

lemma validate_Inr_iff: "validate cfg = Inr u \<longleftrightarrow> config_ok cfg"
  by (simp add: validate_def Let_def flip: validate_errs_Nil_iff)

lemma Load_Inr:
  "Load rf le yu path = Inr cfg \<Longrightarrow>
     \<exists>raw cfg0. rf path = Inr raw \<and> yu (expand_env le raw) = Inr cfg0 \<and> cfg = applyDefaults cfg0 \<and> config_ok cfg"
  by (auto simp: Load_def Let_def validate_Inr_iff split: sum.splits)

lemma match_env_None_no_dollar: "CHR ''$'' \<notin> set s \<Longrightarrow> match_env s = None"
  by (auto simp: match_env_def split: list.splits)

lemma expand_env_Nil [simp]: "expand_env le [] = []"
  by (simp add: expand_env.simps match_env_def)

lemma expand_env_Cons: "c \<noteq> CHR ''$'' \<Longrightarrow> expand_env le (c # s) = c # expand_env le s"
  by (subst expand_env.simps) (auto simp: match_env_def split: list.splits)

lemma expand_env_plain: "CHR ''$'' \<notin> set a \<Longrightarrow> expand_env le (a @ s) = a @ expand_env le s"
  by (induction a) (auto simp: expand_env_Cons)

lemma match_env_placeholder:
  "key \<noteq> [] \<Longrightarrow> CHR ''}'' \<notin> set key \<Longrightarrow> match_env (''${'' @ key @ CHR ''}'' # rest) = Some (key, rest)"
proof -
  assume k: "key \<noteq> []" "CHR ''}'' \<notin> set key"
  from k(2) have all: "\<And>c. c \<in> set key \<Longrightarrow> c \<noteq> CHR ''}''" by auto
  have "takeWhile (\<lambda>c. c \<noteq> CHR ''}'') (key @ CHR ''}'' # rest) = key"
    by (subst takeWhile_append2) (simp_all add: all)
  moreover have "dropWhile (\<lambda>c. c \<noteq> CHR ''}'') (key @ CHR ''}'' # rest) = CHR ''}'' # rest"
    by (subst dropWhile_append2) (simp_all add: all)
  ultimately show ?thesis using k(1) by (simp add: match_env_def Let_def)
qed

lemma expand_env_placeholder:
  "key \<noteq> [] \<Longrightarrow> CHR ''}'' \<notin> set key \<Longrightarrow>
   expand_env le (''${'' @ key @ CHR ''}'' # rest) = env_value le key @ expand_env le rest"
  using match_env_placeholder [of key rest] by (subst expand_env.simps) simp

lemma match_env_split:
  "match_env s = Some (key, rest) \<Longrightarrow> s = ''${'' @ key @ CHR ''}'' # rest"
proof -
  assume m: "match_env s = Some (key, rest)"
  then obtain r where s: "s = ''${'' @ r" and key: "key = takeWhile (\<lambda>c. c \<noteq> CHR ''}'') r"
    and rest: "rest = tl (dropWhile (\<lambda>c. c \<noteq> CHR ''}'') r)" and ne: "dropWhile (\<lambda>c. c \<noteq> CHR ''}'') r \<noteq> []"
    by (auto simp: match_env_def Let_def split: list.splits if_splits)
  from ne have "dropWhile (\<lambda>c. c \<noteq> CHR ''}'') r = CHR ''}'' # rest"
    using hd_dropWhile [of "\<lambda>c. c \<noteq> CHR ''}''" r] rest
    by (metis (mono_tags, lifting) list.collapse)
  then show ?thesis
    using takeWhile_dropWhile_id [of "\<lambda>c. c \<noteq> CHR ''}''" r] s key by simp
qed

text \<open>With no variable set, interpolation leaves the text as it is.\<close>

lemma expand_env_none: "expand_env (\<lambda>_. None) s = s"
proof (induction "\<lambda>_ :: string. None :: string option" s rule: expand_env.induct)
  case (1 s)
  show ?case
  proof (cases "match_env s")
    case None
    with 1 show ?thesis by (subst expand_env.simps) (auto split: list.splits)
  next
    case (Some p)
    obtain key rest where p: "p = (key, rest)" by (cases p)
    with Some 1 have "expand_env (\<lambda>_. None) rest = rest" by simp
    with Some p match_env_split [of s key rest] show ?thesis
      by (subst expand_env.simps) (simp add: env_value_def)
  qed
qed

section \<open>Properties\<close>

text \<open>
  C27: a configuration that \<open>Load\<close> returns is fully defaulted and valid: the port is in range, there
  is at least one worker, TLS certificate and key come together, the secret key is set and, when
  dashboard authentication is on, so is the password. Applying the defaults again changes nothing.
\<close>

theorem Load_config_ok:
  assumes "Load read_file lookup_env yaml_unmarshal path = Inr cfg"
  shows "config_ok cfg \<and> defaults_ok cfg \<and> applyDefaults cfg = cfg"
proof -
  from Load_Inr [OF assms] obtain cfg0 where cfg: "cfg = applyDefaults cfg0" and ok: "config_ok cfg"
    by blast
  have "defaults_ok cfg" by (simp add: cfg defaults_ok_applyDefaults)
  with ok applyDefaults_id show ?thesis by blast
qed

theorem Load_config_ok_witness:
  "config_ok (applyDefaults sample_config) \<and> defaults_ok (applyDefaults sample_config) \<and>
   applyDefaults (applyDefaults sample_config) = applyDefaults sample_config"
proof (rule Load_config_ok)
  have "config_ok (applyDefaults sample_config)"
    by code_simp
  then have "validate (applyDefaults sample_config) = Inr ()"
    by (simp add: validate_Inr_iff)
  then show "Load (\<lambda>_. Inr []) (\<lambda>_. None) (\<lambda>_. Inr sample_config) ''config.yaml'' =
      Inr (applyDefaults sample_config)"
    by (simp add: Load_def)
qed

text \<open>
  \<open>validate\<close> rejects a configuration exactly when one of its five conditions fails, and the
  message names every condition that fails, in the order of the checks.
\<close>

theorem validate_complete:
  "(validate cfg = Inr () \<longleftrightarrow> config_ok cfg) \<and>
   validate cfg \<in> {Inr (), Inl (Err (string_join (validate_errs cfg) ''; ''))} \<and>
   set (validate_errs cfg) =
     {e. e = err_secret \<and> unset_value (xc_secret_key (c_security cfg)) \<or>
         e = err_port \<and> \<not> (1 \<le> sc_port (c_server cfg) \<and> sc_port (c_server cfg) \<le> 65535) \<or>
         e = err_workers \<and> tc_worker_pool_size (c_transfer cfg) < 1 \<or>
         e = err_tls \<and> (sc_tls_cert (c_server cfg) = []) \<noteq> (sc_tls_key (c_server cfg) = []) \<or>
         e = err_password \<and> hc_auth_enabled (c_dashboard cfg) \<and> unset_value (hc_password (c_dashboard cfg))}"
proof (intro conjI)
  show "validate cfg = Inr () \<longleftrightarrow> config_ok cfg" by (rule validate_Inr_iff)
  show "validate cfg \<in> {Inr (), Inl (Err (string_join (validate_errs cfg) ''; ''))}"
    by (simp add: validate_def Let_def)
qed (auto simp: validate_errs_def)

text \<open>
  C28: interpolation replaces a placeholder by the value of its variable, keeps the placeholder of an
  unset variable, does not look inside a substituted value, and leaves text without placeholders
  alone.
\<close>

theorem expand_env_spec:
  assumes "CHR ''$'' \<notin> set pre" and "key \<noteq> []" and "CHR ''}'' \<notin> set key"
  shows "expand_env lookup_env (pre @ ''${'' @ key @ ''}'' @ rest) =
           pre @ (case lookup_env key of Some v \<Rightarrow> v | None \<Rightarrow> ''${'' @ key @ ''}'') @ expand_env lookup_env rest \<and>
         expand_env lookup_env pre = pre \<and>
         expand_env (\<lambda>_. None) text = text"
proof (intro conjI)
  show "expand_env lookup_env (pre @ ''${'' @ key @ ''}'' @ rest) =
           pre @ (case lookup_env key of Some v \<Rightarrow> v | None \<Rightarrow> ''${'' @ key @ ''}'') @ expand_env lookup_env rest"
    using expand_env_plain [OF assms(1), of lookup_env "''${'' @ key @ CHR ''}'' # rest"]
      expand_env_placeholder [OF assms(2,3), of lookup_env rest]
    by (simp add: env_value_def)
  show "expand_env lookup_env pre = pre"
    using expand_env_plain [OF assms(1), of lookup_env "[]"] by simp
  show "expand_env (\<lambda>_. None) text = text" by (rule expand_env_none)
qed

theorem expand_env_spec_witness:
  "expand_env [''SECRET_KEY'' \<mapsto> ''${X}''] ''secret_key: ${SECRET_KEY}'' = ''secret_key: ${X}''"
  using expand_env_spec [of "''secret_key: ''" "''SECRET_KEY''" "[''SECRET_KEY'' \<mapsto> ''${X}'']" "[]" "[]"]
  by simp

end
