(* ===== verification/FG_Migrations.thy ===== *)
theory FG_Migrations
  imports FG_Golib
begin

text \<open>
  Schema migrations, \<open>internal/storage/migrations.go\<close> with the four embedded scripts. A schema is
  the list of tables with their columns, the list of indexes and the recorded versions. A script is
  the list of its statements; the engine runs them one after the other, each committed by itself,
  and stops at the first that fails. \<open>pf\<close>, \<open>vf\<close> and \<open>sf\<close> are failures of the engine's own: of the
  pragmas, of the version query and of a statement of a script (by script and position).
\<close>

datatype ddl =
    CreateTable string "string list"
  | CreateIndex string string "string list"
  | AddColumn string string
  | InsertVersion nat

record schema =
  sch_tables :: "(string \<times> string list) list"
  sch_indexes :: "string list"
  sch_versions :: "nat list"

definition empty_schema :: schema where
  "empty_schema = \<lparr>sch_tables = [], sch_indexes = [], sch_versions = []\<rparr>"

fun exec_ddl :: "ddl \<Rightarrow> schema \<Rightarrow> schema res" where
  "exec_ddl (CreateTable n cols) s =
     (case map_of (sch_tables s) n of
        Some _ \<Rightarrow> Inr s
      | None \<Rightarrow> Inr (s\<lparr>sch_tables := sch_tables s @ [(n, cols)]\<rparr>))"
| "exec_ddl (CreateIndex i t cols) s =
     (if i \<in> set (sch_indexes s) then Inr s
      else case map_of (sch_tables s) t of
             None \<Rightarrow> Inl (Err (''no such table: '' @ t))
           | Some cs \<Rightarrow> if set cols \<subseteq> set cs then Inr (s\<lparr>sch_indexes := sch_indexes s @ [i]\<rparr>)
                        else Inl (Err ''no such column''))"
| "exec_ddl (AddColumn t c) s =
     (case map_of (sch_tables s) t of
        None \<Rightarrow> Inl (Err (''no such table: '' @ t))
      | Some cs \<Rightarrow>
          if c \<in> set cs then Inl (Err (''duplicate column name: '' @ c))
          else Inr (s\<lparr>sch_tables := map (\<lambda>(n, cs). if n = t then (n, cs @ [c]) else (n, cs)) (sch_tables s)\<rparr>))"
| "exec_ddl (InsertVersion v) s =
     (case map_of (sch_tables s) ''schema_version'' of
        None \<Rightarrow> Inl (Err ''no such table: schema_version'')
      | Some _ \<Rightarrow> if v \<in> set (sch_versions s) then Inr s
                  else Inr (s\<lparr>sch_versions := sch_versions s @ [v]\<rparr>))"

text \<open>Run a script from statement \<open>i\<close> on; what ran before a failure stays.\<close>

fun exec_script :: "(nat \<Rightarrow> string option) \<Rightarrow> nat \<Rightarrow> ddl list \<Rightarrow> schema \<Rightarrow> schema \<times> go_error option" where
  "exec_script fault i [] s = (s, None)"
| "exec_script fault i (st # sts) s =
     (case fault i of
        Some e \<Rightarrow> (s, Some (Err e))
      | None \<Rightarrow>
          (case exec_ddl st s of
             Inl e \<Rightarrow> (s, Some e)
           | Inr s' \<Rightarrow> exec_script fault (Suc i) sts s'))"

definition schema001 :: "ddl list" where
  "schema001 =
     [CreateTable ''groups'' [''id'', ''name'', ''description'', ''created_at'', ''updated_at''],
      CreateTable ''apps'' [''id'', ''group_id'', ''name'', ''description'',
        ''src_endpoint'', ''src_access_key'', ''src_secret_key'', ''src_bucket'', ''src_region'', ''src_use_ssl'',
        ''dst_endpoint'', ''dst_access_key'', ''dst_secret_key'', ''dst_bucket'', ''dst_region'', ''dst_use_ssl'',
        ''webhook_secret'', ''enabled'', ''created_at'', ''updated_at''],
      CreateIndex ''idx_apps_route'' ''apps'' [''name'', ''group_id''],
      CreateTable ''transfers'' [''id'', ''app_id'', ''object_key'', ''src_bucket'', ''dst_bucket'', ''object_size'',
        ''etag'', ''status'', ''error_message'', ''bytes_transferred'', ''started_at'', ''completed_at'',
        ''duration_ms'', ''created_at''],
      CreateIndex ''idx_transfers_app_id'' ''transfers'' [''app_id''],
      CreateIndex ''idx_transfers_status'' ''transfers'' [''status''],
      CreateIndex ''idx_transfers_created'' ''transfers'' [''created_at''],
      CreateTable ''schema_version'' [''version'', ''applied_at''],
      InsertVersion 1]"

definition schema002 :: "ddl list" where
  "schema002 =
     [AddColumn ''apps'' ''src_skip_tls_verify'', AddColumn ''apps'' ''dst_skip_tls_verify'', InsertVersion 2]"

definition schema003 :: "ddl list" where
  "schema003 =
     [AddColumn ''apps'' ''retry_max_attempts'', AddColumn ''apps'' ''retry_backoff_seconds'',
      AddColumn ''transfers'' ''retry_count'', AddColumn ''transfers'' ''max_retries'',
      AddColumn ''transfers'' ''next_retry_at'', InsertVersion 3]"

definition schema004 :: "ddl list" where
  "schema004 =
     [CreateIndex ''idx_transfers_active_lookup'' ''transfers'' [''app_id'', ''object_key'', ''status''],
      InsertVersion 4]"

text \<open>\<open>SELECT COALESCE(MAX(version),0)\<close>; an error of the query leaves the variable at 0.\<close>

definition read_version :: "string option \<Rightarrow> schema \<Rightarrow> nat" where
  "read_version vf s =
     (case vf of
        Some _ \<Rightarrow> 0
      | None \<Rightarrow> (case map_of (sch_tables s) ''schema_version'' of
                   None \<Rightarrow> 0
                 | Some _ \<Rightarrow> Max (set (0 # sch_versions s))))"

text \<open>The chain of \<open>if version < n\<close> blocks from script \<open>n\<close> on.\<close>

fun apply_from :: "(nat \<Rightarrow> nat \<Rightarrow> string option) \<Rightarrow> nat \<Rightarrow> (nat \<times> ddl list) list \<Rightarrow> schema \<Rightarrow>
    schema \<times> go_error option" where
  "apply_from sf version [] s = (s, None)"
| "apply_from sf version ((n, script) # rest) s =
     (if version < n then
        (case exec_script (sf n) 0 script s of
           (s', Some e) \<Rightarrow> (s', Some (Wrap (''apply schema v'' @ decimal (int n)) e))
         | (s', None) \<Rightarrow> apply_from sf version rest s')
      else apply_from sf version rest s)"

definition scripts :: "(nat \<times> ddl list) list" where
  "scripts = [(1, schema001), (2, schema002), (3, schema003), (4, schema004)]"

definition pragmas :: "string list" where
  "pragmas = [''PRAGMA journal_mode = WAL;'', ''PRAGMA foreign_keys = ON;'', ''PRAGMA busy_timeout = 5000;'']"

fun exec_pragmas :: "(string \<Rightarrow> string option) \<Rightarrow> string list \<Rightarrow> go_error option" where
  "exec_pragmas pf [] = None"
| "exec_pragmas pf (p # ps) =
     (case pf p of Some e \<Rightarrow> Some (Wrap (''pragma '' @ go_quote p) (Err e)) | None \<Rightarrow> exec_pragmas pf ps)"

definition Migrate ::
  "(string \<Rightarrow> string option) \<Rightarrow> string option \<Rightarrow> (nat \<Rightarrow> nat \<Rightarrow> string option) \<Rightarrow> schema \<Rightarrow>
   schema \<times> go_error option" where
  "Migrate pf vf sf s =
     (case exec_pragmas pf pragmas of
        Some e \<Rightarrow> (s, Some e)
      | None \<Rightarrow> apply_from sf (read_version vf s) scripts s)"

abbreviation Migrate_ok :: "schema \<Rightarrow> schema \<times> go_error option" where
  "Migrate_ok \<equiv> Migrate (\<lambda>_. None) None (\<lambda>_ _. None)"

text \<open>The schema after the first \<open>k\<close> migrations, each complete.\<close>

definition schema_at :: "nat \<Rightarrow> schema" where
  "schema_at k = fst (exec_script (\<lambda>_. None) 0 (concat (map snd (take k scripts))) empty_schema)"

text \<open>The columns that the queries of \<open>store.go\<close> name.\<close>

definition query_columns :: "string \<Rightarrow> string list" where
  "query_columns t =
     (if t = ''groups'' then [''id'', ''name'', ''description'', ''created_at'', ''updated_at'']
      else if t = ''apps'' then [''id'', ''group_id'', ''name'', ''description'',
        ''src_endpoint'', ''src_access_key'', ''src_secret_key'', ''src_bucket'', ''src_region'', ''src_use_ssl'',
        ''src_skip_tls_verify'', ''dst_endpoint'', ''dst_access_key'', ''dst_secret_key'', ''dst_bucket'',
        ''dst_region'', ''dst_use_ssl'', ''dst_skip_tls_verify'', ''webhook_secret'', ''enabled'',
        ''retry_max_attempts'', ''retry_backoff_seconds'', ''created_at'', ''updated_at'']
      else if t = ''transfers'' then [''id'', ''app_id'', ''object_key'', ''src_bucket'', ''dst_bucket'',
        ''object_size'', ''etag'', ''status'', ''error_message'', ''bytes_transferred'', ''started_at'',
        ''completed_at'', ''duration_ms'', ''created_at'', ''retry_count'', ''max_retries'', ''next_retry_at'']
      else [])"

definition has_table :: "schema \<Rightarrow> string \<Rightarrow> bool" where
  "has_table s n \<longleftrightarrow> n \<in> set (map fst (sch_tables s))"

text \<open>No table and no recorded version is lost.\<close>

definition extends :: "schema \<Rightarrow> schema \<Rightarrow> bool" where
  "extends s s' \<longleftrightarrow> (\<forall>n. has_table s n \<longrightarrow> has_table s' n) \<and> set (sch_versions s) \<subseteq> set (sch_versions s')"

section \<open>Lemmas\<close>

lemmas script_defs = scripts_def schema001_def schema002_def schema003_def schema004_def

lemma exec_pragmas_ok [simp]: "exec_pragmas (\<lambda>_. None) ps = None"
  by (induction ps) simp_all

lemma map_of_None_table: "map_of (sch_tables s) n = None \<longleftrightarrow> \<not> has_table s n"
  by (simp add: has_table_def map_of_eq_None_iff)

lemma add_column_keys:
  "map fst (map (\<lambda>(n, cs). if n = t then (n, cs @ [c]) else (n, cs)) xs) = map fst xs"
  by (induction xs) auto

lemma extends_refl [simp]: "extends s s"
  by (simp add: extends_def)

lemma extends_trans [trans]: "extends s t \<Longrightarrow> extends t u \<Longrightarrow> extends s u"
  by (auto simp: extends_def)

lemma exec_ddl_extends: "exec_ddl st s = Inr s' \<Longrightarrow> extends s s'"
proof (cases st)
  case (AddColumn t c)
  assume "exec_ddl st s = Inr s'"
  with AddColumn have "s' = s\<lparr>sch_tables := map (\<lambda>(n, cs). if n = t then (n, cs @ [c]) else (n, cs)) (sch_tables s)\<rparr>"
    by (simp split: option.splits if_splits)
  then show ?thesis
    by (simp add: extends_def has_table_def add_column_keys del: set_map map_map)
qed (auto simp: extends_def has_table_def split: option.splits if_splits)

lemma exec_script_extends: "exec_script f i sts s = (s', e) \<Longrightarrow> extends s s'"
proof (induction sts arbitrary: i s)
  case (Cons st sts)
  show ?case
  proof (cases "f i = None \<and> (\<exists>s1. exec_ddl st s = Inr s1)")
    case True
    then obtain s1 where s1: "f i = None" "exec_ddl st s = Inr s1" by blast
    with Cons.prems have "exec_script f (Suc i) sts s1 = (s', e)" by simp
    with Cons.IH exec_ddl_extends [OF s1(2)] show ?thesis by (blast intro: extends_trans)
  next
    case False
    with Cons.prems show ?thesis by (auto split: option.splits sum.splits)
  qed
qed simp

lemma apply_from_extends: "apply_from sf ver ns s = (s', e) \<Longrightarrow> extends s s'"
proof (induction sf ver ns s rule: apply_from.induct)
  case (2 sf ver n script rest s)
  show ?case
  proof (cases "ver < n")
    case True
    obtain s1 e1 where s1: "exec_script (sf n) 0 script s = (s1, e1)" by (cases "exec_script (sf n) 0 script s")
    note ext = exec_script_extends [OF s1]
    show ?thesis
    proof (cases e1)
      case None
      with True s1 2 have "extends s1 s'" by simp
      with ext show ?thesis by (rule extends_trans)
    next
      case (Some x)
      with True s1 2(3) ext show ?thesis by simp
    qed
  next
    case False
    with 2 show ?thesis by simp
  qed
qed simp

text \<open>A script that runs to its end has recorded the version it inserts.\<close>

lemma exec_script_records:
  "exec_script f i sts s = (s', None) \<Longrightarrow> InsertVersion v \<in> set sts \<Longrightarrow>
   v \<in> set (sch_versions s') \<and> has_table s' ''schema_version''"
proof (induction sts arbitrary: i s)
  case (Cons st sts)
  then obtain s1 where s1: "exec_ddl st s = Inr s1" "exec_script f (Suc i) sts s1 = (s', None)"
    by (auto split: option.splits sum.splits)
  show ?case
  proof (cases "st = InsertVersion v")
    case True
    with s1(1) have "v \<in> set (sch_versions s1) \<and> has_table s1 ''schema_version''"
      by (auto split: option.splits if_splits simp: has_table_def rev_image_eqI dest!: map_of_SomeD)
    with exec_script_extends [OF s1(2)] show ?thesis by (auto simp: extends_def)
  next
    case False
    with Cons.IH [OF s1(2)] Cons.prems(2) show ?thesis by auto
  qed
qed simp

lemma apply_from_records:
  "apply_from sf ver ns s = (s', None) \<Longrightarrow> (m, sc) \<in> set ns \<Longrightarrow> ver < m \<Longrightarrow> InsertVersion m \<in> set sc \<Longrightarrow>
   m \<in> set (sch_versions s') \<and> has_table s' ''schema_version''"
proof (induction sf ver ns s rule: apply_from.induct)
  case (2 sf ver n script rest s)
  show ?case
  proof (cases "ver < n")
    case True
    with "2.prems"(1) obtain s1 where s1: "exec_script (sf n) 0 script s = (s1, None)"
      "apply_from sf ver rest s1 = (s', None)"
      by (auto split: prod.splits option.splits)
    show ?thesis
    proof (cases "(m, sc) = (n, script)")
      case True
      with exec_script_records [OF s1(1)] "2.prems"(4) apply_from_extends [OF s1(2)]
      show ?thesis by (auto simp: extends_def)
    next
      case False
      with "2.IH"(1) [OF True s1(1) [symmetric] refl] s1(2) "2.prems" show ?thesis by auto
    qed
  next
    case False
    with "2.prems" have "(m, sc) \<in> set rest" by auto
    with False "2.IH"(2) "2.prems" show ?thesis by auto
  qed
qed simp

lemma apply_from_done: "(\<forall>(n, sc) \<in> set ns. n \<le> ver) \<Longrightarrow> apply_from sf ver ns s = (s, None)"
  by (induction ns) auto

lemma read_version_ge: "has_table s ''schema_version'' \<Longrightarrow> v \<in> set (sch_versions s) \<Longrightarrow> v \<le> read_version None s"
  by (auto simp: read_version_def has_table_def split: option.splits dest!: weak_map_of_SomeI)

section \<open>Half-done migrations\<close>

text \<open>All statements of the four scripts in order, and the schema after the first \<open>m\<close> of them.\<close>

definition statements :: "ddl list" where
  "statements = concat (map snd scripts)"

definition partial_at :: "nat \<Rightarrow> schema" where
  "partial_at m = fst (exec_script (\<lambda>_. None) 0 (take m statements) empty_schema)"

text \<open>The effect of a statement is there already.\<close>

fun settled :: "ddl \<Rightarrow> schema \<Rightarrow> bool" where
  "settled (CreateTable n cols) s \<longleftrightarrow> map_of (sch_tables s) n \<noteq> None"
| "settled (CreateIndex i t cols) s \<longleftrightarrow> i \<in> set (sch_indexes s)"
| "settled (AddColumn t c) s \<longleftrightarrow> (case map_of (sch_tables s) t of None \<Rightarrow> False | Some cs \<Rightarrow> c \<in> set cs)"
| "settled (InsertVersion v) s \<longleftrightarrow> map_of (sch_tables s) ''schema_version'' \<noteq> None \<and> v \<in> set (sch_versions s)"

fun is_add :: "ddl \<Rightarrow> bool" where
  "is_add (AddColumn t c) = True"
| "is_add _ = False"

text \<open>A column that the next script adds is there although the version does not say so.\<close>

definition half_done :: "schema \<Rightarrow> bool" where
  "half_done s \<longleftrightarrow>
     list_ex (\<lambda>(n, script). n = Suc (read_version None s) \<and> list_ex (\<lambda>st. is_add st \<and> settled st s) script) scripts"

text \<open>What runs of \<open>Migrate\<close>, whatever fails in them, can make of a schema.\<close>

definition migrate_step :: "schema \<Rightarrow> schema \<Rightarrow> bool" where
  "migrate_step s s' \<longleftrightarrow> (\<exists>pf vf sf. s' = fst (Migrate pf vf sf s))"

lemma column_added:
  "map_of (map (\<lambda>(n, cs). if n = t then (n, cs @ [c]) else (n, cs)) xs) k =
     map_option (\<lambda>cs. if k = t then cs @ [c] else cs) (map_of xs k)"
  by (induction xs) auto

lemma settled_done: "exec_ddl st s = Inr s' \<Longrightarrow> settled st s'"
  by (cases st) (auto simp: column_added map_add_def split: option.splits if_splits)

lemma settled_keep: "exec_ddl st s = Inr s' \<Longrightarrow> settled st0 s \<Longrightarrow> settled st0 s'"
  by (cases st; cases st0) (auto simp: column_added map_add_def split: option.splits if_splits)

lemma settled_idle: "settled st s \<Longrightarrow> exec_ddl st s = Inr s' \<Longrightarrow> s' = s"
  by (cases st) (auto split: option.splits if_splits)

lemma exec_script_append:
  "exec_script f i (xs @ ys) s =
     (case exec_script f i xs s of (s1, Some e) \<Rightarrow> (s1, Some e) | (s1, None) \<Rightarrow> exec_script f (i + length xs) ys s1)"
  by (induction f i xs s rule: exec_script.induct) (auto split: option.splits sum.splits)

text \<open>The scripts run in order on a new database.\<close>

lemma all_run: "exec_script (\<lambda>_. None) 0 statements empty_schema = (partial_at 20, None)"
  by code_simp

lemma length_statements: "length statements = 20"
  by code_simp

lemma schema_at_partial: "schema_at 0 = partial_at 0" "schema_at 1 = partial_at 9" "schema_at 2 = partial_at 12" "schema_at 3 = partial_at 18"
  "schema_at 4 = partial_at 20"
  by (simp_all add: schema_at_def partial_at_def statements_def scripts_def schema001_def schema002_def schema003_def schema004_def numeral_eq_Suc)

lemma partial_prefix: "m \<le> 20 \<Longrightarrow> exec_script (\<lambda>_. None) 0 (take m statements) empty_schema = (partial_at m, None)"
proof -
  let ?r = "exec_script (\<lambda>_. None) 0 (take m statements) empty_schema"
  have "exec_script (\<lambda>_. None) 0 (take m statements @ drop m statements) empty_schema = (partial_at 20, None)"
    using all_run by simp
  then have "snd ?r = None" unfolding exec_script_append by (auto split: prod.splits option.splits)
  then show ?thesis by (simp add: partial_at_def prod_eq_iff)
qed

lemma partial_Suc: "m < 20 \<Longrightarrow> exec_ddl (statements ! m) (partial_at m) = Inr (partial_at (Suc m))"
  using partial_prefix [of m] partial_prefix [of "Suc m"] length_statements
  by (auto simp: take_Suc_conv_app_nth exec_script_append split: sum.splits)

lemma partial_settled: "m \<le> 20 \<Longrightarrow> j < m \<Longrightarrow> settled (statements ! j) (partial_at m)"
proof (induction m)
  case (Suc m)
  then have step: "exec_ddl (statements ! m) (partial_at m) = Inr (partial_at (Suc m))" by (intro partial_Suc) simp
  with Suc settled_done [OF step] settled_keep [OF step] show ?case by (cases "j = m") auto
qed simp

lemma run_partial:
  "j \<le> m \<Longrightarrow> m \<le> 20 \<Longrightarrow> j + n \<le> 20 \<Longrightarrow> exec_script f i (take n (drop j statements)) (partial_at m) = (s', e) \<Longrightarrow>
   \<exists>m'. m \<le> m' \<and> m' \<le> 20 \<and> s' = partial_at m' \<and> (e = None \<longrightarrow> j + n \<le> m')"
proof (induction n arbitrary: i j m)
  case (Suc n)
  then have split: "take (Suc n) (drop j statements) = statements ! j # take n (drop (Suc j) statements)"
    using length_statements by (simp add: Cons_nth_drop_Suc [symmetric])
  show ?case
  proof (cases "f i")
    case None
    show ?thesis
    proof (cases "exec_ddl (statements ! j) (partial_at m)")
      case (Inr s1)
      have "\<exists>m1. m \<le> m1 \<and> Suc j \<le> m1 \<and> m1 \<le> 20 \<and> s1 = partial_at m1"
      proof (cases "j < m")
        case True
        with settled_idle [OF partial_settled Inr] Suc.prems show ?thesis by auto
      next
        case False
        with Suc.prems Inr partial_Suc [of m] show ?thesis by (intro exI [of _ "Suc m"]) simp
      qed
      then obtain m1 where m1: "m \<le> m1" "Suc j \<le> m1" "m1 \<le> 20" "s1 = partial_at m1" by blast
      from Suc.prems(4) None Inr split have "exec_script f (Suc i) (take n (drop (Suc j) statements)) (partial_at m1) = (s', e)"
        by (simp add: m1(4))
      from Suc.IH [OF m1(2,3) _ this] Suc.prems(3) obtain m' where "m1 \<le> m'" "m' \<le> 20" "s' = partial_at m'"
        "e = None \<longrightarrow> Suc j + n \<le> m'" by auto
      with m1(1) show ?thesis by (intro exI [of _ m']) simp
    qed (use Suc.prems split None in \<open>auto intro: exI [of _ m]\<close>)
  qed (use Suc.prems split in \<open>auto intro: exI [of _ m]\<close>)
qed auto

text \<open>All the states on the way, and which of them have which version, are half done, and can be resumed.\<close>

fun stages :: "ddl list \<Rightarrow> schema \<Rightarrow> schema list" where
  "stages [] s = [s]"
| "stages (st # sts) s = s # (case exec_ddl st s of Inl e \<Rightarrow> [] | Inr s' \<Rightarrow> stages sts s')"

lemma stages_partial: "stages statements empty_schema = map partial_at [0..<21]"
proof -
  have "stages (drop m statements) (partial_at m) = map partial_at [m..<21]" if "n = 20 - m" "m \<le> 20" for n m
    using that
  proof (induction n arbitrary: m)
    case 0
    then have "m = 20" by simp
    then show ?case using length_statements by simp
  next
    case (Suc n)
    then have m: "m < 20" by simp
    then have "drop m statements = statements ! m # drop (Suc m) statements"
      using length_statements by (simp add: Cons_nth_drop_Suc)
    moreover have "[m..<21] = m # [Suc m..<21]" using m by (simp add: upt_conv_Cons)
    ultimately show ?case using Suc.IH [of "Suc m"] Suc.prems(1) m partial_Suc [OF m] by simp
  qed
  from this [of 20 0] show ?thesis by (simp add: partial_at_def del: upt_rec_numeral)
qed

lemma version_stages:
  "map (read_version None) (stages statements empty_schema) = replicate 9 0 @ replicate 3 1 @ replicate 6 2 @ replicate 2 3 @ [4]"
  by code_simp

lemma half_done_stages:
  "map half_done (stages statements empty_schema) = map (\<lambda>m. m \<in> {10, 11, 13, 14, 15, 16, 17}) [0..<21]"
  by code_simp

lemma resumed_stages:
  "map (\<lambda>s. snd (Migrate_ok s) = None) (stages statements empty_schema) = map (\<lambda>m. m \<notin> {10, 11, 13, 14, 15, 16, 17}) [0..<21]"
  by code_simp

lemma partial_facts:
  assumes "m \<le> 20"
  shows "read_version None (partial_at m) = (replicate 9 0 @ replicate 3 1 @ replicate 6 2 @ replicate 2 3 @ [4]) ! m"
    and "half_done (partial_at m) \<longleftrightarrow> m \<in> {10, 11, 13, 14, 15, 16, 17}"
    and "snd (Migrate_ok (partial_at m)) = None \<longleftrightarrow> m \<notin> {10, 11, 13, 14, 15, 16, 17}"
proof -
  have m: "m < 21" using assms by simp
  show "read_version None (partial_at m) = (replicate 9 0 @ replicate 3 1 @ replicate 6 2 @ replicate 2 3 @ [4]) ! m"
    using arg_cong [OF version_stages, of "\<lambda>xs. xs ! m"] m unfolding stages_partial by (simp del: upt_rec_numeral)
  show "half_done (partial_at m) \<longleftrightarrow> m \<in> {10, 11, 13, 14, 15, 16, 17}"
    using arg_cong [OF half_done_stages, of "\<lambda>xs. xs ! m"] m unfolding stages_partial by (simp del: upt_rec_numeral)
  show "snd (Migrate_ok (partial_at m)) = None \<longleftrightarrow> m \<notin> {10, 11, 13, 14, 15, 16, 17}"
    using arg_cong [OF resumed_stages, of "\<lambda>xs. xs ! m"] m unfolding stages_partial by (simp del: upt_rec_numeral)
qed

text \<open>The scripts as consecutive parts of the statements.\<close>

definition script_end :: "nat \<Rightarrow> nat" where
  "script_end n = length (concat (map snd (take n scripts)))"

fun parts :: "nat \<Rightarrow> (nat \<times> ddl list) list \<Rightarrow> bool" where
  "parts j [] = (j = 20)"
| "parts j ((n, script) # rest) =
     (script_end n = j + length script \<and> script = take (length script) (drop j statements) \<and> j + length script \<le> 20 \<and>
      parts (j + length script) rest)"

lemma parts_scripts: "parts 0 scripts"
  by code_simp

lemma apply_partial:
  "parts j ns \<Longrightarrow> j \<le> m \<Longrightarrow> m \<le> 20 \<Longrightarrow> \<forall>n \<in> fst ` set ns. n \<le> ver \<longrightarrow> script_end n \<le> m \<Longrightarrow>
   \<exists>m'. m \<le> m' \<and> m' \<le> 20 \<and> fst (apply_from sf ver ns (partial_at m)) = partial_at m' \<and>
     (snd (apply_from sf ver ns (partial_at m)) = None \<longrightarrow> m' = 20)"
proof (induction ns arbitrary: j m)
  case (Cons nsc rest)
  obtain n script where nsc: "nsc = (n, script)" by force
  from Cons.prems nsc have p: "script_end n = j + length script" "script = take (length script) (drop j statements)"
    "j + length script \<le> 20" "parts (j + length script) rest" by auto
  show ?case
  proof (cases "ver < n")
    case False
    with Cons.IH [OF p(4), of m] Cons.prems p nsc show ?thesis by auto
  next
    case True
    obtain s1 e where r: "exec_script (sf n) 0 script (partial_at m) = (s1, e)" by force
    from run_partial [OF Cons.prems(2,3) p(3)] r p(2) obtain m1 where
      m1: "m \<le> m1" "m1 \<le> 20" "s1 = partial_at m1" "e = None \<longrightarrow> j + length script \<le> m1" by metis
    show ?thesis
    proof (cases e)
      case None
      with Cons.IH [OF p(4), of m1] Cons.prems m1 nsc obtain m' where "m1 \<le> m'" "m' \<le> 20"
        "fst (apply_from sf ver rest (partial_at m1)) = partial_at m'"
        "snd (apply_from sf ver rest (partial_at m1)) = None \<longrightarrow> m' = 20" by fastforce
      with None m1 True r nsc show ?thesis by (intro exI [of _ m']) simp
    next
      case (Some x)
      with m1 True r nsc show ?thesis by (intro exI [of _ m1]) simp
    qed
  qed
qed (use length_statements in auto)

lemma version_ends:
  assumes "m \<le> 20" "n \<in> fst ` set scripts" "n \<le> read_version None (partial_at m)"
  shows "script_end n \<le> m"
proof -
  have "script_end 1 = 9" "script_end 2 = 12" "script_end 3 = 18" "script_end 4 = 20" by code_simp+
  with assms(2,3) partial_facts(1) [OF assms(1)] assms(1) show ?thesis
    by (auto simp: scripts_def nth_append nth_Cons' split: if_splits)
qed

lemma Migrate_partial:
  assumes "m \<le> 20"
  shows "\<exists>m'. m \<le> m' \<and> m' \<le> 20 \<and> fst (Migrate pf vf sf (partial_at m)) = partial_at m' \<and>
     (snd (Migrate pf vf sf (partial_at m)) = None \<longrightarrow> m' = 20)"
proof -
  have "\<forall>n \<in> fst ` set scripts. n \<le> read_version vf (partial_at m) \<longrightarrow> script_end n \<le> m"
  proof (cases vf)
    case None
    with version_ends [OF assms] show ?thesis by blast
  next
    case (Some e)
    then show ?thesis by (simp add: read_version_def scripts_def)
  qed
  from apply_partial [OF parts_scripts _ assms this, of sf] assms show ?thesis
    by (cases "exec_pragmas pf pragmas") (auto simp: Migrate_def)
qed

interpretation migrations: invariant_system "\<lambda>s. s = empty_schema" migrate_step "\<lambda>s. \<exists>m \<le> 20. s = partial_at m"
proof unfold_locales
  fix s :: schema
  assume "s = empty_schema"
  then show "\<exists>m \<le> 20. s = partial_at m" by (intro exI [of _ 0]) (simp add: partial_at_def)
next
  fix s s' :: schema
  assume "migrate_step s s'" "\<exists>m \<le> 20. s = partial_at m"
  with Migrate_partial show "\<exists>m \<le> 20. s' = partial_at m" unfolding migrate_step_def by metis
qed

text \<open>In a half-done state every run stops at the first column that is there already.\<close>

lemma exec_settled: "\<forall>st \<in> set sts. settled st s \<Longrightarrow> fst (exec_script f i sts s) = s"
proof (induction sts arbitrary: i)
  case (Cons st sts)
  then show ?case using settled_idle [of st s] by (cases "exec_ddl st s") (auto split: option.splits)
qed simp

lemma exec_stuck: "settled (AddColumn t c) s \<Longrightarrow> fst (exec_script f i (AddColumn t c # sts) s) = s \<and> snd (exec_script f i (AddColumn t c # sts) s) \<noteq> None"
  by (auto split: option.splits)

lemma half_done_stuck:
  assumes "m \<le> 20" "half_done (partial_at m)"
  shows "fst (Migrate pf vf sf (partial_at m)) = partial_at m \<and> snd (Migrate pf vf sf (partial_at m)) \<noteq> None"
proof -
  let ?s = "partial_at m"
  from assms partial_facts(2) have m: "m \<in> {10, 11, 13, 14, 15, 16, 17}" by blast
  note ver = partial_facts(1) [OF assms(1)]
  have old: "settled (statements ! j) ?s" if "j < m" for j using partial_settled that assms(1) by blast
  have "set schema001 = (\<lambda>j. statements ! j) ` {0..<9}"
    by (simp add: statements_def script_defs atLeastLessThan_upt numeral_eq_Suc insert_commute)
  with old m have 1: "fst (exec_script f i schema001 ?s) = ?s" for f i by (intro exec_settled) auto
  have 2: "fst (exec_script f i schema002 ?s) = ?s \<and> snd (exec_script f i schema002 ?s) \<noteq> None" for f i
    using old [of 9] m unfolding schema002_def by (intro exec_stuck) (auto simp: statements_def script_defs)
  have 3: "fst (exec_script f i schema003 ?s) = ?s \<and> snd (exec_script f i schema003 ?s) \<noteq> None" if "13 \<le> m" for f i
    using old [of 12] that unfolding schema003_def by (intro exec_stuck) (auto simp: statements_def script_defs)
  have "read_version vf ?s = 0 \<or> read_version vf ?s = 1 \<or> read_version vf ?s = 2 \<and> 13 \<le> m"
    using m ver by (cases vf) (auto simp: read_version_def nth_append nth_Cons')
  moreover obtain e1 where "exec_script (sf 1) 0 schema001 ?s = (?s, e1)" using 1 [of "sf 1" 0] by (metis prod.collapse)
  moreover obtain e2 where "exec_script (sf 2) 0 schema002 ?s = (?s, Some e2)"
    using 2 [of "sf 2" 0] by (metis prod.collapse option.exhaust)
  moreover obtain e3 where "13 \<le> m \<longrightarrow> exec_script (sf 3) 0 schema003 ?s = (?s, Some e3)"
    using 3 [of "sf 3" 0] by (metis prod.collapse option.exhaust)
  ultimately have "fst (apply_from sf (read_version vf ?s) scripts ?s) = ?s \<and> snd (apply_from sf (read_version vf ?s) scripts ?s) \<noteq> None"
    by (cases e1; elim disjE) (simp_all add: scripts_def)
  then show ?thesis by (cases "exec_pragmas pf pragmas") (simp_all add: Migrate_def)
qed

text \<open>How a run ends up there: the engine fails after the first statement of script 2 or 3.\<close>

lemma exec_interrupted:
  "exec_script (\<lambda>_. None) j (take i sts) s = (s1, None) \<Longrightarrow> i < length sts \<Longrightarrow>
   exec_script (\<lambda>n. if n = j + i then Some e else None) j sts s = (s1, Some (Err e))"
proof (induction i arbitrary: j sts s)
  case 0
  then show ?case by (cases sts) auto
next
  case (Suc i)
  then obtain st rest where sts: "sts = st # rest" by (cases sts) auto
  with Suc.prems obtain s' where "exec_ddl st s = Inr s'" "exec_script (\<lambda>_. None) (Suc j) (take i rest) s' = (s1, None)"
    by (auto split: sum.splits)
  with Suc.IH [of "Suc j" rest s'] Suc.prems(2) sts show ?case by simp
qed

lemma partial_run: "j + n \<le> 20 \<Longrightarrow> exec_script (\<lambda>_. None) i (take n (drop j statements)) (partial_at j) = (partial_at (j + n), None)"
proof (induction n arbitrary: i j)
  case (Suc n)
  then have "take (Suc n) (drop j statements) = statements ! j # take n (drop (Suc j) statements)"
    using length_statements by (simp add: Cons_nth_drop_Suc [symmetric])
  with Suc.IH [of "Suc j"] Suc.prems partial_Suc [of j] show ?case by simp
qed simp

lemma interrupted_half_done:
  assumes "k = 2 \<and> 0 < i \<and> i < length schema002 \<or> k = 3 \<and> 0 < i \<and> i < length schema003"
  shows "half_done (fst (Migrate (\<lambda>_. None) None (\<lambda>n j. if n = k \<and> j = i then Some e else None) (schema_at (k - 1))))"
proof -
  have parts: "schema002 = take 3 (drop 9 statements)" "schema003 = take 6 (drop 12 statements)"
    by (simp_all add: statements_def script_defs numeral_eq_Suc)
  have len: "length schema002 = 3" "length schema003 = 6" by (simp_all add: script_defs)
  have 2: "exec_script (\<lambda>n. if n = i then Some e else None) 0 schema002 (partial_at 9) = (partial_at (9 + i), Some (Err e))" if "i < 3"
    using exec_interrupted [of 0 i schema002 "partial_at 9" "partial_at (9 + i)" e] partial_run [of 9 i 0] that len by (simp add: parts min_def)
  have 3: "exec_script (\<lambda>n. if n = i then Some e else None) 0 schema003 (partial_at 12) = (partial_at (12 + i), Some (Err e))" if "i < 6"
    using exec_interrupted [of 0 i schema003 "partial_at 12" "partial_at (12 + i)" e] partial_run [of 12 i 0] that len by (simp add: parts min_def)
  from assms len show ?thesis
  proof (elim disjE)
    assume k: "k = 2 \<and> 0 < i \<and> i < length schema002"
    then have "half_done (partial_at (9 + i))" using partial_facts(2) [of "9 + i"] len by auto
    moreover have "schema_at (k - 1) = partial_at 9" using k schema_at_partial(2) by simp
    ultimately show ?thesis using k 2 len partial_facts(1) [of 9] by (simp add: Migrate_def scripts_def nth_append)
  next
    assume k: "k = 3 \<and> 0 < i \<and> i < length schema003"
    then have "half_done (partial_at (12 + i))" using partial_facts(2) [of "12 + i"] len by auto
    moreover have "schema_at (k - 1) = partial_at 12" using k schema_at_partial(3) by simp
    ultimately show ?thesis using k 3 len partial_facts(1) [of 12] by (simp add: Migrate_def scripts_def nth_append)
  qed
qed

lemma current_columns:
  "read_version None (schema_at 4) = 4 \<and>
   list_all (\<lambda>t. case map_of (sch_tables (schema_at 4)) t of
                    None \<Rightarrow> False
                  | Some cols \<Rightarrow> set (query_columns t) \<subseteq> set cols) [''groups'', ''apps'', ''transfers'']"
  by code_simp

section \<open>Properties\<close>

text \<open>
  C31: \<open>Migrate\<close> brings a database to the current schema or reports an error. Take any schema that a new database can have
  after any number of runs of \<open>Migrate\<close>, with whatever failures of the engine in them: if the next run reports no error, the schema
  is the current one, with version 4 and every column the store's queries name; a run without failures gets there from
  every schema that is not half done; and the current schema is never changed again.
\<close>

theorem Migrate_reaches_current:
  assumes "reach (\<lambda>s. s = empty_schema) migrate_step s"
  shows "(\<forall>pf vf sf. snd (Migrate pf vf sf s) = None \<longrightarrow> fst (Migrate pf vf sf s) = schema_at 4) \<and>
     (\<not> half_done s \<longrightarrow> Migrate_ok s = (schema_at 4, None)) \<and>
     (\<forall>pf vf sf. fst (Migrate pf vf sf (schema_at 4)) = schema_at 4) \<and> read_version None (schema_at 4) = 4 \<and>
     list_all (\<lambda>t. case map_of (sch_tables (schema_at 4)) t of
                      None \<Rightarrow> False
                    | Some cols \<Rightarrow> set (query_columns t) \<subseteq> set cols) [''groups'', ''apps'', ''transfers'']"
proof -
  from migrations.reach_inv [OF assms] obtain m where m: "m \<le> 20" "s = partial_at m" by blast
  have 1: "fst (Migrate pf vf sf s) = schema_at 4" if "snd (Migrate pf vf sf s) = None" for pf vf sf
    using Migrate_partial [OF m(1), of pf vf sf] that m(2) by (auto simp: schema_at_partial)
  have 2: "Migrate_ok s = (schema_at 4, None)" if "\<not> half_done s"
  proof -
    have "snd (Migrate_ok s) = None" using that partial_facts(2,3) [OF m(1)] by (simp only: m(2)) blast
    with 1 show ?thesis by (simp add: prod_eq_iff)
  qed
  have 3: "fst (Migrate pf vf sf (schema_at 4)) = schema_at 4" for pf vf sf
    using Migrate_partial [of 20 pf vf sf] by (auto simp: schema_at_partial)
  from 1 2 3 current_columns show ?thesis by blast
qed

theorem Migrate_reaches_current_witness:
  "let s = fst (Migrate (\<lambda>_. None) None (\<lambda>n j. if n = 1 \<and> j = 4 then Some ''disk I/O error'' else None) empty_schema)
   in s \<noteq> empty_schema \<and> Migrate_ok s = (schema_at 4, None)"
proof -
  let ?s = "fst (Migrate (\<lambda>_. None) None (\<lambda>n j. if n = 1 \<and> j = 4 then Some ''disk I/O error'' else None) empty_schema)"
  have "reach (\<lambda>s. s = empty_schema) migrate_step empty_schema" by (rule reach_init) simp
  then have "reach (\<lambda>s. s = empty_schema) migrate_step ?s" by (rule reach_step) (unfold migrate_step_def, blast)
  note current = Migrate_reaches_current [OF this]
  have "\<not> half_done ?s" "?s \<noteq> empty_schema" by code_simp+
  with current show ?thesis unfolding Let_def by blast
qed

text \<open>
  a successful \<open>Migrate\<close> can be repeated: run again, on whatever schema it produced, it changes
  nothing and succeeds.
\<close>

theorem Migrate_idempotent:
  assumes "Migrate_ok s = (s', None)"
  shows "Migrate_ok s' = (s', None)"
proof -
  from assms have run: "apply_from (\<lambda>_ _. None) (read_version None s) scripts s = (s', None)"
    by (simp add: Migrate_def)
  have "4 \<le> read_version None s'"
  proof (cases "read_version None s < 4")
    case True
    have "(4, schema004) \<in> set scripts" "InsertVersion 4 \<in> set schema004"
      by (simp_all add: scripts_def schema004_def)
    from apply_from_records [OF run this(1) True this(2)] show ?thesis
      by (auto intro: read_version_ge)
  next
    case False
    then have "s' = s" using run apply_from_done [of scripts "read_version None s" "\<lambda>_ _. None" s]
      by (simp add: scripts_def)
    with False show ?thesis by simp
  qed
  then show ?thesis
    unfolding Migrate_def by (simp add: apply_from_done scripts_def)
qed

theorem Migrate_idempotent_witness: "Migrate_ok (schema_at 4) = (schema_at 4, None)"
proof (rule Migrate_idempotent)
  show "Migrate_ok (schema_at 1) = (schema_at 4, None)" by code_simp
qed

text \<open>
  C32: a migration that stops halfway cannot be resumed. When the schema is half done, that is, a column of the next script is
  there already, every later run of \<open>Migrate\<close> fails, with or without failures of the engine, and changes nothing, so that
  the program, which migrates when it starts, does not come up again; and that is what remains of a complete database of
  version 1 or 2 when the engine fails in script 2 or 3 anywhere after its first statement.
\<close>

theorem Migrate_not_resumable:
  assumes "reach (\<lambda>s. s = empty_schema) migrate_step s" and "half_done s" and "migrate_step\<^sup>*\<^sup>* s s'"
  shows "s' = s \<and> (\<forall>pf vf sf. snd (Migrate pf vf sf s') \<noteq> None) \<and>
     (\<forall>k i e. k = 2 \<and> 0 < i \<and> i < length schema002 \<or> k = 3 \<and> 0 < i \<and> i < length schema003 \<longrightarrow>
        half_done (fst (Migrate (\<lambda>_. None) None (\<lambda>n j. if n = k \<and> j = i then Some e else None) (schema_at (k - 1)))))"
proof -
  from migrations.reach_inv [OF assms(1)] obtain m where m: "m \<le> 20" "s = partial_at m" by blast
  from half_done_stuck [OF m(1)] m(2) assms(2)
  have stuck: "fst (Migrate pf vf sf s) = s \<and> snd (Migrate pf vf sf s) \<noteq> None" for pf vf sf by blast
  from assms(3) have s': "s' = s" by (induction rule: rtranclp_induct) (use stuck in \<open>auto simp: migrate_step_def\<close>)
  with stuck interrupted_half_done show ?thesis by blast
qed

theorem Migrate_not_resumable_witness:
  "let s = fst (Migrate (\<lambda>_. None) None (\<lambda>n j. if n = 2 \<and> j = 1 then Some ''disk I/O error'' else None) empty_schema)
   in half_done s \<and> snd (Migrate_ok s) \<noteq> None"
proof -
  let ?s = "fst (Migrate (\<lambda>_. None) None (\<lambda>n j. if n = 2 \<and> j = 1 then Some ''disk I/O error'' else None) empty_schema)"
  have "reach (\<lambda>s. s = empty_schema) migrate_step empty_schema" by (rule reach_init) simp
  then have "reach (\<lambda>s. s = empty_schema) migrate_step ?s" by (rule reach_step) (unfold migrate_step_def, blast)
  moreover have "half_done ?s" by code_simp
  ultimately show ?thesis using Migrate_not_resumable [of ?s ?s] unfolding Let_def by blast
qed

end
