(* ===== verification/FG_Server.thy ===== *)
theory FG_Server
  imports FG_Webhook FG_Dashboard FG_Config FG_Migrations
begin

text \<open>
  The package \<open>internal/server\<close> (\<open>router.go\<close>, \<open>server.go\<close> and the recovering middleware of
  \<open>middleware.go\<close>) and the program's start and stop in \<open>cmd/flowgate/main.go\<close>.

  Matching a path to a route is the work of the chi library, which is not code of the repository:
  a request comes with the route that was matched (\<open>hr_body\<close>), together with its decoded
  parameters. That a route of the API is only matched for its own method is the hypothesis
  \<open>route_ok\<close>. The access log is modelled beside the router: it does not influence any answer.
\<close>

section \<open>Printing numbers\<close>

text \<open>The loop of \<open>itoa\<close>: prepend the last digit, divide.\<close>

function itoa_loop :: "int \<Rightarrow> string \<Rightarrow> string" where
  "itoa_loop n b = (if n > 0 then itoa_loop (n div 10) (char_of (nat (48 + n mod 10)) # b) else b)"
  by auto

termination
  by (relation "measure (\<lambda>(n, b). nat n)") auto

declare itoa_loop.simps [simp del]

definition itoa :: "int \<Rightarrow> string" where
  "itoa n =
     (if n = 0 then ''0''
      else (let neg = (n < 0); n' = (if neg then wrap64 (- n) else n); b = itoa_loop n' []
            in if neg then CHR ''-'' # b else b))"

text \<open>The copy in \<open>main.go\<close> has no sign.\<close>

definition main_itoa :: "int \<Rightarrow> string" where
  "main_itoa n = (if n = 0 then ''0'' else itoa_loop n [])"

definition healthHandler :: "int \<Rightarrow> resp" where
  "healthHandler qd = (WriteHeader 200)\<lparr>rs_body := Text (''{\"status\":\"ok\",\"queue_depth\":'' @ itoa qd @ ''}'')\<rparr>"

section \<open>The HTTP server\<close>

record server =
  sv_addr :: string
  sv_read_timeout :: duration
  sv_write_timeout :: duration
  sv_idle_timeout :: duration
  sv_tls_cert :: string
  sv_tls_key :: string

definition server_New :: "server_config \<Rightarrow> server" where
  "server_New cfg =
     \<lparr>sv_addr = sc_host cfg @ '':'' @ decimal (sc_port cfg), sv_read_timeout = sc_read_timeout cfg,
      sv_write_timeout = sc_write_timeout cfg, sv_idle_timeout = sc_idle_timeout cfg,
      sv_tls_cert = sc_tls_cert cfg, sv_tls_key = sc_tls_key cfg\<rparr>"

definition TLSEnabled :: "server \<Rightarrow> bool" where
  "TLSEnabled s \<longleftrightarrow> sv_tls_cert s \<noteq> [] \<and> sv_tls_key s \<noteq> []"

datatype listen = ListenAndServeTLS string string | ListenAndServe

definition server_Start :: "server \<Rightarrow> listen" where
  "server_Start s =
     (if sv_tls_cert s \<noteq> [] \<and> sv_tls_key s \<noteq> [] then ListenAndServeTLS (sv_tls_cert s) (sv_tls_key s)
      else ListenAndServe)"

section \<open>The router\<close>

datatype auth_route = ALogin "(string \<times> string) option" | ALogout | ASession

text \<open>\<open>RWs\<close> carries the answer of the WebSocket library when it refuses the upgrade.\<close>

datatype route =
    RWebhook request
  | RAuth auth_route
  | RApi api_call
  | RWs "resp option"
  | RHealth
  | RPage

text \<open>What the handlers take from outside.\<close>

record router_env =
  xe_aead :: aead
  xe_handler :: handler
  xe_now :: time
  xe_rand :: rand_read
  xe_req :: req_env
  xe_rec :: "nat \<Rightarrow> rec_env"
  xe_api :: api_env
  xe_arrange :: "transfer_row list \<Rightarrow> transfer_row list"
  xe_opens :: "string \<Rightarrow> bool"
  xe_serve :: "string \<Rightarrow> resp"

text \<open>The API works on the store and the hub of the manager.\<close>

definition on_api :: "(api_st \<Rightarrow> api_result) \<Rightarrow> ('c, 'w) wstate \<Rightarrow> (panic + resp) \<times> ('c, 'w) wstate" where
  "on_api f w =
     (let (r, a) = f \<lparr>as_db = m_db (w_m w), as_hub = m_hub (w_m w)\<rparr>
      in (r, w\<lparr>w_m := (w_m w)\<lparr>m_db := as_db a, m_hub := as_hub a\<rparr>\<rparr>))"

definition api_hnd :: "router_env \<Rightarrow> api_call \<Rightarrow> (route, ('c, 'w) wstate) hnd" where
  "api_hnd env c rq st =
     (let (r, w) = on_api (api_handle (xe_aead env) (wh_enc_key (xe_handler env)) (xe_arrange env) (xe_api env) c) (snd st)
      in (r, fst st, w))"

definition page_hnd :: "router_env \<Rightarrow> (route, ('c, 'w) wstate) hnd" where
  "page_hnd env rq st = (serve_page (xe_opens env) (xe_serve env) (hr_path rq), st)"

definition ws_hnd :: "router_env \<Rightarrow> resp option \<Rightarrow> (route, ('c, 'w) wstate) hnd" where
  "ws_hnd env refused rq st =
     (let (ok, au) = Authed (xe_now env) (hr_cookie rq) (fst st); w = snd st in
      if \<not> ok then (Inr (http_Error ''unauthorized'' 401), au, w)
      else case refused of
             Some r \<Rightarrow> (Inr r, au, w)
           | None \<Rightarrow> (Inr (WriteHeader 101), au, w\<lparr>w_m := (w_m w)\<lparr>m_hub := NewClient (m_hub (w_m w))\<rparr>\<rparr>))"

definition auth_hnd :: "router_env \<Rightarrow> auth_route \<Rightarrow> (route, ('c, 'w) wstate) hnd" where
  "auth_hnd env ar rq st =
     (case ar of
        ALogin body \<Rightarrow> (let (r, au) = handleLogin (xe_rand env) (xe_now env) body (fst st) in (r, au, snd st))
      | ALogout \<Rightarrow> (let (r, au) = handleLogout (hr_cookie rq) (fst st) in (Inr r, au, snd st))
      | ASession \<Rightarrow> (let (r, au) = handleSession (xe_now env) (hr_cookie rq) (fst st) in (Inr r, au, snd st)))"

definition webhook_hnd :: "router_env \<Rightarrow> request \<Rightarrow> (route, ('c, 'w) wstate) hnd" where
  "webhook_hnd env wrq rq st =
     (case ServeHTTP (xe_aead env) (xe_handler env) (xe_req env) (xe_rec env) wrq (snd st) of
        Inl p \<Rightarrow> (Inl p, st)
      | Inr ((code, msg), w) \<Rightarrow> (Inr (if code = 202 then WriteHeader 202 else http_Error msg code), fst st, w))"

definition NewRouter :: "router_env \<Rightarrow> (route, ('c, 'w) wstate) hnd" where
  "NewRouter env rq st =
     (case hr_body rq of
        RWebhook wrq \<Rightarrow> webhook_hnd env wrq rq st
      | RAuth ar \<Rightarrow> auth_hnd env ar rq st
      | RApi c \<Rightarrow> RequireSession (xe_now env) (RequireConfirm (api_hnd env c)) rq st
      | RWs up \<Rightarrow> ws_hnd env up rq st
      | RHealth \<Rightarrow> (Inr (healthHandler (QueueDepth (w_m (snd st)))), st)
      | RPage \<Rightarrow> ProtectPages (xe_now env) (page_hnd env) rq st)"

definition Recoverer :: "('b, 's) hnd \<Rightarrow> ('b, 's) hnd" where
  "Recoverer next rq st =
     (case next rq st of
        (Inl p, st') \<Rightarrow> (Inr (http_Error ''internal server error'' 500), st')
      | (Inr r, st') \<Rightarrow> (Inr r, st'))"

text \<open>
  The access log. \<open>responseWriter\<close> captures the status that goes through \<open>WriteHeader\<close>; an upgraded connection is taken over by
  \<open>Hijack\<close>, so its 101 is not captured and the initial 200 stays. \<open>RequestID\<close> supplies the id. The time a request took is left out.
\<close>

record access =
  lg_method :: string
  lg_path :: string
  lg_status :: int
  lg_request_id :: string

definition captured :: "resp \<Rightarrow> int" where
  "captured r = (if rs_code r = 101 then 200 else rs_code r)"

definition Logger ::
  "string \<Rightarrow> ('b, 's) hnd \<Rightarrow> 'b http_req \<Rightarrow> auth \<times> 's \<Rightarrow> access list \<Rightarrow> ((panic + resp) \<times> auth \<times> 's) \<times> access list" where
  "Logger rid next rq st lg =
     (case next rq st of
        (Inl p, st') \<Rightarrow> ((Inl p, st'), lg)
      | (Inr r, st') \<Rightarrow>
          ((Inr r, st'), lg @ [\<lparr>lg_method = hr_method rq, lg_path = hr_path rq, lg_status = captured r, lg_request_id = rid\<rparr>]))"

definition serve :: "router_env \<Rightarrow> (route, ('c, 'w) wstate) hnd" where
  "serve env = Recoverer (NewRouter env)"

definition route_ok :: "route http_req \<Rightarrow> bool" where
  "route_ok rq = (case hr_body rq of RApi c \<Rightarrow> hr_method rq = api_method c | _ \<Rightarrow> True)"

section \<open>Start and stop\<close>

text \<open>
  \<open>NewSQLiteStore\<close>: \<open>sql_open\<close> is the engine (the schema it finds and the rows), the other
  parameters are the failures of \<open>Migrate\<close>.
\<close>

definition NewSQLiteStore ::
  "(string \<Rightarrow> (schema \<times> db) res) \<Rightarrow> (string \<Rightarrow> string option) \<Rightarrow> string option \<Rightarrow> (nat \<Rightarrow> nat \<Rightarrow> string option) \<Rightarrow>
   string \<Rightarrow> (schema \<times> db) res" where
  "NewSQLiteStore sql_open pf vf sf path =
     (case sql_open (path @ ''?_pragma=busy_timeout(10000)&_pragma=journal_mode(WAL)&_pragma=foreign_keys(on)'') of
        Inl err \<Rightarrow> Inl (Wrap (''open sqlite '' @ path) err)
      | Inr (s, d) \<Rightarrow>
          (case Migrate pf vf sf s of
             (s', Some err) \<Rightarrow> Inl (Wrap ''migrate'' err)
           | (s', None) \<Rightarrow> Inr (s', d)))"

text \<open>The logging that \<open>main\<close> sets up; an unknown level is ignored and leaves the zero value, which is info.\<close>

datatype log_handler = NewJSONHandler int | NewTextHandler int

definition setup_logging :: "logging_config \<Rightarrow> log_handler" where
  "setup_logging lc =
     (let logLevel = level_UnmarshalText (lc_level lc) 0 in
      if lc_format lc = ''json'' then NewJSONHandler logLevel else NewTextHandler logLevel)"

record ('c, 'w) system =
  sy_auth :: auth
  sy_handler :: handler
  sy_dedup :: deduper
  sy_apps :: appCache
  sy_pool :: "('c, 'w) pool"
  sy_server :: server
  sy_log :: log_handler

text \<open>
  How \<open>main\<close> can go: it prints the version and exits with status 0, logs an error and exits with status 1, panics,
  or comes up.
\<close>

datatype 'a outcome = Printed string | Exit string | Crash panic | Up 'a

text \<open>
  \<open>main\<close> up to the start of the server. \<open>fs.Sub\<close> does not fail on the valid path \<open>assets\<close>. \<open>int(cfg.Transfer.RetryBackoff.Seconds())\<close> drops the
  fraction of a second.
\<close>

definition main_start ::
  "config res \<Rightarrow> (string \<Rightarrow> (schema \<times> db) res) \<Rightarrow> 'w \<Rightarrow> ('c, 'w) system outcome" where
  "main_start load open_store world =
     (case load of
        Inl err \<Rightarrow> Exit ''load config''
      | Inr cfg \<Rightarrow>
          (case open_store (dc_path (c_database cfg)) of
             Inl err \<Rightarrow> Exit ''open database''
           | Inr (s, d) \<Rightarrow>
               (case DeriveKey (xc_secret_key (c_security cfg)) of
                  Inl err \<Rightarrow> Exit ''derive key''
                | Inr encKey \<Rightarrow>
                    (let tc = c_transfer cfg; dc = c_dashboard cfg; sc = c_server cfg;
                         backoff = go_div (tc_retry_backoff tc) Second;
                         mgr = NewManager (tc_worker_pool_size tc) d world NewMinIOClient NewHub
                     in case NewHandler encKey (tc_retry_attempts tc) backoff (tc_dedup_window tc) of
                          Inl p \<Rightarrow> Crash p
                        | Inr (webhookHandler, dedup, cache) \<Rightarrow>
                            Up \<lparr>sy_auth = auth_NewService (hc_auth_enabled dc) (hc_username dc) (hc_password dc)
                                            (sc_tls_cert sc \<noteq> []),
                                sy_handler = webhookHandler, sy_dedup = dedup, sy_apps = cache, sy_pool = Start mgr,
                                sy_server = server_New sc, sy_log = setup_logging (c_logging cfg)\<rparr>))))"

text \<open>\<open>main\<close> with its two flags; \<open>load\<close> is \<open>config.Load\<close>.\<close>

definition version_line :: string where
  "version_line = ''flowgate dev (commit: unknown, built: unknown)'' @ [CHR 0x0A]"

definition flowgate_main ::
  "bool \<Rightarrow> string \<Rightarrow> (string \<Rightarrow> config res) \<Rightarrow> (string \<Rightarrow> (schema \<times> db) res) \<Rightarrow> 'w \<Rightarrow> ('c, 'w) system outcome" where
  "flowgate_main showVersion cfgPath load open_store world =
     (if showVersion then Printed version_line else main_start (load cfgPath) open_store world)"

text \<open>One tick of the goroutine that broadcasts the statistics every five seconds.\<close>

definition stats_tick :: "string option \<Rightarrow> time \<Rightarrow> ('c, 'w) mstate \<Rightarrow> panic + ('c, 'w) mstate" where
  "stats_tick fault now m =
     (case GetStats fault [] [] (m_db m) of
        Inl err \<Rightarrow> Inr m
      | Inr stats \<Rightarrow>
          (case Broadcast \<lparr>msg_type = MsgStatsUpdate, msg_timestamp = now, msg_payload = stats_json stats\<rparr> (m_hub m) of
             Inl p \<Rightarrow> Inl p
           | Inr h \<Rightarrow> Inr (m\<lparr>m_hub := h\<rparr>)))"

section \<open>Lemmas\<close>

lemma itoa_loop_digits: "0 \<le> n \<Longrightarrow> itoa_loop n b = dec_digits (nat n) @ b"
proof (induction n b rule: itoa_loop.induct)
  case (1 n b)
  show ?case
  proof (cases "n = 0")
    case True
    then show ?thesis by (simp add: itoa_loop.simps [of 0])
  next
    case False
    with 1 have pos: "0 < n" by simp
    have d: "char_of (nat (48 + n mod 10)) = dec_digit (nat n mod 10)"
      using pos by (simp add: dec_digit_def nat_add_distrib nat_mod_distrib)
    have "itoa_loop n b = dec_digits (nat (n div 10)) @ char_of (nat (48 + n mod 10)) # b"
      using pos 1 by (subst itoa_loop.simps) (simp add: pos_imp_zdiv_nonneg_iff)
    also have "\<dots> = dec_digits (nat n) @ b"
      using pos d by (subst dec_digits.simps [of "nat n"]) (simp add: nat_div_distrib)
    finally show ?thesis .
  qed
qed

text \<open>\<open>itoa\<close> prints the decimal form, except that the smallest integer comes out as a bare sign.\<close>

lemma itoa_decimal:
  "in_int64 n \<Longrightarrow> itoa n = (if n = min_int64 then ''-'' else decimal n)"
proof -
  assume n: "in_int64 n"
  show ?thesis
  proof (cases "n < 0")
    case True
    show ?thesis
    proof (cases "n = min_int64")
      case min: True
      have "wrap64 (- min_int64) = min_int64" by (simp add: wrap64_def min_int64_def)
      moreover have "itoa_loop min_int64 [] = []" by (subst itoa_loop.simps) (simp add: min_int64_def)
      ultimately show ?thesis using min True by (simp add: itoa_def)
    next
      case False
      with n True have "wrap64 (- n) = - n"
        by (intro wrap64_id) (auto simp: int64)
      with True False show ?thesis by (simp add: itoa_def decimal_def itoa_loop_digits)
    qed
  next
    case False
    then have "n \<noteq> min_int64" by (auto simp: min_int64_def)
    with False show ?thesis by (simp add: itoa_def decimal_def itoa_loop_digits)
  qed
qed

lemma main_itoa_decimal: "0 \<le> n \<Longrightarrow> main_itoa n = decimal n"
  by (simp add: main_itoa_def decimal_def itoa_loop_digits)


lemma Recoverer_eq:
  "Recoverer next rq st = (case next rq st of (r, st') \<Rightarrow>
     (Inr (case r of Inl p \<Rightarrow> http_Error ''internal server error'' 500 | Inr x \<Rightarrow> x), st'))"
  by (auto simp: Recoverer_def split: prod.splits sum.splits)

lemma page_keeps: "ProtectPages now (page_hnd env) rq (au, w) = (r, au', w') \<Longrightarrow> w' = w"
  by (auto simp: ProtectPages_def page_hnd_def Let_def split: if_splits prod.splits)

lemma auth_hnd_keeps: "auth_hnd env ar rq (au, w) = (r, au', w') \<Longrightarrow> w' = w"
  by (auto simp: auth_hnd_def split: auth_route.splits prod.splits)

lemma on_api_read_only:
  "\<not> mutating (api_method c) \<Longrightarrow> snd (on_api (api_handle A encKey arrange e c) w) = w"
  by (simp add: on_api_def split_beta Let_def api_read_only)

text \<open>Logging is transparent, and since \<open>Recoverer\<close> is inside it every request leaves exactly one entry.\<close>

lemma Logger_serve:
  "Logger rid (serve env) rq st lg = (serve env rq st,
     lg @ [\<lparr>lg_method = hr_method rq, lg_path = hr_path rq,
             lg_status = (case fst (serve env rq st) of Inr r \<Rightarrow> captured r | Inl _ \<Rightarrow> 200), lg_request_id = rid\<rparr>])"
  by (simp add: Logger_def serve_def Recoverer_eq split: prod.splits)

section \<open>An example\<close>

definition sample_router_env :: router_env where
  "sample_router_env =
     \<lparr>xe_aead = tag_aead, xe_handler = sample_handler, xe_now = 5, xe_rand = const_read (CHR ''r''), xe_req = sample_req_env,
      xe_rec = \<lambda>_. sample_rec_env None, xe_api = sample_api_env, xe_arrange = newest_first, xe_opens = \<lambda>_. False,
      xe_serve = \<lambda>_. WriteHeader 200\<rparr>"

definition sample_auth :: auth where
  "sample_auth = (auth_NewService True ''admin'' ''pw'' False)\<lparr>au_sessions := [''t'' \<mapsto> 10]\<rparr>"

definition sample_http :: "string \<Rightarrow> route \<Rightarrow> route http_req" where
  "sample_http meth body =
     \<lparr>hr_method = meth, hr_path = ''/'', hr_cookie = Some ''t'', hr_confirm = ''pw'', hr_body = body\<rparr>"

section \<open>Properties\<close>

text \<open>
  C7: The whole server is gated: with authentication on, a request of any route that changes the store, the queue, the
  hub or anything else of the manager is either a webhook call with the secret of the app it addresses, or carries the
  token of a live session and opens a WebSocket or calls a mutating API route with the admin password as confirmation.
\<close>

theorem router_gate:
  assumes "au_enabled au" and "route_ok rq" and "serve env rq (au, w) = (r, au', w')" and "w_m w' \<noteq> w_m w"
  shows "(\<exists>wrq ap. hr_body rq = RWebhook wrq \<and> rq_authorization wrq \<noteq> [] \<and>
            trim_prefix (rq_authorization wrq) ''Bearer '' = a_webhook_secret ap \<and>
            (cache_Get (qe_get (xe_req env)) (route_key (rq_group wrq) (rq_app wrq)) (w_apps w) = Some ap \<or>
             (\<exists>stored. GetAppByRoute None (rq_group wrq) (rq_app wrq) (m_db (w_m w)) = Inr (Some stored) \<and>
                a_enabled stored \<and> decryptAppCreds (xe_aead env) (wh_enc_key (xe_handler env)) stored = Inr ap))) \<or>
     (\<exists>tok. hr_cookie rq = Some tok \<and> session_live au tok (xe_now env) \<noteq> None) \<and>
     (hr_body rq = RWs None \<or>
      (\<exists>c. hr_body rq = RApi c \<and> mutating (api_method c) \<and> hr_confirm rq = au_password au))"
proof -
  from assms(3) obtain r0 where run: "NewRouter env rq (au, w) = (r0, au', w')"
    by (auto simp: serve_def Recoverer_eq split: prod.splits)
  show ?thesis
  proof (cases "hr_body rq")
    case (RWebhook wrq)
    with run assms(4) obtain code msg where
      "ServeHTTP (xe_aead env) (xe_handler env) (xe_req env) (xe_rec env) wrq w = Inr ((code, msg), w')"
      by (auto simp: NewRouter_def webhook_hnd_def split: sum.splits prod.splits)
    then show ?thesis
    proof (cases rule: ServeHTTP_token)
      case refused
      with assms(4) show ?thesis by simp
    next
      case (token ap)
      with RWebhook show ?thesis by blast
    qed
  next
    case (RApi c)
    with run have "RequireSession (xe_now env) (RequireConfirm (api_hnd env c)) rq (au, w) = (r0, au', w')"
      by (simp add: NewRouter_def)
    with assms(1) show ?thesis
    proof (cases rule: gate_cases)
      case (passed s1 tok)
      from passed(1) have "snd (on_api (api_handle (xe_aead env) (wh_enc_key (xe_handler env)) (xe_arrange env) (xe_api env) c) w) = w'"
        by (auto simp: api_hnd_def split: prod.splits)
      with on_api_read_only assms(4) have "mutating (api_method c)" by metis
      with passed RApi assms(2) show ?thesis by (auto simp: route_ok_def)
    qed (use assms(4) in simp)
  next
    case (RWs up)
    obtain ok s1 where au: "Authed (xe_now env) (hr_cookie rq) au = (ok, s1)" by force
    from RWs run assms(4) have "ok \<and> up = None"
      by (auto simp: NewRouter_def ws_hnd_def au split: if_splits option.splits)
    with RWs Authed_True [of "xe_now env" "hr_cookie rq" au s1] au assms(1) show ?thesis by auto
  qed (use run assms(4) page_keeps auth_hnd_keeps in \<open>fastforce simp: NewRouter_def\<close>)+
qed

theorem router_gate_witness:
  "hr_confirm (sample_http ''POST'' (RApi (CCreateGroup (Some (''dev'', []))))) = au_password sample_auth"
proof -
  let ?rq = "sample_http ''POST'' (RApi (CCreateGroup (Some (''dev'', []))))"
  obtain r au' w' where run: "serve sample_router_env ?rq (sample_auth, sample_wstate) = (r, au', w')"
    by (metis prod_cases3)
  have "length (groups (m_db (w_m (snd (snd (serve sample_router_env ?rq (sample_auth, sample_wstate))))))) =
      Suc (length (groups (m_db (w_m sample_wstate))))"
    by (simp add: serve_def Recoverer_eq NewRouter_def RequireSession_def RequireConfirm_def Authed_def api_hnd_def on_api_def
        api_CreateGroup_def CreateGroup_def broadcast_then_def Broadcast_def mutating_def time_after_def
        sample_router_env_def sample_http_def sample_auth_def auth_NewService_def sample_api_env_def sample_webhook_defs
        NewHub_def split_beta Let_def split: sum.split option.split)
  with run have "w_m w' \<noteq> w_m sample_wstate" by auto
  from router_gate [OF _ _ run this] show ?thesis
    by (simp add: sample_http_def sample_auth_def auth_NewService_def route_ok_def)
qed

end
