(* ===== verification/FG_System.thy ===== *)
theory FG_System
  imports FG_Server
begin

text \<open>
  The running program: the state that \<open>main\<close> builds and everything that can happen to it. Requests
  go through the router, the workers and timers move, the hub and its clients move, the statistics
  are broadcast, the sweepers run, \<open>Stop\<close> is called and the servers outside change.

  A request is one step here and its writes are seen at once; \<open>FG_Program\<close> takes a webhook request apart into its calls.
  A panic of a handler is caught by \<open>Recoverer\<close>; one anywhere else ends the program (\<open>Inl\<close>).
\<close>

section \<open>State\<close>

definition sys_m :: "('c, 'w) system \<Rightarrow> ('c, 'w) mstate" where
  "sys_m y = p_m (sy_pool y)"

definition set_m :: "('c, 'w) mstate \<Rightarrow> ('c, 'w) system \<Rightarrow> ('c, 'w) system" where
  "set_m m y = y\<lparr>sy_pool := (sy_pool y)\<lparr>p_m := m\<rparr>\<rparr>"

text \<open>What the handlers work on, and the system after they did; \<open>p_submitted\<close> records the new jobs.\<close>

definition sys_w :: "('c, 'w) system \<Rightarrow> ('c, 'w) wstate" where
  "sys_w y = \<lparr>w_dedup = sy_dedup y, w_apps = sy_apps y, w_m = sys_m y\<rparr>"

definition put_w :: "auth \<Rightarrow> ('c, 'w) wstate \<Rightarrow> ('c, 'w) system \<Rightarrow> ('c, 'w) system" where
  "put_w au w y =
     y\<lparr>sy_auth := au, sy_dedup := w_dedup w, sy_apps := w_apps w,
       sy_pool := pool_add (drop (length (m_queue (sys_m y))) (m_queue (w_m w))) (w_m w) (sy_pool y)\<rparr>"

text \<open>
  What is assumed of a request: it reaches the handler of this system and its numbers fit in Go's
  integers. Unless \<open>faulty\<close>, the query for an active transfer does not fail; the other calls of the store
  may fail in either case.
\<close>

definition request_ok :: "bool \<Rightarrow> router_env \<Rightarrow> route http_req \<Rightarrow> ('c, 'w) system \<Rightarrow> bool" where
  "request_ok faulty env rq y \<longleftrightarrow>
     xe_handler env = sy_handler y \<and> (\<forall>i. faulty \<or> re_active_fault (xe_rec env i) = None) \<and>
     (case hr_body rq of
        RWebhook wrq \<Rightarrow>
          (\<forall>ap s1. resolve_app (xe_aead env) (xe_handler env) (xe_req env) wrq (sys_w y) = Inr (ap, s1) \<longrightarrow>
             in_int64 (effective_retries (xe_handler env) ap))
      | _ \<Rightarrow> True)"

section \<open>Steps\<close>

inductive sys_step ::
  "('c, 'o, 'w) minio_lib \<Rightarrow> bool \<Rightarrow> panic + ('c, 'w) system \<Rightarrow> panic + ('c, 'w) system \<Rightarrow> bool"
  for M :: "('c, 'o, 'w) minio_lib" and faulty :: bool where
  request: "request_ok faulty env rq y \<Longrightarrow> serve env rq (sy_auth y, sys_w y) = (r, au, w) \<Longrightarrow>
    sys_step M faulty (Inr y) (Inr (put_w au w y))"
| work: "work_step M faulty (Inr (sy_pool y)) st \<Longrightarrow>
    sys_step M faulty (Inr y) (map_sum id (\<lambda>p. y\<lparr>sy_pool := p\<rparr>) st)"
| hub_moves: "hub_step (Inr (m_hub (sys_m y))) st \<Longrightarrow>
    sys_step M faulty (Inr y) (map_sum id (\<lambda>h. set_m ((sys_m y)\<lparr>m_hub := h\<rparr>) y) st)"
| tick: "sys_step M faulty (Inr y) (map_sum id (\<lambda>m. set_m m y) (stats_tick fault now (sys_m y)))"
| sweep_dedup: "sys_step M faulty (Inr y) (Inr (y\<lparr>sy_dedup := dedup_cleanup now (sy_dedup y)\<rparr>))"
| sweep_apps: "sys_step M faulty (Inr y) (Inr (y\<lparr>sy_apps := cache_cleanup now (sy_apps y)\<rparr>))"
| stop: "sys_step M faulty (Inr y) (Inr (set_m (Stop (sys_m y)) y))"
| servers: "sys_step M faulty (Inr y) (Inr (set_m ((sys_m y)\<lparr>m_world := world\<rparr>) y))"

text \<open>
  The program starts from a configuration that was loaded and a database whose tables are sound.
\<close>

definition sys_init :: "panic + ('c, 'w) system \<Rightarrow> bool" where
  "sys_init st \<longleftrightarrow>
     (\<exists>rf le yu path open_store world y.
        (\<forall>q sch d. open_store q = Inr (sch, d) \<longrightarrow> tables_ok False d) \<and>
        main_start (Load rf le yu path) open_store world = Up y \<and> st = Inr y)"

definition sys_inv :: "bool \<Rightarrow> panic + ('c, 'w) system \<Rightarrow> bool" where
  "sys_inv faulty st =
     (case st of Inl p \<Rightarrow> False | Inr y \<Rightarrow> pool_ok faulty (sy_pool y) \<and> tables_ok faulty (m_db (sys_m y)))"

section \<open>Every step keeps the invariant\<close>

lemma pool_ok_frame:
  assumes "pool_ok f p" "hub_ok h" "transfers d = transfers (m_db (p_m p))"
  shows "pool_ok f (p\<lparr>p_m := (p_m p)\<lparr>m_db := d, m_hub := h\<rparr>\<rparr>)"
proof -
  from assms(3) have "row_status d = row_status (m_db (p_m p))"
    by (simp add: fun_eq_iff row_status_def find_transfer_def)
  with assms(1,2) show ?thesis by (simp add: pool_ok_def live_def)
qed

lemma tables_ok_frame: "tables_ok f d \<Longrightarrow> db_ok d' \<Longrightarrow> transfers d' = transfers d \<Longrightarrow> tables_ok f d'"
proof -
  assume "tables_ok f d" "db_ok d'" "transfers d' = transfers d"
  moreover from this(3) have "find_transfer d' = find_transfer d" by (simp add: fun_eq_iff find_transfer_def)
  ultimately show ?thesis by (simp add: tables_ok_def)
qed

lemma tables_ok_mono: "tables_ok False d \<Longrightarrow> tables_ok f d"
  by (simp add: tables_ok_def)

text \<open>What a request does to the pool: it adds jobs (none, for most routes).\<close>

definition adds_to_pool :: "bool \<Rightarrow> ('c, 'w) pool \<Rightarrow> ('c, 'w) mstate \<Rightarrow> job list \<Rightarrow> bool" where
  "adds_to_pool f p m js \<longleftrightarrow>
     m_queue m = m_queue (p_m p) @ js \<and> m_closed m = m_closed (p_m p) \<and>
     transfers (m_db m) = transfers (m_db (p_m p)) @ map (transfer_to_row \<circ> j_transfer) js \<and>
     pool_ok f (pool_add js m p) \<and> tables_ok f (m_db m)"

lemma adds_none: "pool_ok f p \<Longrightarrow> tables_ok f (m_db (p_m p)) \<Longrightarrow> adds_to_pool f p (p_m p) []"
  by (simp add: adds_to_pool_def)

lemma adds_frame:
  assumes "pool_ok f p" "tables_ok f (m_db (p_m p))" "hub_ok h" "db_ok d" "transfers d = transfers (m_db (p_m p))"
  shows "adds_to_pool f p ((p_m p)\<lparr>m_db := d, m_hub := h\<rparr>) []"
proof -
  have "pool_ok f (pool_add [] ((p_m p)\<lparr>m_db := d, m_hub := h\<rparr>) p)"
    using pool_ok_frame [OF assms(1,3,5)] by (simp add: pool_add_def)
  with tables_ok_frame [OF assms(2,4,5)] assms(5) show ?thesis by (simp add: adds_to_pool_def)
qed

lemma api_adds:
  assumes ok: "pool_ok f p" "tables_ok f (m_db (p_m p))" and w: "w_m w = p_m p"
    and run: "on_api (api_handle A key arrange e c) w = (r, w')"
  shows "adds_to_pool f p (w_m w') []"
proof -
  let ?st = "\<lparr>as_db = m_db (p_m p), as_hub = m_hub (p_m p)\<rparr>"
  obtain r' a where a: "api_handle A key arrange e c ?st = (r', a)" by force
  from ok have inv: "db_ok (as_db ?st)" "hub_ok (as_hub ?st)" by (simp_all add: pool_ok_def tables_ok_def)
  from api_handle_good [OF inv, of A key arrange e c] have "db_ok (as_db a)" "hub_ok (as_hub a)"
    by (simp_all add: api_good_def a)
  moreover have "transfers (as_db a) = transfers (m_db (p_m p))"
    using api_keeps_transfers [of A key arrange e c ?st] by (simp add: a)
  ultimately show ?thesis using adds_frame [OF ok] run w by (auto simp: on_api_def a)
qed

lemma gate_keeps:
  "RequireSession now (RequireConfirm next) rq (s, x) = (r, s', x') \<Longrightarrow> x' = x \<or> (\<exists>s1. next rq (s1, x) = (r, s', x'))"
  by (auto simp: RequireSession_def RequireConfirm_def Let_def split: prod.splits if_splits)

lemma ws_adds:
  assumes ok: "pool_ok f p" "tables_ok f (m_db (p_m p))" and w: "w_m w = p_m p"
    and run: "ws_hnd env up rq (au, w) = (r, au', w')"
  shows "adds_to_pool f p (w_m w') []"
proof -
  from ok have "hub_ok (NewClient (m_hub (p_m p)))"
    using hub_inv_step [OF hub_step.new_client, of "m_hub (p_m p)"] by (simp add: hub_inv_def pool_ok_def)
  from adds_frame [OF ok this, of "m_db (p_m p)"] ok(2)
  have "adds_to_pool f p ((p_m p)\<lparr>m_hub := NewClient (m_hub (p_m p))\<rparr>) []" by (simp add: tables_ok_def)
  with adds_none [OF ok] run w show ?thesis by (auto simp: ws_hnd_def Let_def split: prod.splits if_splits option.splits)
qed

lemma serve_adds:
  assumes inv: "sys_inv f (Inr y)" and rq: "request_ok f env rq y"
    and run: "serve env rq (sy_auth y, sys_w y) = (r, au, w)"
  shows "\<exists>js. adds_to_pool f (sy_pool y) (w_m w) js"
proof -
  from inv have ok: "pool_ok f (sy_pool y)" "tables_ok f (m_db (p_m (sy_pool y)))"
    by (simp_all add: sys_inv_def sys_m_def)
  have w: "w_m (sys_w y) = p_m (sy_pool y)" by (simp add: sys_w_def sys_m_def)
  from run obtain r0 where run0: "NewRouter env rq (sy_auth y, sys_w y) = (r0, au, w)"
    by (auto simp: serve_def Recoverer_eq split: prod.splits)
  have none: ?thesis if "w = sys_w y" using adds_none [OF ok] w that by auto
  show ?thesis
  proof (cases "hr_body rq")
    case (RWebhook wrq)
    with rq have env: "\<forall>i. f \<or> re_active_fault (xe_rec env i) = None"
      "\<forall>ap s1. resolve_app (xe_aead env) (xe_handler env) (xe_req env) wrq (sys_w y) = Inr (ap, s1) \<longrightarrow>
         in_int64 (effective_retries (xe_handler env) ap)" by (auto simp: request_ok_def)
    from ServeHTTP_pool [OF ok(1) w [symmetric] _ env] ok(2) w obtain resp s' js where
      s': "ServeHTTP (xe_aead env) (xe_handler env) (xe_req env) (xe_rec env) wrq (sys_w y) = Inr (resp, s')"
      "adds_jobs js (w_m (sys_w y)) (w_m s')" "pool_ok f (pool_add js (w_m s') (sy_pool y))" "tables_ok f (m_db (w_m s'))"
      by metis
    with run0 RWebhook have "w = s'" by (cases resp) (auto simp: NewRouter_def webhook_hnd_def)
    with s' w show ?thesis by (auto simp: adds_to_pool_def adds_jobs_def)
  next
    case (RApi c)
    with run0 have "RequireSession (xe_now env) (RequireConfirm (api_hnd env c)) rq (sy_auth y, sys_w y) = (r0, au, w)"
      by (simp add: NewRouter_def)
    from gate_keeps [OF this] show ?thesis
    proof (elim disjE exE)
      fix s1 assume "api_hnd env c rq (s1, sys_w y) = (r0, au, w)"
      then obtain r1 where "on_api (api_handle (xe_aead env) (wh_enc_key (xe_handler env)) (xe_arrange env) (xe_api env) c)
          (sys_w y) = (r1, w)" by (auto simp: api_hnd_def split: prod.splits)
      with api_adds [OF ok w] show ?thesis by blast
    qed (rule none)
  next
    case (RWs up)
    with run0 have "ws_hnd env up rq (sy_auth y, sys_w y) = (r0, au, w)" by (simp add: NewRouter_def)
    from ws_adds [OF ok w this] show ?thesis by blast
  next
    case RPage
    with run0 page_keeps none show ?thesis by (fastforce simp: NewRouter_def)
  next
    case (RAuth ar)
    with run0 auth_hnd_keeps none show ?thesis by (fastforce simp: NewRouter_def)
  next
    case RHealth
    with run0 none show ?thesis by (auto simp: NewRouter_def)
  qed
qed

lemma put_w_inv:
  "adds_to_pool f (sy_pool y) (w_m w) js \<Longrightarrow>
   sy_pool (put_w au w y) = pool_add js (w_m w) (sy_pool y) \<and> sys_inv f (Inr (put_w au w y))"
  by (auto simp: adds_to_pool_def put_w_def sys_m_def sys_inv_def pool_add_def)

lemma sys_inv_set_m:
  "sys_inv f (Inr y) \<Longrightarrow> pool_ok f ((sy_pool y)\<lparr>p_m := m\<rparr>) \<Longrightarrow> m_db m = m_db (sys_m y) \<Longrightarrow> sys_inv f (Inr (set_m m y))"
  by (simp add: sys_inv_def set_m_def sys_m_def)

lemma sys_inv_hub:
  "sys_inv f (Inr y) \<Longrightarrow> hub_ok h \<Longrightarrow> sys_inv f (Inr (set_m ((sys_m y)\<lparr>m_hub := h\<rparr>) y))"
  using pool_ok_frame [of f "sy_pool y" h "m_db (sys_m y)"] by (simp add: sys_inv_def set_m_def sys_m_def)

lemma stats_tick_ok:
  assumes "hub_ok (m_hub m)"
  obtains "stats_tick fault now m = Inr m" | h where "stats_tick fault now m = Inr (m\<lparr>m_hub := h\<rparr>)" "hub_ok h"
proof (cases "GetStats fault [] [] (m_db m)")
  case (Inr stats)
  let ?msg = "\<lparr>msg_type = MsgStatsUpdate, msg_timestamp = now, msg_payload = stats_json stats\<rparr>"
  from Broadcast_ok [OF assms, of ?msg] obtain h where "Broadcast ?msg (m_hub m) = Inr h" "hub_ok h" by blast
  with Inr that(2) show ?thesis by (simp add: stats_tick_def)
qed (use that(1) in \<open>simp add: stats_tick_def\<close>)

lemma sys_inv_step: "sys_step M f st st' \<Longrightarrow> sys_inv f st \<Longrightarrow> sys_inv f st'"
proof (induction rule: sys_step.induct)
  case (request env rq y r au w)
  from serve_adds [OF request(3,1,2)] put_w_inv show ?case by blast
next
  case (work y st)
  then have ok: "pool_ok f (sy_pool y)" "tables_ok f (m_db (p_m (sy_pool y)))" by (simp_all add: sys_inv_def sys_m_def)
  with pool_inv_work [OF work(1)] obtain p' where p': "st = Inr p'" "pool_ok f p'"
    by (auto simp: pool_inv_def split: sum.splits)
  from work_step_tables [of M f "sy_pool y" p'] work(1) ok p'(1) have "tables_ok f (m_db (p_m p'))" by simp
  with p' show ?case by (simp add: sys_inv_def sys_m_def)
next
  case (hub_moves y st)
  then have "hub_inv (Inr (m_hub (sys_m y)))" by (simp add: sys_inv_def pool_ok_def hub_inv_def sys_m_def)
  with hub_inv_step [OF hub_moves(1)] have "hub_inv st" by blast
  then obtain h where "st = Inr h" "hub_ok h" by (auto simp: hub_inv_def split: sum.splits)
  with sys_inv_hub [of f y h] hub_moves(2) show ?case by simp
next
  case (tick y fault now)
  then have "hub_ok (m_hub (sys_m y))" by (simp add: sys_inv_def pool_ok_def sys_m_def)
  then show ?case
  proof (cases rule: stats_tick_ok [where fault = fault and now = now])
    case 1
    with tick show ?thesis by (simp add: set_m_def sys_m_def)
  next
    case (2 h)
    with sys_inv_hub [OF tick] show ?thesis by simp
  qed
next
  case (stop y)
  then show ?case by (auto simp: sys_inv_def set_m_def sys_m_def Stop_def pool_ok_def live_def)
next
  case (servers y world)
  then show ?case by (auto simp: sys_inv_def set_m_def sys_m_def pool_ok_def live_def)
qed (simp_all add: sys_inv_def sys_m_def)

lemma pool_ok_Start: "0 < n \<Longrightarrow> pool_ok f (Start (NewManager n d world cs NewHub))"
  using pool_inv_init [of "Inr (Start (NewManager n d world cs NewHub))" f]
  by (auto simp: pool_init_def pool_inv_def)

lemma main_start_pool:
  assumes "main_start load open_store world = Up y"
  obtains cfg sch d where "load = Inr cfg" "open_store (dc_path (c_database cfg)) = Inr (sch, d)"
    "sy_pool y = Start (NewManager (tc_worker_pool_size (c_transfer cfg)) d world NewMinIOClient NewHub)"
  using assms by (auto simp: main_start_def Let_def split: sum.splits prod.splits)

lemma sys_inv_start:
  assumes "main_start (Inr cfg) open_store world = Up y" "config_ok cfg"
    and "\<And>q sch d. open_store q = Inr (sch, d) \<Longrightarrow> tables_ok False d"
  shows "sys_inv f (Inr y)"
  using assms(1)
proof (rule main_start_pool)
  fix cfg' sch d
  assume d: "Inr cfg = Inr cfg'" "open_store (dc_path (c_database cfg')) = Inr (sch, d)"
    and p: "sy_pool y = Start (NewManager (tc_worker_pool_size (c_transfer cfg')) d world NewMinIOClient NewHub)"
  from assms(2) d(1) have "0 < tc_worker_pool_size (c_transfer cfg')" by (simp add: config_ok_def)
  with pool_ok_Start tables_ok_mono [OF assms(3) [OF d(2)]] p show ?thesis
    by (simp add: sys_inv_def sys_m_def) (simp add: Start_def NewManager_def)
qed

lemma sys_init_submitted: "sys_init (Inr y) \<Longrightarrow> p_submitted (sy_pool y) = {}"
  by (auto simp: sys_init_def elim!: main_start_pool) (simp_all add: Start_def)

text \<open>When \<open>main\<close> comes up, and when it crashes.\<close>

lemma newDeduper_outcome: "newDeduper w = (if 0 < w then Inr \<lparr>dd_entries = Map.empty, dd_window = w\<rparr> else Inl NonPositiveTicker)"
  by (simp add: newDeduper_def new_ticker_def)

lemma main_start_outcome:
  assumes "open_store (dc_path (c_database cfg)) = Inr (sch, d)"
  shows "(0 < tc_dedup_window (c_transfer cfg) \<longrightarrow> (\<exists>y. main_start (Inr cfg) open_store world = (Up y :: ('c, 'w) system outcome))) \<and>
     (tc_dedup_window (c_transfer cfg) \<le> 0 \<longrightarrow>
        main_start (Inr cfg) open_store world = (Crash NonPositiveTicker :: ('c, 'w) system outcome))"
proof -
  from DeriveKey_length obtain k where "DeriveKey (xc_secret_key (c_security cfg)) = Inr k" by blast
  moreover have "newAppCache appCacheTTL = Inr \<lparr>ac_entries = Map.empty, ac_ttl = appCacheTTL\<rparr>"
    by (simp add: newAppCache_def new_ticker_def)
  ultimately show ?thesis using assms by (simp add: main_start_def NewHandler_def newDeduper_outcome Let_def)
qed

interpretation sys: invariant_system sys_init "sys_step M f" "sys_inv f" for f and M :: "('c, 'o, 'w) minio_lib"
proof unfold_locales
  fix st :: "panic + ('c, 'w) system"
  assume "sys_init st"
  then obtain rf le yu path open_store world y where
    start: "main_start (Load rf le yu path) open_store world = Up y" "st = Inr y"
    and tab: "\<forall>q sch d. open_store q = Inr (sch, d) \<longrightarrow> tables_ok False d" unfolding sys_init_def by blast
  from start(1) obtain cfg where cfg: "Load rf le yu path = Inr cfg"
    by (auto simp: main_start_def split: sum.splits)
  with Load_Inr have "config_ok cfg" by blast
  with sys_inv_start [of cfg open_store world y] start tab cfg show "sys_inv f st" by simp
qed (auto intro: sys_inv_step)


section \<open>Rows that belong to no job\<close>

text \<open>
  A row that no job of this run of the program stands for: nothing changes it, and while it is active no job
  for its object is added.
\<close>

definition orphan :: "transfer_row \<Rightarrow> panic + ('c, 'w) system \<Rightarrow> bool" where
  "orphan r st =
     (case st of Inl p \<Rightarrow> False
      | Inr y \<Rightarrow> find_transfer (m_db (sys_m y)) (tr_id r) = Some r \<and> tr_id r \<notin> p_submitted (sy_pool y))"

lemma adds_fresh:
  assumes "adds_to_pool f p m js" "find_transfer (m_db (p_m p)) i = Some r"
  shows "find_transfer (m_db m) i = Some r \<and> i \<notin> jid ` set js"
proof -
  have tr: "transfers (m_db m) = transfers (m_db (p_m p)) @ map (transfer_to_row \<circ> j_transfer) js"
    and "tables_ok f (m_db m)" using assms(1) by (simp_all add: adds_to_pool_def)
  then have "distinct (map tr_id (transfers (m_db (p_m p))) @ map jid js)"
    by (simp add: tables_ok_def db_ok_def comp_def)
  moreover from assms(2) have "i \<in> tr_id ` set (transfers (m_db (p_m p)))"
    by (auto simp: find_transfer_def find_Some_iff)
  ultimately have "i \<notin> jid ` set js" by auto
  with assms(2) show ?thesis by (simp add: find_transfer_def tr find_append_case)
qed

lemma db_upd_other: "db_upd S i d d' \<Longrightarrow> k \<noteq> i \<Longrightarrow> find_transfer d' k = find_transfer d k"
  by (auto simp: db_upd_def dest!: UpdateTransfer_find)

lemma work_orphan:
  assumes "work_step M f (Inr p) (Inr p')" "pool_ok f p"
    and "find_transfer (m_db (p_m p)) i = Some r" "i \<notin> p_submitted p"
  shows "find_transfer (m_db (p_m p')) i = Some r \<and> i \<notin> p_submitted p'"
proof -
  from assms(2,4) have "jid j \<noteq> i" if "(b, j) \<in> set (live p)" for b j
    using that by (auto simp: pool_ok_def jobs_ok_def)
  with work_step_db [OF assms(1)] assms(3) have "find_transfer (m_db (p_m p')) i = Some r"
    by (metis db_upd_other)
  with work_keeps [OF assms(1) refl refl assms(2)] assms(4) show ?thesis by simp
qed

lemma orphan_step: "sys_step M f st st' \<Longrightarrow> sys_inv f st \<Longrightarrow> orphan r st \<Longrightarrow> orphan r st'"
proof (induction rule: sys_step.induct)
  case (request env rq y r0 au w)
  from serve_adds [OF request(3,1,2)] obtain js where js: "adds_to_pool f (sy_pool y) (w_m w) js" by blast
  from put_w_inv [OF js] have p: "sy_pool (put_w au w y) = pool_add js (w_m w) (sy_pool y)" by blast
  from adds_fresh [OF js, of "tr_id r" r] request(4) show ?case
    by (simp add: orphan_def sys_m_def p) (simp add: pool_add_def)
next
  case (work y st)
  then have ok: "pool_ok f (sy_pool y)" by (simp add: sys_inv_def)
  with pool_inv_work [OF work(1)] obtain p' where "st = Inr p'" by (auto simp: pool_inv_def split: sum.splits)
  with work_orphan [of M f "sy_pool y" p' "tr_id r" r] work ok show ?case by (simp add: orphan_def sys_m_def)
next
  case (hub_moves y st)
  then have "hub_inv (Inr (m_hub (sys_m y)))" by (simp add: sys_inv_def pool_ok_def hub_inv_def sys_m_def)
  with hub_inv_step [OF hub_moves(1)] obtain h where "st = Inr h" by (auto simp: hub_inv_def split: sum.splits)
  with hub_moves(3) show ?case by (simp add: orphan_def set_m_def sys_m_def)
next
  case (tick y fault now)
  then have "hub_ok (m_hub (sys_m y))" by (simp add: sys_inv_def pool_ok_def sys_m_def)
  then show ?case
    by (cases rule: stats_tick_ok [where fault = fault and now = now])
      (use tick(2) in \<open>simp_all add: orphan_def set_m_def sys_m_def\<close>)
next
  case (stop y)
  then show ?case by (simp add: orphan_def set_m_def sys_m_def Stop_def)
qed (simp_all add: orphan_def set_m_def sys_m_def)

lemma orphan_steps:
  assumes "(sys_step M f)\<^sup>*\<^sup>* st st'" "sys_inv f st" "orphan r st"
  shows "sys_inv f st' \<and> orphan r st'"
  using assms by (induction rule: rtranclp_induct) (auto intro: sys_inv_step orphan_step)

lemma active_blocks:
  assumes "adds_to_pool False p m js" "j \<in> set js"
    and "find_transfer (m_db (p_m p)) i = Some r" "active_status (tr_status r)"
    and "tr_app_id r = t_app_id (j_transfer j)" "tr_object_key r = t_object_key (j_transfer j)"
  shows False
proof -
  from adds_fresh [OF assms(1,3)] assms(2) have i: "find_transfer (m_db m) i = Some r" "jid j \<noteq> i" by auto
  have ok: "db_ok (m_db m)" "unique_active (find_transfer (m_db m))"
    and tr: "transfers (m_db m) = transfers (m_db (p_m p)) @ map (transfer_to_row \<circ> j_transfer) js"
    using assms(1) by (simp_all add: adds_to_pool_def tables_ok_def)
  from tr assms(2) have "find_transfer (m_db m) (jid j) = Some (transfer_to_row (j_transfer j))"
    by (auto simp: find_transfer_unique [OF ok(1)])
  note row = this
  have "(False, j) \<in> set (live (pool_add js m p))" "pool_ok False (pool_add js m p)"
    using assms(1,2) by (auto simp: adds_to_pool_def live_def pool_add_def)
  then have "row_status (m_db m) (jid j) = Some (expected_status False j)"
    by (auto simp: pool_ok_def jobs_ok_def pool_add_def)
  with row expected_active [of False j] have "active_status (t_status (j_transfer j))" by (simp add: row_status_def)
  with row ok(2) i assms(4-6) show False unfolding unique_active_def by (metis transfer_to_row_sel(2-4))
qed

section \<open>An example system\<close>

text \<open>Credentials sealed under the key of the sample configuration, and a database with that app.\<close>

definition sample_key :: bytes where
  "sample_key = pad_key ''s3cret''"

definition sample_sealed :: string where
  "sample_sealed =
     (let nonce = replicate gcm_nonce_size (CHR ''n'') in hex_encode (nonce @ aead_seal tag_aead sample_key nonce ''sk''))"

definition sample_sealed_app :: app where
  "sample_sealed_app =
     sample_app\<lparr>a_src := (a_src sample_app)\<lparr>mc_secret_key := sample_sealed\<rparr>,
                a_dst := (a_dst sample_app)\<lparr>mc_secret_key := sample_sealed\<rparr>\<rparr>"

definition sample_sys_db :: "transfer_row list \<Rightarrow> db" where
  "sample_sys_db ts = \<lparr>groups = [group_to_row sample_group], apps = [app_to_row sample_sealed_app], transfers = ts\<rparr>"

definition sample_sys_handler :: handler where
  "sample_sys_handler = \<lparr>wh_enc_key = sample_key, wh_default_max_retries = 3, wh_default_backoff_sec = 5\<rparr>"

definition sample_sys :: "transfer_row list \<Rightarrow> (sample_client, sample_world) system" where
  "sample_sys ts =
     \<lparr>sy_auth = auth_NewService True ''admin'' ''pw'' False, sy_handler = sample_sys_handler,
      sy_dedup = \<lparr>dd_entries = Map.empty, dd_window = 60 * Second\<rparr>,
      sy_apps = \<lparr>ac_entries = Map.empty, ac_ttl = appCacheTTL\<rparr>,
      sy_pool = Start (NewManager 50 (sample_sys_db ts) [] NewMinIOClient NewHub),
      sy_server = server_New (c_server (applyDefaults sample_config)),
      sy_log = setup_logging (c_logging (applyDefaults sample_config))\<rparr>"

definition sample_sys_env :: router_env where
  "sample_sys_env = sample_router_env\<lparr>xe_handler := sample_sys_handler\<rparr>"

lemma sample_load: "Load (\<lambda>_. Inr []) (\<lambda>_. None) (\<lambda>_. Inr sample_config) ''config.yaml'' = Inr (applyDefaults sample_config)"
proof -
  have "config_ok (applyDefaults sample_config)" by code_simp
  then have "validate (applyDefaults sample_config) = Inr ()" by (simp add: validate_Inr_iff)
  then show ?thesis by (simp add: Load_def)
qed

lemma sample_start:
  "main_start (Inr (applyDefaults sample_config)) (\<lambda>_. Inr (empty_schema, sample_sys_db ts)) [] = Up (sample_sys ts)"
  by (simp add: main_start_def applyDefaults_def sample_config_def DeriveKey_def NewHandler_def newDeduper_def newAppCache_def new_ticker_def
      sample_sys_def sample_sys_handler_def sample_key_def Let_def default_str_def default_int_def go_div_def)

lemma sample_tables_ok:
  "length ts \<le> 1 \<Longrightarrow> (\<forall>r \<in> set ts. tr_app_id r = ''a1'' \<and> tr_status r \<in> valid_statuses) \<Longrightarrow> tables_ok f (sample_sys_db ts)"
  by (cases ts) (auto simp: tables_ok_def unique_active_def find_transfer_def db_ok_def refs_def sample_sys_db_def
      sample_sealed_app_def sample_defs split: if_splits)

lemma sample_sys_init:
  assumes "length ts \<le> 1" "\<forall>r \<in> set ts. tr_app_id r = ''a1'' \<and> tr_status r \<in> valid_statuses"
  shows "sys_init (Inr (sample_sys ts))"
  unfolding sys_init_def
proof (intro exI conjI)
  show "main_start (Load (\<lambda>_. Inr []) (\<lambda>_. None) (\<lambda>_. Inr sample_config) ''config.yaml'')
      (\<lambda>_. Inr (empty_schema, sample_sys_db ts)) [] = Up (sample_sys ts)"
    unfolding sample_load by (rule sample_start)
qed (use sample_tables_ok [OF assms] in auto)

lemma sample_decrypt: "decryptAppCreds tag_aead sample_key sample_sealed_app = Inr sample_app"
proof -
  have "DecryptSecret tag_aead sample_sealed sample_key = Inr ''sk''"
    unfolding sample_sealed_def Let_def by (rule decrypt_sealed) (simp_all add: tag_aead_ok sample_key_def)
  then show ?thesis by (simp add: decryptAppCreds_def sample_sealed_app_def sample_app_def sample_mc_def)
qed

lemma sample_sys_resolve:
  "\<exists>s1. resolve_app tag_aead sample_sys_handler sample_req_env sample_request (sys_w (sample_sys ts)) = Inr (sample_app, s1) \<and>
     w_m s1 = sys_m (sample_sys ts)"
proof -
  have "scanApp (app_to_row sample_sealed_app) = sample_sealed_app"
    by (simp add: scanApp_row trunc_app_def trunc_time_def to_unix_def of_unix_def sample_sealed_app_def sample_app_def)
  then have "GetAppByRoute None ''prod'' ''backup'' (sample_sys_db ts) = Inr (Some sample_sealed_app)"
    by (simp add: GetAppByRoute_def sample_sys_db_def) (simp add: sample_sealed_app_def sample_defs)
  then show ?thesis
    using sample_decrypt
    by (simp add: resolve_app_def cache_Get_def sample_request_def sample_req_env_def sys_w_def sys_m_def sample_sys_def Start_def
        NewManager_def sample_sys_handler_def) (simp add: sample_sealed_app_def sample_app_def)
qed

lemma sample_request_ok:
  "request_ok f sample_sys_env (sample_http ''POST'' (RWebhook sample_request)) (sample_sys ts)"
proof -
  have "in_int64 (effective_retries sample_sys_handler sample_app)"
    by (simp add: effective_retries_def sample_sys_handler_def sample_app_def int64)
  with sample_sys_resolve [of ts] show ?thesis
    by (auto simp: request_ok_def sample_sys_env_def sample_router_env_def sample_http_def sample_rec_env_def)
      (simp add: sample_sys_def)
qed

lemma sample_sys_serve:
  "\<exists>resp au w. serve sample_sys_env (sample_http ''POST'' (RWebhook sample_request))
       (sy_auth (sample_sys []), sys_w (sample_sys [])) = (Inr resp, au, w) \<and> rs_code resp = 202 \<and> m_queue (w_m w) \<noteq> []"
proof -
  obtain rec where ev: "ev_records sample_event = [rec]" by (simp add: sample_event_def)
  from sample_sys_resolve [of "[]"] obtain s1 where
    s1: "resolve_app tag_aead sample_sys_handler sample_req_env sample_request (sys_w (sample_sys [])) = Inr (sample_app, s1)"
    and m: "w_m s1 = sys_m (sample_sys [])" by blast
  have db: "m_db (w_m s1) = sample_sys_db []" and hub: "hub_ok (m_hub (w_m s1))"
    by (simp_all add: m sys_m_def sample_sys_def Start_def NewManager_def hub_ok_NewHub)
  from resolve_app_frame [OF s1] have dd: "dedup_live (w_dedup s1) k t = None" for k t
    by (simp add: sys_w_def sample_sys_def dedup_live_def)
  have create: "\<exists>d. CreateTransfer None (pending_transfer (sample_rec_env None) sample_app mr rec) (m_db (w_m s1)) = Inr d" for mr
    by (simp add: db CreateTransfer_def pending_transfer_def sample_sys_db_def) (simp add: sample_sealed_app_def sample_app_def)
  have "\<exists>s2. handle_record (sample_rec_env None) sample_app mr bo rec s1 = Inr (True, s2) \<and> m_queue (w_m s2) \<noteq> []" for mr bo
    using hub
  proof (cases rule: handle_record_cases
      [where re = "sample_rec_env None" and ap = sample_app and mr = mr and bo = bo and rec = rec])
    case failed
    with create [of mr] show ?thesis
      by (auto simp: handle_record_def Let_def sample_rec_env_def IsDuplicate_live split: sum.splits if_splits)
  qed (use dd db in \<open>auto simp: has_active_def sample_sys_db_def\<close>)
  then obtain s2 where q: "m_queue (w_m s2) \<noteq> []" and "handle_record (sample_rec_env None) sample_app (effective_retries sample_sys_handler sample_app)
      (effective_backoff sample_sys_handler sample_app) rec s1 = Inr (True, s2)" by blast
  moreover have "rq_body sample_request = Some sample_event" by (simp add: sample_request_def)
  ultimately have "ServeHTTP tag_aead sample_sys_handler sample_req_env (\<lambda>_. sample_rec_env None) sample_request
      (sys_w (sample_sys [])) = Inr ((202, []), s2)"
    using s1 sample_verify ev by (simp add: ServeHTTP_def)
  with q show ?thesis
    by (simp add: serve_def Recoverer_eq NewRouter_def webhook_hnd_def sample_http_def sample_sys_env_def sample_router_env_def
        http_Error_def WriteHeader_def)
qed

end
