(* ===== verification/FG_Batch.thy ===== *)
theory FG_Batch
  imports FG_Store
begin

text \<open>
  The batch writer, \<open>internal/storage/batch.go\<close>. Callers of \<open>exec\<close> put a request on a buffered
  channel and wait for its answer; one goroutine (\<open>run\<close>) collects requests and runs them in one
  transaction. \<open>drain\<close> and \<open>flush\<close> are functions; the goroutine and its callers are the step
  relation \<open>bw_step\<close>, in which the steps of a transaction (begin, one statement with its answer,
  commit) are separate, since callers run in between. The first argument of \<open>bw_step\<close> says whether
  the engine may fail. \<open>bw_sent\<close> (all requests accepted so far) and \<open>bw_answers\<close> (the answers sent
  so far, in order) are history variables. The writes of the other store methods, which use their
  own connection between transactions, are not part of this machine.
\<close>

section \<open>Requests, draining and flushing\<close>

definition batchMaxSize :: nat where
  "batchMaxSize = 500"

definition writeChanCap :: nat where
  "writeChanCap = 16384"

text \<open>A request: its statement and the identity of its \<open>done\<close> channel.\<close>

record write_request =
  wr_done :: nat
  wr_stmt :: write_stmt

text \<open>\<open>nil\<close> is \<open>None\<close>.\<close>

type_synonym answer = "nat \<times> go_error option"

fun drain_loop :: "nat \<Rightarrow> write_request list \<Rightarrow> write_request chan \<Rightarrow> write_request list \<times> write_request chan" where
  "drain_loop 0 batch ch = (batch, ch)"
| "drain_loop (Suc n) batch ch =
     (if length batch < batchMaxSize then
        (case try_recv ch of
           Some (Some req, ch') \<Rightarrow> drain_loop n (batch @ [req]) ch'
         | _ \<Rightarrow> (batch, ch))
      else (batch, ch))"

text \<open>The loop takes at most \<open>batchMaxSize\<close> requests, so that is fuel enough.\<close>

definition drain :: "write_request list \<Rightarrow> write_request chan \<Rightarrow> write_request list \<times> write_request chan" where
  "drain batch ch = drain_loop batchMaxSize batch ch"

text \<open>
  \<open>tx.Exec\<close> of one statement: a failed statement leaves the transaction as it was; the caller
  gets the error or \<open>nil\<close>.
\<close>

definition tx_exec :: "string option \<Rightarrow> write_request \<Rightarrow> db \<Rightarrow> db \<times> answer" where
  "tx_exec fault r tx =
     (case with_fault fault (exec_stmt (wr_stmt r) tx) of
        Inl e \<Rightarrow> (tx, (wr_done r, Some e))
      | Inr tx' \<Rightarrow> (tx', (wr_done r, None)))"

fun tx_exec_all :: "(nat \<Rightarrow> string option) \<Rightarrow> write_request list \<Rightarrow> db \<Rightarrow> db \<times> answer list" where
  "tx_exec_all ef [] tx = (tx, [])"
| "tx_exec_all ef (r # rs) tx =
     (let (tx', a) = tx_exec (ef (wr_done r)) r tx; (tx'', as) = tx_exec_all ef rs tx'
      in (tx'', a # as))"

definition flush :: "string option \<Rightarrow> (nat \<Rightarrow> string option) \<Rightarrow> string option \<Rightarrow> write_request list \<Rightarrow> db \<Rightarrow>
    db \<times> answer list" where
  "flush begin_fault ef commit_fault batch d =
     (case begin_fault of
        Some e \<Rightarrow> (d, map (\<lambda>r. (wr_done r, Some (Err e))) batch)
      | None \<Rightarrow>
          (let (tx, answers) = tx_exec_all ef batch d
           in case commit_fault of Some e \<Rightarrow> (d, answers) | None \<Rightarrow> (tx, answers)))"

section \<open>The goroutine and its callers\<close>

text \<open>Where \<open>run\<close> is: at the select, about to flush, inside a transaction, or returned. The flag
  says whether it returns after the flush (the \<open>stop\<close> branch).\<close>

datatype bw_pc = PLoop | PBegin bool | PTx db "write_request list" bool | PEnd

record bw =
  bw_db :: db
  bw_ch :: "write_request chan"
  bw_batch :: "write_request list"
  bw_stop :: bool
  bw_pc :: bw_pc
  bw_sent :: "write_request list"
  bw_answers :: "answer list"

definition newBatchWriter :: "db \<Rightarrow> bw" where
  "newBatchWriter d =
     \<lparr>bw_db = d, bw_ch = make_chan writeChanCap, bw_batch = [], bw_stop = False, bw_pc = PLoop,
      bw_sent = [], bw_answers = []\<rparr>"

definition after_flush :: "bool \<Rightarrow> bw_pc" where
  "after_flush ending = (if ending then PEnd else PLoop)"

text \<open>\<open>exec\<close> puts its request on the channel; its \<open>done\<close> channel is new.\<close>

definition bw_send :: "write_stmt \<Rightarrow> bw \<Rightarrow> bw option" where
  "bw_send st s =
     (let req = \<lparr>wr_done = length (bw_sent s), wr_stmt = st\<rparr>
      in case chan_push (bw_ch s) req of
           None \<Rightarrow> None
         | Some ch \<Rightarrow> Some (s\<lparr>bw_ch := ch, bw_sent := bw_sent s @ [req]\<rparr>))"

text \<open>\<open>case req := <-bw.ch\<close>.\<close>

definition bw_recv :: "bw \<Rightarrow> bw option" where
  "bw_recv s =
     (case try_recv (bw_ch s) of
        Some (Some req, ch) \<Rightarrow>
          (let (batch, ch') = drain (bw_batch s @ [req]) ch
           in Some (s\<lparr>bw_ch := ch', bw_batch := batch,
                      bw_pc := (if batchMaxSize \<le> length batch then PBegin False else PLoop)\<rparr>))
      | _ \<Rightarrow> None)"

text \<open>\<open>case <-bw.stop\<close>: take everything that is on the channel, flush it, return.\<close>

definition bw_drain_stop :: "bw \<Rightarrow> bw" where
  "bw_drain_stop s =
     (let batch = bw_batch s @ ch_buf (bw_ch s)
      in s\<lparr>bw_ch := (bw_ch s)\<lparr>ch_buf := []\<rparr>, bw_batch := batch,
           bw_pc := (if batch \<noteq> [] then PBegin True else PEnd)\<rparr>)"

text \<open>\<open>close\<close> of the writer closes \<open>stop\<close>, which must not have been closed before; then it waits until \<open>run\<close> has returned.\<close>

definition bw_close :: "bw \<Rightarrow> panic + bw" where
  "bw_close s = (if bw_stop s then Inl CloseOfClosedChannel else Inr (s\<lparr>bw_stop := True\<rparr>))"

definition bw_ended :: "bw \<Rightarrow> bool" where
  "bw_ended s \<longleftrightarrow> bw_pc s = PEnd"

inductive bw_step :: "bool \<Rightarrow> bw \<Rightarrow> bw \<Rightarrow> bool" for faulty :: bool where
  send: "bw_send st s = Some s' \<Longrightarrow> bw_step faulty s s'"
| recv: "bw_pc s = PLoop \<Longrightarrow> bw_recv s = Some s' \<Longrightarrow> bw_step faulty s s'"
| tick: "bw_pc s = PLoop \<Longrightarrow> bw_batch s \<noteq> [] \<Longrightarrow> bw_step faulty s (s\<lparr>bw_pc := PBegin False\<rparr>)"
| close: "bw_close s = Inr s' \<Longrightarrow> bw_step faulty s s'"
| stop: "bw_pc s = PLoop \<Longrightarrow> bw_stop s \<Longrightarrow> bw_step faulty s (bw_drain_stop s)"
| begin_ok: "bw_pc s = PBegin e \<Longrightarrow>
    bw_step faulty s (s\<lparr>bw_batch := [], bw_pc := PTx (bw_db s) (bw_batch s) e\<rparr>)"
| begin_fail: "faulty \<Longrightarrow> bw_pc s = PBegin e \<Longrightarrow>
    bw_step faulty s (s\<lparr>bw_batch := [], bw_pc := after_flush e,
                        bw_answers := bw_answers s @ map (\<lambda>r. (wr_done r, Some (Err msg))) (bw_batch s)\<rparr>)"
| exec: "bw_pc s = PTx tx (r # rs) e \<Longrightarrow> faulty \<or> fault = None \<Longrightarrow> tx_exec fault r tx = (tx', a) \<Longrightarrow>
    bw_step faulty s (s\<lparr>bw_pc := PTx tx' rs e, bw_answers := bw_answers s @ [a]\<rparr>)"
| commit: "bw_pc s = PTx tx [] e \<Longrightarrow> bw_step faulty s (s\<lparr>bw_db := tx, bw_pc := after_flush e\<rparr>)"
| commit_fail: "faulty \<Longrightarrow> bw_pc s = PTx tx [] e \<Longrightarrow> bw_step faulty s (s\<lparr>bw_pc := after_flush e\<rparr>)"

inductive_cases bw_stepE: "bw_step faulty s s'"

section \<open>Specification\<close>

text \<open>The requests taken by a transaction and not yet executed.\<close>

fun pc_rest :: "bw_pc \<Rightarrow> write_request list" where
  "pc_rest (PTx tx rs e) = rs"
| "pc_rest _ = []"

definition unanswered :: "bw \<Rightarrow> write_request list" where
  "unanswered s = pc_rest (bw_pc s) @ bw_batch s @ ch_buf (bw_ch s)"

text \<open>
  The reference: the statements run one by one against the database, in the order the requests
  came, each answered with its own outcome.
\<close>

fun serial :: "write_request list \<Rightarrow> db \<Rightarrow> db \<times> answer list" where
  "serial [] d = (d, [])"
| "serial (r # rs) d =
     (case exec_stmt (wr_stmt r) d of
        Inl e \<Rightarrow> (let (d', as) = serial rs d in (d', (wr_done r, Some e) # as))
      | Inr d1 \<Rightarrow> (let (d', as) = serial rs d1 in (d', (wr_done r, None) # as)))"

text \<open>What \<open>run\<close> works on: the open transaction, or the committed state.\<close>

fun bw_view :: "bw_pc \<Rightarrow> db \<Rightarrow> db" where
  "bw_view (PTx tx rs e) d = tx"
| "bw_view _ d = d"

definition bw_inv :: "bw \<Rightarrow> bool" where
  "bw_inv s \<longleftrightarrow>
     map fst (bw_answers s) @ map wr_done (unanswered s) = [0..<length (bw_sent s)] \<and>
     map wr_done (bw_sent s) = [0..<length (bw_sent s)] \<and>
     (bw_pc s = PLoop \<longrightarrow> length (bw_batch s) < batchMaxSize) \<and>
     (bw_pc s = PBegin False \<longrightarrow> bw_batch s \<noteq> [] \<and> length (bw_batch s) \<le> batchMaxSize) \<and>
     ((\<exists>tx rs e. bw_pc s = PTx tx rs e) \<or> bw_pc s = PEnd \<longrightarrow> bw_batch s = []) \<and>
     (\<forall>tx rs. bw_pc s = PTx tx rs False \<longrightarrow> length rs \<le> batchMaxSize) \<and>
     length (ch_buf (bw_ch s)) \<le> ch_cap (bw_ch s) \<and> ch_cap (bw_ch s) = writeChanCap \<and> \<not> ch_closed (bw_ch s)"

text \<open>Without failures of the engine: the answered requests, run in order, give the state and the answers.\<close>

definition bw_serial :: "db \<Rightarrow> bw \<Rightarrow> bool" where
  "bw_serial d0 s \<longleftrightarrow>
     (\<exists>done. bw_sent s = done @ unanswered s \<and> serial done d0 = (bw_view (bw_pc s) (bw_db s), bw_answers s))"

section \<open>Lemmas\<close>

lemma batchMaxSize_pos [simp]: "0 < batchMaxSize"
  by (simp add: batchMaxSize_def)

lemma drain_loop_spec:
  "drain_loop n b ch = (b', ch') \<Longrightarrow> length b \<le> batchMaxSize \<Longrightarrow>
     b' @ ch_buf ch' = b @ ch_buf ch \<and> length b' \<le> batchMaxSize \<and> ch_cap ch' = ch_cap ch \<and> ch_closed ch' = ch_closed ch \<and>
     (batchMaxSize \<le> length b + n \<longrightarrow> length b' = batchMaxSize \<or> ch_buf ch' = [])"
proof (induction n arbitrary: b ch)
  case (Suc n)
  show ?case
  proof (cases "length b < batchMaxSize \<and> ch_buf ch \<noteq> []")
    case True
    then obtain x xs where x: "ch_buf ch = x # xs" by (cases "ch_buf ch") auto
    with True Suc.prems have "drain_loop n (b @ [x]) (ch\<lparr>ch_buf := xs\<rparr>) = (b', ch')"
      by (simp add: try_recv_def)
    from Suc.IH [OF this] True x show ?thesis by simp
  next
    case False
    with Suc.prems show ?thesis
      by (auto simp: try_recv_def split: if_splits)
  qed
qed auto

lemma drain_loop_less: "drain_loop n b ch = (b', ch') \<Longrightarrow> length (ch_buf ch') \<le> length (ch_buf ch)"
proof (induction n arbitrary: b ch)
  case (Suc n)
  show ?case
  proof (cases "length b < batchMaxSize \<and> ch_buf ch \<noteq> []")
    case True
    then obtain x xs where x: "ch_buf ch = x # xs" by (cases "ch_buf ch") auto
    with True Suc.prems have "drain_loop n (b @ [x]) (ch\<lparr>ch_buf := xs\<rparr>) = (b', ch')" by (simp add: try_recv_def)
    from Suc.IH [OF this] x show ?thesis by simp
  qed (use Suc.prems in \<open>auto simp: try_recv_def split: if_splits\<close>)
qed simp

lemma drain_spec:
  assumes "drain b ch = (b', ch')" "length b \<le> batchMaxSize"
  shows "b' @ ch_buf ch' = b @ ch_buf ch" "length b' \<le> batchMaxSize" "ch_cap ch' = ch_cap ch"
    "ch_closed ch' = ch_closed ch" "length b' = batchMaxSize \<or> ch_buf ch' = []"
  using drain_loop_spec [OF assms [unfolded drain_def]] by auto

lemma tx_exec_done: "tx_exec f r tx = (tx', a) \<Longrightarrow> fst a = wr_done r"
  by (auto simp: tx_exec_def split: sum.splits)

lemma bw_send_Some:
  "bw_send st s = Some s' \<longleftrightarrow>
     \<not> ch_closed (bw_ch s) \<and> length (ch_buf (bw_ch s)) < ch_cap (bw_ch s) \<and>
     s' = s\<lparr>bw_ch := (bw_ch s)\<lparr>ch_buf := ch_buf (bw_ch s) @ [\<lparr>wr_done = length (bw_sent s), wr_stmt = st\<rparr>]\<rparr>,
            bw_sent := bw_sent s @ [\<lparr>wr_done = length (bw_sent s), wr_stmt = st\<rparr>]\<rparr>"
  by (auto simp: bw_send_def Let_def chan_push_def try_send_def)

lemma bw_recv_Some:
  assumes "bw_recv s = Some s'" "length (bw_batch s) < batchMaxSize"
  shows "\<exists>batch ch. s' = s\<lparr>bw_ch := ch, bw_batch := batch, bw_pc := (if length batch = batchMaxSize then PBegin False else PLoop)\<rparr> \<and>
           batch @ ch_buf ch = bw_batch s @ ch_buf (bw_ch s) \<and> batch \<noteq> [] \<and> length batch \<le> batchMaxSize \<and>
           ch_cap ch = ch_cap (bw_ch s) \<and> ch_closed ch = ch_closed (bw_ch s) \<and> length (ch_buf ch) \<le> length (ch_buf (bw_ch s))"
proof -
  from assms(1) obtain req ch0 where r: "try_recv (bw_ch s) = Some (Some req, ch0)"
    by (auto simp: bw_recv_def split: option.splits)
  obtain batch ch where d: "drain (bw_batch s @ [req]) ch0 = (batch, ch)" by fastforce
  from r have buf: "ch_buf (bw_ch s) = req # ch_buf ch0" and same: "ch_cap ch0 = ch_cap (bw_ch s)"
    "ch_closed ch0 = ch_closed (bw_ch s)"
    by (auto simp: try_recv_def split: list.splits if_splits)
  from assms(2) have "length (bw_batch s @ [req]) \<le> batchMaxSize" by simp
  note sp = drain_spec [OF d this]
  have cat: "batch @ ch_buf ch = bw_batch s @ ch_buf (bw_ch s)" using sp(1) buf by simp
  have ne: "batch \<noteq> []"
  proof
    assume "batch = []"
    with sp(5) have "ch_buf ch = []" by (auto simp: batchMaxSize_def)
    with \<open>batch = []\<close> cat buf show False by simp
  qed
  have "length batch + length (ch_buf ch) = length (bw_batch s) + length (ch_buf (bw_ch s))"
    using cat by (metis length_append)
  moreover have "length (bw_batch s) \<le> length batch"
    using sp(5) assms(2) calculation by auto
  ultimately have "length (ch_buf ch) \<le> length (ch_buf (bw_ch s))" by simp
  moreover have "s' = s\<lparr>bw_ch := ch, bw_batch := batch, bw_pc := (if length batch = batchMaxSize then PBegin False else PLoop)\<rparr>"
    using assms(1) r d sp(2) by (auto simp: bw_recv_def)
  ultimately show ?thesis
    using cat ne sp(2,3,4) same by (intro exI [of _ batch] exI [of _ ch]) simp
qed

lemma bw_recv_less:
  assumes "bw_recv s = Some s'"
  shows "length (ch_buf (bw_ch s')) < length (ch_buf (bw_ch s))"
proof -
  from assms obtain req ch0 where r: "try_recv (bw_ch s) = Some (Some req, ch0)" "length (ch_buf ch0) < length (ch_buf (bw_ch s))"
    by (auto simp: bw_recv_def try_recv_def split: option.splits list.splits if_splits)
  obtain batch ch where d: "drain (bw_batch s @ [req]) ch0 = (batch, ch)" by fastforce
  from drain_loop_less [OF d [unfolded drain_def]] d r assms show ?thesis by (auto simp: bw_recv_def)
qed

lemma bw_inv_init: "bw_inv (newBatchWriter d)"
  by (simp add: bw_inv_def newBatchWriter_def unanswered_def make_chan_def batchMaxSize_def)

lemma bw_inv_step: "bw_step faulty s s' \<Longrightarrow> bw_inv s \<Longrightarrow> bw_inv s'"
proof (induction rule: bw_step.induct)
  case (send st s s')
  then show ?case by (auto simp: bw_send_Some bw_inv_def unanswered_def)
next
  case (recv s s')
  then have "length (bw_batch s) < batchMaxSize" by (simp add: bw_inv_def)
  from bw_recv_Some [OF recv.hyps(2) this] obtain batch ch where
    s': "s' = s\<lparr>bw_ch := ch, bw_batch := batch, bw_pc := (if length batch = batchMaxSize then PBegin False else PLoop)\<rparr>"
    and cat: "batch @ ch_buf ch = bw_batch s @ ch_buf (bw_ch s)" and "batch \<noteq> []" "length batch \<le> batchMaxSize"
    "ch_cap ch = ch_cap (bw_ch s)" "ch_closed ch = ch_closed (bw_ch s)" "length (ch_buf ch) \<le> length (ch_buf (bw_ch s))"
    by blast
  moreover from cat have "map wr_done batch @ map wr_done (ch_buf ch) = map wr_done (bw_batch s) @ map wr_done (ch_buf (bw_ch s))"
    by (metis map_append)
  ultimately show ?case using recv by (auto simp: bw_inv_def unanswered_def)
next
  case (exec s tx r rs e fault tx' a)
  then show ?case using tx_exec_done [of fault r tx tx' a]
    by (cases e) (auto simp: bw_inv_def unanswered_def)
qed (auto simp: bw_inv_def unanswered_def bw_drain_stop_def bw_close_def Let_def after_flush_def o_def split: if_splits)

interpretation bw_sys: invariant_system "\<lambda>s. s = newBatchWriter d" "bw_step faulty" bw_inv for d faulty
  by unfold_locales (auto simp: bw_inv_init intro: bw_inv_step)

lemma serial_Cons: "serial (r # rs) d = (let (d', a) = tx_exec None r d; (d'', as) = serial rs d' in (d'', a # as))"
  by (simp add: tx_exec_def with_fault_def split: sum.splits)

lemma serial_snoc:
  "serial (rs @ [r]) d =
     (let (d', as) = serial rs d; (d'', a) = tx_exec None r d' in (d'', as @ [a]))"
  by (induction rs arbitrary: d) (auto simp: serial_Cons simp del: serial.simps(2) split: prod.splits)

lemma tx_exec_all_serial: "tx_exec_all (\<lambda>_. None) rs d = serial rs d"
  by (induction rs arbitrary: d) (auto simp: serial_Cons simp del: serial.simps(2) split: prod.splits)

lemma bw_serial_init: "bw_serial d (newBatchWriter d)"
  by (simp add: bw_serial_def newBatchWriter_def unanswered_def make_chan_def)

lemma bw_serial_step: "bw_step False s s' \<Longrightarrow> bw_inv s \<and> bw_serial d s \<Longrightarrow> bw_serial d s'"
proof (induction rule: bw_step.induct)
  case (send st s s')
  then show ?case by (auto simp: bw_send_Some bw_serial_def unanswered_def)
next
  case (recv s s')
  then have "length (bw_batch s) < batchMaxSize" by (simp add: bw_inv_def)
  from bw_recv_Some [OF recv.hyps(2) this] recv show ?case
    by (auto simp: bw_serial_def unanswered_def)
next
  case (exec s tx r rs e fault tx' a)
  from exec obtain dn where dn: "bw_sent s = dn @ unanswered s" "serial dn d = (tx, bw_answers s)"
    by (auto simp: bw_serial_def)
  from exec have "fault = None" by simp
  with exec dn have "bw_sent s = (dn @ [r]) @ rs @ bw_batch s @ ch_buf (bw_ch s)"
    "serial (dn @ [r]) d = (tx', bw_answers s @ [a])"
    by (simp_all add: unanswered_def serial_snoc)
  then show ?case by (auto simp: bw_serial_def unanswered_def)
qed (auto simp: bw_serial_def unanswered_def bw_drain_stop_def bw_close_def Let_def after_flush_def bw_inv_def split: if_splits)

interpretation bw_ref: invariant_system "\<lambda>s. s = newBatchWriter d" "bw_step False" "\<lambda>s. bw_inv s \<and> bw_serial d s" for d
  by unfold_locales (auto simp: bw_inv_init bw_serial_init intro: bw_inv_step bw_serial_step)

text \<open>The steps of a transaction, run to the end, are \<open>flush\<close>.\<close>

lemma tx_steps:
  assumes "bw_pc s = PTx tx rs e" "tx_exec_all ef rs tx = (tx', as)" "faulty \<or> ef = (\<lambda>_. None)"
  shows "(bw_step faulty)\<^sup>*\<^sup>* s (s\<lparr>bw_pc := PTx tx' [] e, bw_answers := bw_answers s @ as\<rparr>)"
  using assms(1,2)
proof (induction rs arbitrary: s tx as)
  case (Cons r rs)
  obtain tx1 a as1 where x: "tx_exec (ef (wr_done r)) r tx = (tx1, a)" "tx_exec_all ef rs tx1 = (tx', as1)" "as = a # as1"
    using Cons.prems(2) by (auto split: prod.splits)
  let ?s1 = "s\<lparr>bw_pc := PTx tx1 rs e, bw_answers := bw_answers s @ [a]\<rparr>"
  have "bw_step faulty s ?s1"
    using Cons.prems(1) assms(3) x(1) by (intro exec [where fault = "ef (wr_done r)"]) auto
  moreover have "(bw_step faulty)\<^sup>*\<^sup>* ?s1 (?s1\<lparr>bw_pc := PTx tx' [] e, bw_answers := bw_answers ?s1 @ as1\<rparr>)"
    using x(2) by (intro Cons.IH) simp_all
  ultimately show ?case using x(3) by (simp add: converse_rtranclp_into_rtranclp)
next
  case Nil
  then have "s\<lparr>bw_pc := PTx tx' [] e, bw_answers := bw_answers s @ as\<rparr> = s"
    by (intro bw.equality) simp_all
  then show ?case by simp
qed

lemma flush_steps:
  assumes "bw_pc s = PBegin e" "flush bf ef cf (bw_batch s) (bw_db s) = (d', as)"
    and "faulty \<or> bf = None \<and> ef = (\<lambda>_. None) \<and> cf = None"
  shows "(bw_step faulty)\<^sup>*\<^sup>* s (s\<lparr>bw_db := d', bw_batch := [], bw_pc := after_flush e, bw_answers := bw_answers s @ as\<rparr>)"
proof (cases bf)
  case (Some m)
  with assms have "faulty" "d' = bw_db s" "as = map (\<lambda>r. (wr_done r, Some (Err m))) (bw_batch s)"
    by (auto simp: flush_def)
  with begin_fail [OF _ assms(1), of faulty m] show ?thesis by (simp add: r_into_rtranclp)
next
  case None
  obtain tx as' where x: "tx_exec_all ef (bw_batch s) (bw_db s) = (tx, as')" by fastforce
  with None assms(2) have as: "as' = as" and d': "d' = (if cf = None then tx else bw_db s)"
    by (auto simp: flush_def split: option.splits)
  let ?s1 = "s\<lparr>bw_batch := [], bw_pc := PTx (bw_db s) (bw_batch s) e\<rparr>"
  let ?s2 = "?s1\<lparr>bw_pc := PTx tx [] e, bw_answers := bw_answers ?s1 @ as\<rparr>"
  have 1: "bw_step faulty s ?s1" using assms(1) by (rule begin_ok)
  have 2: "(bw_step faulty)\<^sup>*\<^sup>* ?s1 ?s2"
    using assms(3) x as by (intro tx_steps [where ef = ef]) auto
  have 3: "bw_step faulty ?s2 (?s2\<lparr>bw_db := d', bw_pc := after_flush e\<rparr>)"
  proof (cases cf)
    case None
    then show ?thesis using commit [of ?s2 tx e faulty] d' by simp
  next
    case (Some m)
    then show ?thesis using commit_fail [of faulty ?s2 tx e] d' assms(3) by auto
  qed
  have "(bw_step faulty)\<^sup>*\<^sup>* s (?s2\<lparr>bw_db := d', bw_pc := after_flush e\<rparr>)"
    using converse_rtranclp_into_rtranclp [of "bw_step faulty", OF 1 2] 3 by (rule rtranclp.rtrancl_into_rtrancl)
  also have "?s2\<lparr>bw_db := d', bw_pc := after_flush e\<rparr> =
      s\<lparr>bw_db := d', bw_batch := [], bw_pc := after_flush e, bw_answers := bw_answers s @ as\<rparr>"
    by (intro bw.equality) simp_all
  finally show ?thesis .
qed

text \<open>\<open>run\<close> can always finish a flush, and once it takes the \<open>stop\<close> branch it answers what is queued.\<close>

lemma flush_runs:
  assumes "bw_pc s = PBegin e"
  shows "\<exists>s'. (bw_step faulty)\<^sup>*\<^sup>* s s' \<and> bw_pc s' = after_flush e \<and> bw_sent s' = bw_sent s \<and>
      bw_ch s' = bw_ch s \<and> bw_stop s' = bw_stop s"
proof -
  obtain d' as where f: "flush None (\<lambda>_. None) None (bw_batch s) (bw_db s) = (d', as)" by fastforce
  show ?thesis by (rule exI, rule conjI, rule flush_steps [OF assms f]) simp_all
qed

lemma tx_runs:
  assumes "bw_pc s = PTx tx rs e"
  shows "\<exists>s'. (bw_step faulty)\<^sup>*\<^sup>* s s' \<and> bw_pc s' = after_flush e \<and> bw_sent s' = bw_sent s \<and>
      bw_ch s' = bw_ch s \<and> bw_stop s' = bw_stop s"
proof -
  obtain tx' as where x: "tx_exec_all (\<lambda>_. None) rs tx = (tx', as)" by fastforce
  let ?s1 = "s\<lparr>bw_pc := PTx tx' [] e, bw_answers := bw_answers s @ as\<rparr>"
  have "bw_step faulty ?s1 (?s1\<lparr>bw_db := tx', bw_pc := after_flush e\<rparr>)" by (rule commit) simp
  with tx_steps [OF assms x] show ?thesis
    by (intro exI [of _ "?s1\<lparr>bw_db := tx', bw_pc := after_flush e\<rparr>"])
      (auto intro: rtranclp.rtrancl_into_rtrancl)
qed

lemma stop_runs:
  assumes pc: "bw_pc s = PLoop" and st: "bw_stop s"
  shows "\<exists>s'. (bw_step faulty)\<^sup>*\<^sup>* s s' \<and> bw_pc s' = PEnd \<and> bw_sent s' = bw_sent s \<and> ch_buf (bw_ch s') = []"
proof -
  let ?s1 = "bw_drain_stop s"
  have 1: "bw_step faulty s ?s1" using pc st by (rule stop)
  show ?thesis
  proof (cases "bw_pc ?s1 = PEnd")
    case True
    with 1 show ?thesis by (intro exI [of _ ?s1]) (auto simp: bw_drain_stop_def Let_def)
  next
    case False
    then have "bw_pc ?s1 = PBegin True" by (auto simp: bw_drain_stop_def Let_def split: if_splits)
    from flush_runs [OF this] obtain s' where "(bw_step faulty)\<^sup>*\<^sup>* ?s1 s'" "bw_pc s' = PEnd"
      "bw_sent s' = bw_sent ?s1" "bw_ch s' = bw_ch ?s1"
      by (auto simp: after_flush_def)
    with 1 show ?thesis
      by (intro exI [of _ s']) (auto simp: bw_drain_stop_def Let_def intro: converse_rtranclp_into_rtranclp)
  qed
qed

text \<open>\<open>run\<close> has not yet taken the \<open>stop\<close> branch.\<close>

fun not_ending :: "bw_pc \<Rightarrow> bool" where
  "not_ending PLoop = True"
| "not_ending (PBegin e) = (\<not> e)"
| "not_ending (PTx tx rs e) = (\<not> e)"
| "not_ending PEnd = False"

lemma bw_ends:
  assumes "not_ending (bw_pc s)" "bw_stop s"
  shows "\<exists>s'. (bw_step faulty)\<^sup>*\<^sup>* s s' \<and> bw_pc s' = PEnd \<and> bw_sent s' = bw_sent s \<and> ch_buf (bw_ch s') = []"
proof -
  have "\<exists>s1. (bw_step faulty)\<^sup>*\<^sup>* s s1 \<and> bw_pc s1 = PLoop \<and> bw_sent s1 = bw_sent s \<and> bw_stop s1"
    using assms flush_runs [of s False faulty] tx_runs [of s _ _ False faulty]
    by (cases "bw_pc s") (auto simp: after_flush_def)
  then obtain s1 where s1: "(bw_step faulty)\<^sup>*\<^sup>* s s1" "bw_pc s1 = PLoop" "bw_sent s1 = bw_sent s" "bw_stop s1" by blast
  from stop_runs [OF s1(2,4)] s1 show ?thesis by (metis rtranclp_trans)
qed

text \<open>
  The steps of the goroutine itself, without its callers. They cannot go on for ever, and where they stop either
  everything is answered or the goroutine has returned.
\<close>

definition bw_own :: "bool \<Rightarrow> bw \<Rightarrow> bw \<Rightarrow> bool" where
  "bw_own faulty s s' \<longleftrightarrow> bw_step faulty s s' \<and> bw_sent s' = bw_sent s \<and> bw_stop s' = bw_stop s"

fun pc_load :: "bw_pc \<Rightarrow> nat \<Rightarrow> nat" where
  "pc_load PLoop b = 7 * b + 1"
| "pc_load (PBegin e) b = 4 * b + 3"
| "pc_load (PTx tx rs e) b = 7 * b + length rs + 2"
| "pc_load PEnd b = 7 * b"

definition bw_load :: "bw \<Rightarrow> nat" where
  "bw_load s = 8 * length (ch_buf (bw_ch s)) + pc_load (bw_pc s) (length (bw_batch s))"

lemma bw_own_load:
  assumes "bw_own faulty s s'" "bw_inv s"
  shows "bw_load s' < bw_load s"
proof -
  from assms(1) have step: "bw_step faulty s s'" and same: "bw_sent s' = bw_sent s" "bw_stop s' = bw_stop s"
    by (simp_all add: bw_own_def)
  from step show ?thesis
  proof (cases rule: bw_step.cases)
    case (send st)
    with same show ?thesis by (simp add: bw_send_Some)
  next
    case recv
    then have "length (bw_batch s) < batchMaxSize" using assms(2) by (simp add: bw_inv_def)
    from bw_recv_Some [OF recv(2) this] obtain batch ch where
      s': "s' = s\<lparr>bw_ch := ch, bw_batch := batch, bw_pc := (if length batch = batchMaxSize then PBegin False else PLoop)\<rparr>"
      and cat: "batch @ ch_buf ch = bw_batch s @ ch_buf (bw_ch s)"
      by blast
    from cat have "length batch + length (ch_buf ch) = length (bw_batch s) + length (ch_buf (bw_ch s))"
      by (metis length_append)
    moreover from bw_recv_less [OF recv(2)] s' have "length (ch_buf ch) < length (ch_buf (bw_ch s))" by simp
    ultimately show ?thesis using recv(1) by (simp add: bw_load_def s')
  next
    case tick
    then show ?thesis by (cases "bw_batch s") (simp_all add: bw_load_def)
  next
    case close
    with same show ?thesis by (auto simp: bw_close_def split: if_splits)
  next
    case stop
    have "length (bw_batch s @ ch_buf (bw_ch s)) = length (bw_batch s) + length (ch_buf (bw_ch s))" by simp
    with stop show ?thesis by (cases "bw_batch s @ ch_buf (bw_ch s)") (simp_all add: bw_load_def bw_drain_stop_def Let_def)
  next
    case (exec tx r rs e fault tx' a)
    then show ?thesis by (simp add: bw_load_def)
  qed (use assms(2) in \<open>auto simp: bw_load_def bw_inv_def after_flush_def\<close>)
qed

lemma bw_own_terminates:
  assumes "bw_inv s"
  shows "\<not> (\<exists>\<sigma>. \<sigma> 0 = s \<and> (\<forall>i. bw_own faulty (\<sigma> i) (\<sigma> (Suc i))))"
proof (intro notI, elim exE conjE)
  fix \<sigma> assume s: "\<sigma> 0 = s" and run: "\<forall>i. bw_own faulty (\<sigma> i) (\<sigma> (Suc i))"
  have inv: "bw_inv (\<sigma> i)" for i
    by (induction i) (use assms s run bw_inv_step in \<open>auto simp: bw_own_def\<close>)
  with bw_own_load run have "bw_load (\<sigma> (Suc i)) < bw_load (\<sigma> i)" for i by blast
  with no_descent [of "\<lambda>i. bw_load (\<sigma> i)"] show False by blast
qed

lemma bw_own_rest:
  assumes inv: "bw_inv s" and stuck: "\<nexists>s'. bw_own faulty s s'"
  shows "bw_ended s \<or> unanswered s = []"
proof (cases "bw_pc s")
  case PLoop
  have "bw_own faulty s (s\<lparr>bw_pc := PBegin False\<rparr>)" if "bw_batch s \<noteq> []"
    using tick [OF PLoop that] by (simp add: bw_own_def)
  with stuck have b: "bw_batch s = []" by blast
  have "ch_buf (bw_ch s) = []"
  proof (rule ccontr)
    assume "ch_buf (bw_ch s) \<noteq> []"
    then obtain req q where "ch_buf (bw_ch s) = req # q" by (cases "ch_buf (bw_ch s)") auto
    moreover obtain batch ch where "drain (bw_batch s @ [req]) ((bw_ch s)\<lparr>ch_buf := q\<rparr>) = (batch, ch)" by force
    ultimately obtain s' where s': "bw_recv s = Some s'" "bw_sent s' = bw_sent s" "bw_stop s' = bw_stop s"
      by (auto simp: bw_recv_def try_recv_def)
    with recv [OF PLoop, of s' faulty] have "bw_own faulty s s'" by (simp add: bw_own_def)
    with stuck show False by blast
  qed
  with PLoop b show ?thesis by (simp add: unanswered_def)
next
  case (PBegin e)
  have "bw_own faulty s (s\<lparr>bw_batch := [], bw_pc := PTx (bw_db s) (bw_batch s) e\<rparr>)"
    using begin_ok [OF PBegin] by (simp add: bw_own_def)
  with stuck show ?thesis by blast
next
  case (PTx tx rs e)
  show ?thesis
  proof (cases rs)
    case Nil
    with PTx commit [of s tx e faulty] have "bw_own faulty s (s\<lparr>bw_db := tx, bw_pc := after_flush e\<rparr>)" by (simp add: bw_own_def)
    with stuck show ?thesis by blast
  next
    case (Cons r rs')
    obtain tx' a where "tx_exec None r tx = (tx', a)" by (meson surj_pair)
    with PTx Cons exec [of s tx r rs' e faulty None tx' a]
    have "bw_own faulty s (s\<lparr>bw_pc := PTx tx' rs' e, bw_answers := bw_answers s @ [a]\<rparr>)" by (simp add: bw_own_def)
    with stuck show ?thesis by blast
  qed
qed (simp add: bw_ended_def)

lemma bw_own_run:
  assumes "(bw_own faulty)\<^sup>*\<^sup>* s s'" "bw_inv s"
  shows "bw_inv s' \<and> bw_sent s' = bw_sent s"
  using assms by (induction rule: rtranclp_induct) (auto simp: bw_own_def intro: bw_inv_step)

text \<open>The state after one statement has been submitted to a fresh writer.\<close>

definition bw_one :: "db \<Rightarrow> write_stmt \<Rightarrow> bw" where
  "bw_one d st =
     (newBatchWriter d)\<lparr>bw_ch := (make_chan writeChanCap)\<lparr>ch_buf := [\<lparr>wr_done = 0, wr_stmt = st\<rparr>]\<rparr>,
        bw_sent := [\<lparr>wr_done = 0, wr_stmt = st\<rparr>]\<rparr>"

lemma bw_reach_one: "reach (\<lambda>s. s = newBatchWriter d) (bw_step faulty) (bw_one d st)"
proof -
  have "reach (\<lambda>s. s = newBatchWriter d) (bw_step faulty) (newBatchWriter d)"
    by (rule reach_init) simp
  moreover have "bw_step faulty (newBatchWriter d) (bw_one d st)"
    by (rule send [of st]) (simp add: bw_one_def bw_send_Some newBatchWriter_def make_chan_def writeChanCap_def)
  ultimately show ?thesis by (rule reach_step)
qed

lemma bw_one_sel [simp]:
  "bw_db (bw_one d st) = d" "bw_pc (bw_one d st) = PLoop" "bw_sent (bw_one d st) = [\<lparr>wr_done = 0, wr_stmt = st\<rparr>]"
  "bw_answers (bw_one d st) = []" "bw_batch (bw_one d st) = []"
  by (simp_all add: bw_one_def newBatchWriter_def)

section \<open>Properties\<close>

text \<open>
  C10: requests are answered in the order they were accepted and none twice, whatever fails: the answers sent so far are for the
  first requests, and the remaining ones are in the open transaction, in the batch or on the channel, in order. None is left
  waiting: the goroutine's own steps cannot go on for ever, and where they come to rest every request accepted so far has been
  answered or the goroutine has returned after \<open>close\<close>. Until it begins to end, a batch has at most 500 requests; the last
  one, which takes everything from the channel, may have more.
\<close>

theorem batch_exactly_once:
  assumes "reach (\<lambda>s. s = newBatchWriter d) (bw_step faulty) s"
  shows "map fst (bw_answers s) @ map wr_done (unanswered s) = map wr_done (bw_sent s) \<and>
         distinct (map wr_done (bw_sent s)) \<and>
         (not_ending (bw_pc s) \<longrightarrow> length (pc_rest (bw_pc s) @ bw_batch s) \<le> 500) \<and>
         \<not> (\<exists>\<sigma>. \<sigma> 0 = s \<and> (\<forall>i. bw_own faulty (\<sigma> i) (\<sigma> (Suc i)))) \<and>
         (\<forall>s'. (bw_own faulty)\<^sup>*\<^sup>* s s' \<and> \<not> (\<exists>s''. bw_own faulty s' s'') \<longrightarrow>
            bw_ended s' \<or> map fst (bw_answers s') = map wr_done (bw_sent s))"
proof -
  from assms have inv: "bw_inv s" by (rule bw_sys.reach_inv)
  then have "map fst (bw_answers s) @ map wr_done (unanswered s) = map wr_done (bw_sent s) \<and>
      distinct (map wr_done (bw_sent s)) \<and> (not_ending (bw_pc s) \<longrightarrow> length (pc_rest (bw_pc s) @ bw_batch s) \<le> 500)"
    by (cases "bw_pc s") (auto simp: bw_inv_def batchMaxSize_def)
  moreover have "bw_ended s' \<or> map fst (bw_answers s') = map wr_done (bw_sent s)"
    if run: "(bw_own faulty)\<^sup>*\<^sup>* s s'" and "\<nexists>s''. bw_own faulty s' s''" for s'
  proof -
    from bw_own_run [OF run inv] have "bw_inv s'" "bw_sent s' = bw_sent s" by auto
    with bw_own_rest [OF _ that(2)] show ?thesis by (auto simp: bw_inv_def)
  qed
  ultimately show ?thesis using bw_own_terminates [OF inv] by blast
qed

theorem batch_exactly_once_witness:
  "let s = bw_one sample_db (InsertTransfer sample_transfer) in
     map fst (bw_answers s) @ map wr_done (unanswered s) = [0]"
  using batch_exactly_once [OF bw_reach_one [of sample_db False "InsertTransfer sample_transfer"]]
  by (simp add: Let_def)

text \<open>
  C11: batching is invisible: as long as the engine does not fail, the writer's state and its answers
  are those of running the statements one by one in the order they came.
\<close>

theorem batch_refines_serial:
  assumes "reach (\<lambda>s. s = newBatchWriter d) (bw_step False) s"
  shows "\<exists>answered. bw_sent s = answered @ unanswered s \<and>
           serial answered d = (bw_view (bw_pc s) (bw_db s), bw_answers s)"
  using bw_ref.reach_inv [OF assms] by (simp add: bw_serial_def)

theorem batch_refines_serial_witness:
  "let s = bw_one sample_db (InsertTransfer sample_transfer) in
     \<exists>answered. bw_sent s = answered @ unanswered s \<and>
       serial answered sample_db = (bw_view (bw_pc s) (bw_db s), bw_answers s)"
  using batch_refines_serial [OF bw_reach_one [of sample_db False "InsertTransfer sample_transfer"]]
  by (simp add: Let_def)

text \<open>
  C25: \<open>close\<close> completes: from any state in which \<open>stop\<close> has been closed and the writer has not yet
  begun to end, the writer can run to its end, and then every request accepted so far has been
  answered.
\<close>

theorem batch_close_answers_all:
  assumes "reach (\<lambda>s. s = newBatchWriter d) (bw_step faulty) s" and "bw_stop s" and "not_ending (bw_pc s)"
  shows "\<exists>s'. (bw_step faulty)\<^sup>*\<^sup>* s s' \<and> bw_ended s' \<and> bw_sent s' = bw_sent s \<and>
              map fst (bw_answers s') = map wr_done (bw_sent s)"
proof -
  from bw_ends [OF assms(3,2)] obtain s' where s': "(bw_step faulty)\<^sup>*\<^sup>* s s'" "bw_pc s' = PEnd"
    "bw_sent s' = bw_sent s" "ch_buf (bw_ch s') = []" by blast
  from bw_sys.reach_steps [OF assms(1) s'(1)] have "bw_inv s'" by (rule bw_sys.reach_inv)
  with s' have "map fst (bw_answers s') = map wr_done (bw_sent s)"
    by (auto simp: bw_inv_def unanswered_def)
  with s' show ?thesis unfolding bw_ended_def by blast
qed

theorem batch_close_answers_all_witness:
  "\<exists>s'. (bw_step True)\<^sup>*\<^sup>* ((bw_one sample_db (InsertTransfer sample_transfer))\<lparr>bw_stop := True\<rparr>) s' \<and>
     bw_ended s' \<and> map fst (bw_answers s') = [0]"
proof -
  let ?s = "(bw_one sample_db (InsertTransfer sample_transfer))\<lparr>bw_stop := True\<rparr>"
  have "reach (\<lambda>s. s = newBatchWriter sample_db) (bw_step True) ?s"
    by (rule reach_step [OF bw_reach_one close], simp add: bw_close_def bw_one_def newBatchWriter_def)
  then obtain s' where "(bw_step True)\<^sup>*\<^sup>* ?s s'" "bw_ended s'"
    "map fst (bw_answers s') = map wr_done (bw_sent ?s)"
    using batch_close_answers_all [of sample_db True ?s] by auto
  then show ?thesis by (intro exI [of _ s']) simp
qed

text \<open>
  an answer of \<open>nil\<close> does not mean that the write is committed: a request can be answered while
  its transaction is still open and the committed database does not have the row, and if the
  commit then fails the row never appears, although its caller was told that it was written.
\<close>

theorem answered_before_commit:
  "\<exists>s s' t d. reach (\<lambda>s. s = newBatchWriter d) (bw_step True) s \<and>
     bw_sent s = [\<lparr>wr_done = 0, wr_stmt = InsertTransfer t\<rparr>] \<and> bw_answers s = [(0, None)] \<and>
     find_transfer (bw_db s) (t_id t) = None \<and> bw_step True s s' \<and> bw_pc s' = PLoop \<and>
     unanswered s' = [] \<and> find_transfer (bw_db s') (t_id t) = None"
proof -
  let ?d = "sample_db\<lparr>transfers := []\<rparr>"
  let ?r = "\<lparr>wr_done = 0, wr_stmt = InsertTransfer sample_transfer\<rparr>"
  let ?s0 = "bw_one ?d (InsertTransfer sample_transfer)"
  let ?s1 = "?s0\<lparr>bw_ch := make_chan writeChanCap, bw_batch := [?r], bw_pc := PLoop\<rparr>"
  let ?s2 = "?s1\<lparr>bw_pc := PBegin False\<rparr>"
  let ?s3 = "?s2\<lparr>bw_batch := [], bw_pc := PTx ?d [?r] False\<rparr>"
  let ?s4 = "?s3\<lparr>bw_pc := PTx sample_db [] False, bw_answers := [(0, None)]\<rparr>"
  note R = reach_step [of "\<lambda>s. s = newBatchWriter ?d" "bw_step True"]
  have 0: "reach (\<lambda>s. s = newBatchWriter ?d) (bw_step True) ?s0" by (rule bw_reach_one)
  have 1: "bw_step True ?s0 ?s1"
    by (rule recv)
      (simp_all add: bw_one_def newBatchWriter_def bw_recv_def try_recv_def make_chan_def drain_def batchMaxSize_def
        numeral_eq_Suc)
  have 2: "bw_step True ?s1 ?s2" by (rule tick) (simp_all add: bw_one_def newBatchWriter_def)
  have 3: "bw_step True ?s2 ?s3" using begin_ok [of ?s2 False True] by (simp add: bw_one_def newBatchWriter_def)
  have 4: "bw_step True ?s3 ?s4"
    using exec [of ?s3 ?d ?r "[]" False True None sample_db "(0, None)"]
    by (simp add: bw_one_def newBatchWriter_def tx_exec_def sample_db_def, simp add: sample_defs)
  have 5: "bw_step True ?s4 (?s4\<lparr>bw_pc := PLoop\<rparr>)"
    using commit_fail [of True ?s4 sample_db False] by (simp add: after_flush_def)
  have "reach (\<lambda>s. s = newBatchWriter ?d) (bw_step True) ?s4"
    by (rule R [OF R [OF R [OF R [OF 0 1] 2] 3] 4])
  with 5 show ?thesis
    by (intro exI [of _ ?s4] exI [of _ "?s4\<lparr>bw_pc := PLoop\<rparr>"] exI [of _ sample_transfer] exI [of _ ?d])
      (simp add: bw_one_def newBatchWriter_def unanswered_def make_chan_def find_transfer_def)
qed

end
