(* ===== verification/FG_Ingest.thy ===== *)
theory FG_Ingest
  imports FG_Webhook FG_Batch
begin

text \<open>
  Webhook requests at the same time. \<open>FG_Webhook\<close> takes a request as one step; here every request that passed the
  token check is a thread of its own that runs the loop of \<open>ServeHTTP\<close> (\<open>internal/webhook/handler.go\<close>) with its separate calls,
  and \<open>CreateTransfer\<close> and \<open>UpdateTransfer\<close> go through the batch writer of \<open>FG_Batch\<close>: a caller waits for its answer, which comes
  before the commit, while queries see the committed state only.

  Of the workers only what concerns the database is kept: a worker (or retry timer) that holds a job writes statuses for its
  transfer until the final one, with which it drops the job; \<open>FG_Transfer\<close> shows that the pool does that.

  The question is whether two requests for the same object can both create a transfer. The deduper is what keeps them
  apart, and it does so for its window only. \<open>prompt\<close> is the assumption that from the moment a request is marked in the deduper
  until its row is committed less than the window passes. \<open>faulty\<close> says whether the engine may fail: begin, a statement, the
  commit, or the query for active transfers, whose error the handler takes for no.
\<close>

section \<open>Threads\<close>

text \<open>
  Where a request is: at the head of the loop; marked in the deduper (with the time); told that no transfer is active;
  waiting for the answer of the batch writer; told that its row is written; about to broadcast; returned with a status.
\<close>

datatype run_pc =
    HNext "event_record list"
  | HMarked time event_record "event_record list"
  | HChecked time event_record "event_record list"
  | HSent rec_env event_record nat "event_record list"
  | HCreated rec_env event_record "event_record list"
  | HQueued rec_env event_record "event_record list"
  | HReturn int

record run =
  rn_app :: app
  rn_max_retries :: int
  rn_backoff :: int
  rn_pc :: run_pc

text \<open>
  \<open>ig_held\<close>: the jobs of workers and timers. \<open>ig_seen\<close> and \<open>ig_marks\<close> are history: how many of the requests to the batch
  writer are committed, and when the event behind a request was marked.
\<close>

record ingest =
  ig_clock :: time
  ig_dedup :: deduper
  ig_hub :: hub
  ig_queue :: "job list"
  ig_held :: "job list"
  ig_bw :: bw
  ig_runs :: "run list"
  ig_seen :: nat
  ig_marks :: "nat \<Rightarrow> time"

abbreviation run_key :: "run \<Rightarrow> event_record \<Rightarrow> string" where
  "run_key h rec \<equiv> dedup_key (rn_app h) (object_key rec)"

abbreviation run_job :: "run \<Rightarrow> rec_env \<Rightarrow> event_record \<Rightarrow> job" where
  "run_job h re rec \<equiv> record_job re (rn_app h) (rn_max_retries h) (rn_backoff h) rec"

section \<open>The time between a mark and its commit\<close>

text \<open>The keys on which something is open, each with the time of its mark: in a thread, or sent and not yet committed.\<close>

fun pc_open :: "app \<Rightarrow> run_pc \<Rightarrow> (string \<times> time) list" where
  "pc_open ap (HMarked t rec recs) = [(dedup_key ap (object_key rec), t)]"
| "pc_open ap (HChecked t rec recs) = [(dedup_key ap (object_key rec), t)]"
| "pc_open ap _ = []"

fun stmt_open :: "write_stmt \<Rightarrow> time \<Rightarrow> (string \<times> time) list" where
  "stmt_open (InsertTransfer t) m = [(t_app_id t @ '':'' @ t_object_key t, m)]"
| "stmt_open (UpdateTransferStmt t) m = []"

definition log_open :: "write_request list \<Rightarrow> nat \<Rightarrow> (nat \<Rightarrow> time) \<Rightarrow> (string \<times> time) list" where
  "log_open sent seen marks = concat (map (\<lambda>i. stmt_open (wr_stmt (sent ! i)) (marks i)) [seen..<length sent])"

definition runs_open :: "run list \<Rightarrow> (string \<times> time) list" where
  "runs_open hs = concat (map (\<lambda>h. pc_open (rn_app h) (rn_pc h)) hs)"

definition ig_open :: "ingest \<Rightarrow> (string \<times> time) list" where
  "ig_open s = runs_open (ig_runs s) @ log_open (bw_sent (ig_bw s)) (ig_seen s) (ig_marks s)"

definition may_tick :: "bool \<Rightarrow> time \<Rightarrow> ingest \<Rightarrow> bool" where
  "may_tick prompt now s \<longleftrightarrow>
     ig_clock s \<le> now \<and> (prompt \<longrightarrow> list_all (\<lambda>(k, m). now - m < dd_window (ig_dedup s)) (ig_open s))"

fun in_tx :: "bw_pc \<Rightarrow> bool" where
  "in_tx (PTx tx rs e) = True"
| "in_tx _ = False"

section \<open>Steps\<close>

inductive ig_step :: "bool \<Rightarrow> bool \<Rightarrow> ingest \<Rightarrow> ingest \<Rightarrow> bool" for prompt :: bool and faulty :: bool where
  arrive: "recs \<noteq> [] \<Longrightarrow>
    ig_step prompt faulty s (s\<lparr>ig_runs := ig_runs s @ [\<lparr>rn_app = ap, rn_max_retries = mr, rn_backoff = bo, rn_pc = HNext recs\<rparr>]\<rparr>)"
| duplicate: "ig_runs s = us @ h # vs \<Longrightarrow> rn_pc h = HNext (rec # recs) \<Longrightarrow>
    IsDuplicate (ig_clock s) now (run_key h rec) (ig_dedup s) = (True, d) \<Longrightarrow>
    ig_step prompt faulty s (s\<lparr>ig_dedup := d, ig_runs := us @ h\<lparr>rn_pc := HNext recs\<rparr> # vs\<rparr>)"
| mark: "ig_runs s = us @ h # vs \<Longrightarrow> rn_pc h = HNext (rec # recs) \<Longrightarrow> may_tick prompt now s \<Longrightarrow>
    IsDuplicate (ig_clock s) now (run_key h rec) (ig_dedup s) = (False, d) \<Longrightarrow>
    ig_step prompt faulty s (s\<lparr>ig_clock := now, ig_dedup := d, ig_runs := us @ h\<lparr>rn_pc := HMarked now rec recs\<rparr> # vs\<rparr>)"
| active: "ig_runs s = us @ h # vs \<Longrightarrow> rn_pc h = HMarked t rec recs \<Longrightarrow>
    HasActiveTransfer None (a_id (rn_app h)) (object_key rec) (bw_db (ig_bw s)) = Inr True \<Longrightarrow>
    ig_step prompt faulty s (s\<lparr>ig_runs := us @ h\<lparr>rn_pc := HNext recs\<rparr> # vs\<rparr>)"
| inactive: "ig_runs s = us @ h # vs \<Longrightarrow> rn_pc h = HMarked t rec recs \<Longrightarrow>
    HasActiveTransfer None (a_id (rn_app h)) (object_key rec) (bw_db (ig_bw s)) = Inr False \<Longrightarrow>
    ig_step prompt faulty s (s\<lparr>ig_runs := us @ h\<lparr>rn_pc := HChecked t rec recs\<rparr> # vs\<rparr>)"
| unknown: "faulty \<Longrightarrow> ig_runs s = us @ h # vs \<Longrightarrow> rn_pc h = HMarked t rec recs \<Longrightarrow>
    HasActiveTransfer (Some err) (a_id (rn_app h)) (object_key rec) (bw_db (ig_bw s)) = Inl e \<Longrightarrow>
    ig_step prompt faulty s (s\<lparr>ig_runs := us @ h\<lparr>rn_pc := HChecked t rec recs\<rparr> # vs\<rparr>)"
| create: "ig_runs s = us @ h # vs \<Longrightarrow> rn_pc h = HChecked t rec recs \<Longrightarrow>
    bw_send (InsertTransfer (pending_transfer re (rn_app h) (rn_max_retries h) rec)) (ig_bw s) = Some b \<Longrightarrow>
    ig_step prompt faulty s (s\<lparr>ig_bw := b, ig_marks := (ig_marks s)(length (bw_sent (ig_bw s)) := t),
                        ig_runs := us @ h\<lparr>rn_pc := HSent re rec (length (bw_sent (ig_bw s))) recs\<rparr> # vs\<rparr>)"
| created: "ig_runs s = us @ h # vs \<Longrightarrow> rn_pc h = HSent re rec i recs \<Longrightarrow> (i, None) \<in> set (bw_answers (ig_bw s)) \<Longrightarrow>
    ig_step prompt faulty s (s\<lparr>ig_runs := us @ h\<lparr>rn_pc := HCreated re rec recs\<rparr> # vs\<rparr>)"
| refused: "ig_runs s = us @ h # vs \<Longrightarrow> rn_pc h = HSent re rec i recs \<Longrightarrow> (i, Some err) \<in> set (bw_answers (ig_bw s)) \<Longrightarrow>
    ig_step prompt faulty s (s\<lparr>ig_runs := us @ h\<lparr>rn_pc := HReturn 500\<rparr> # vs\<rparr>)"
| enqueue: "ig_runs s = us @ h # vs \<Longrightarrow> rn_pc h = HCreated re rec recs \<Longrightarrow>
    ig_step prompt faulty s (s\<lparr>ig_queue := ig_queue s @ [run_job h re rec], ig_runs := us @ h\<lparr>rn_pc := HQueued re rec recs\<rparr> # vs\<rparr>)"
| notify: "ig_runs s = us @ h # vs \<Longrightarrow> rn_pc h = HQueued re rec recs \<Longrightarrow>
    (if length (ig_queue s) \<le> 1000
     then Broadcast (queued_msg re (rn_app h) rec (j_transfer (run_job h re rec))) (ig_hub s) else Inr (ig_hub s)) = Inr g \<Longrightarrow>
    ig_step prompt faulty s (s\<lparr>ig_hub := g, ig_runs := us @ h\<lparr>rn_pc := HNext recs\<rparr> # vs\<rparr>)"
| accepted: "ig_runs s = us @ h # vs \<Longrightarrow> rn_pc h = HNext [] \<Longrightarrow>
    ig_step prompt faulty s (s\<lparr>ig_runs := us @ h\<lparr>rn_pc := HReturn 202\<rparr> # vs\<rparr>)"
| take: "ig_queue s = j # q \<Longrightarrow> ig_step prompt faulty s (s\<lparr>ig_queue := q, ig_held := ig_held s @ [j]\<rparr>)"
| retry: "ig_held s = js @ j # ks \<Longrightarrow> jid j' = jid j \<Longrightarrow>
    ig_step prompt faulty s (s\<lparr>ig_queue := ig_queue s @ [j'], ig_held := js @ ks\<rparr>)"
| progress: "ig_held s = js @ j # ks \<Longrightarrow> t_id t = jid j \<Longrightarrow> t_status t \<in> {StatusInProgress, StatusRetrying} \<Longrightarrow>
    bw_send (UpdateTransferStmt t) (ig_bw s) = Some b \<Longrightarrow> ig_step prompt faulty s (s\<lparr>ig_bw := b\<rparr>)"
| finish: "ig_held s = js @ j # ks \<Longrightarrow> t_id t = jid j \<Longrightarrow> final_status (t_status t) \<Longrightarrow>
    bw_send (UpdateTransferStmt t) (ig_bw s) = Some b \<Longrightarrow> ig_step prompt faulty s (s\<lparr>ig_held := js @ ks, ig_bw := b\<rparr>)"
| writer: "bw_step faulty (ig_bw s) b \<Longrightarrow> bw_sent b = bw_sent (ig_bw s) \<Longrightarrow>
    ig_step prompt faulty s (s\<lparr>ig_bw := b, ig_seen := (if in_tx (bw_pc b) then ig_seen s else length (bw_answers b))\<rparr>)"
| tick: "may_tick prompt now s \<Longrightarrow> ig_step prompt faulty s (s\<lparr>ig_clock := now\<rparr>)"
| sweep: "ig_step prompt faulty s (s\<lparr>ig_dedup := dedup_cleanup (ig_clock s) (ig_dedup s)\<rparr>)"
| hub_moves: "hub_step (Inr (ig_hub s)) (Inr g) \<Longrightarrow> ig_step prompt faulty s (s\<lparr>ig_hub := g\<rparr>)"

text \<open>It begins with an empty deduper of a positive window and a database without two unfinished transfers of one object.\<close>

definition ig_init :: "db \<Rightarrow> ingest \<Rightarrow> bool" where
  "ig_init d0 s \<longleftrightarrow>
     db_ok d0 \<and> unique_active (find_transfer d0) \<and>
     (\<exists>now w. 0 < w \<and> in_int64 w \<and>
        s = \<lparr>ig_clock = now, ig_dedup = \<lparr>dd_entries = Map.empty, dd_window = w\<rparr>, ig_hub = NewHub, ig_queue = [], ig_held = [],
             ig_bw = newBatchWriter d0, ig_runs = [], ig_seen = 0, ig_marks = (\<lambda>_. 0)\<rparr>)"

section \<open>The log of statements\<close>

text \<open>The database after the statements of a log, and what may happen to a row later.\<close>

definition after :: "db \<Rightarrow> write_request list \<Rightarrow> db" where
  "after d rs = fst (serial rs d)"

definition persists :: "db \<Rightarrow> db \<Rightarrow> bool" where
  "persists d d' \<longleftrightarrow>
     (\<forall>i r. find_transfer d i = Some r \<longrightarrow>
        (\<exists>r'. find_transfer d' i = Some r' \<and> tr_app_id r' = tr_app_id r \<and> tr_object_key r' = tr_object_key r \<and>
           (active_status (tr_status r') \<longrightarrow> active_status (tr_status r))))"

definition log_ok :: "db \<Rightarrow> write_request list \<Rightarrow> bool" where
  "log_ok d rs \<longleftrightarrow>
     (\<forall>n. unique_active (find_transfer (after d (take n rs))) \<and> persists (after d (take n rs)) (after d rs))"

lemma serial_append:
  "serial (xs @ ys) d = (let (d1, as) = serial xs d; (d2, bs) = serial ys d1 in (d2, as @ bs))"
  by (induction xs arbitrary: d) (auto simp: serial_Cons simp del: serial.simps(2) split: prod.splits)

lemma serial_length: "length (snd (serial rs d)) = length rs"
proof (induction rs arbitrary: d)
  case (Cons r rs)
  from Cons [of "fst (tx_exec None r d)"] show ?case by (simp add: serial_Cons split_beta Let_def del: serial.simps(2))
qed simp

lemma serial_answers: "snd (serial (xs @ ys) d) = snd (serial xs d) @ snd (serial ys (after d xs))"
  by (simp add: serial_append after_def split: prod.splits)

lemma after_Nil [simp]: "after d [] = d"
  by (simp add: after_def)

lemma after_snoc:
  "after d (rs @ [r]) = (case exec_stmt (wr_stmt r) (after d rs) of Inl _ \<Rightarrow> after d rs | Inr d' \<Rightarrow> d')"
  by (simp add: after_def serial_append split: prod.splits sum.splits)

lemma answer_snoc:
  "snd (serial (rs @ [r]) d) ! length rs =
     (wr_done r, case exec_stmt (wr_stmt r) (after d rs) of Inl e \<Rightarrow> Some e | Inr _ \<Rightarrow> None)"
  using serial_length [of rs d] by (simp add: serial_answers nth_append split: sum.splits)

lemma after_ok: "db_ok d \<Longrightarrow> db_ok (after d rs)"
  by (induction rs rule: rev_induct) (auto simp: after_snoc simp del: exec_stmt.simps intro: exec_stmt_ok split: sum.splits)

lemma persists_refl: "persists d d"
  by (simp add: persists_def)

lemma persists_trans: "persists a b \<Longrightarrow> persists b c \<Longrightarrow> persists a c"
  unfolding persists_def by metis

lemma log_ok_snoc:
  assumes "log_ok d rs" "unique_active (find_transfer (after d (rs @ [r])))" "persists (after d rs) (after d (rs @ [r]))"
  shows "log_ok d (rs @ [r])"
  unfolding log_ok_def
proof (intro allI)
  fix n
  show "unique_active (find_transfer (after d (take n (rs @ [r])))) \<and> persists (after d (take n (rs @ [r]))) (after d (rs @ [r]))"
  proof (cases "n \<le> length rs")
    case True
    with assms show ?thesis using persists_trans by (auto simp: log_ok_def)
  next
    case False
    with assms(2) show ?thesis by (simp add: persists_refl)
  qed
qed

lemma log_ok_seen: "log_ok d rs \<Longrightarrow> persists (after d (take n rs)) (after d rs)"
  by (simp add: log_ok_def)

text \<open>A row that is not there before some statements was inserted by one of them.\<close>

lemma new_row:
  "find_transfer (after d (xs @ ys)) i = Some r \<Longrightarrow> find_transfer (after d xs) i = None \<Longrightarrow>
   \<exists>q t. q \<in> set ys \<and> wr_stmt q = InsertTransfer t \<and> t_app_id t = tr_app_id r \<and> t_object_key t = tr_object_key r"
proof (induction ys arbitrary: r rule: rev_induct)
  case (snoc y ys)
  let ?d = "after d (xs @ ys)"
  show ?case
  proof (cases "wr_stmt y")
    case (InsertTransfer t)
    show ?thesis
    proof (cases "exec_stmt (wr_stmt y) ?d")
      case (Inr d')
      with InsertTransfer have "CreateTransfer None t ?d = Inr d'" by (simp add: CreateTransfer_def)
      from CreateTransfer_find [OF this] snoc Inr InsertTransfer show ?thesis
        using after_snoc [of d "xs @ ys" y] by (cases "i = t_id t") (auto simp: transfer_to_row_def)
    qed (use snoc after_snoc [of d "xs @ ys" y] in auto)
  next
    case (UpdateTransferStmt t)
    then obtain d' where d': "UpdateTransfer None t ?d = Inr d'" "after d (xs @ ys @ [y]) = d'"
      using after_snoc [of d "xs @ ys" y] by (simp add: UpdateTransfer_def)
    from UpdateTransfer_find [OF d'(1)] d'(2) snoc.prems(1) obtain r0 where "find_transfer ?d i = Some r0"
      "tr_app_id r0 = tr_app_id r" "tr_object_key r0 = tr_object_key r"
      by (cases "i = t_id t") (auto simp: update_transfer_row_def)
    with snoc.IH [of r0] snoc.prems(2) show ?thesis by fastforce
  qed
qed simp

text \<open>What the two kinds of statements do to the last state of the log.\<close>

lemma insert_log:
  assumes ok: "db_ok d" "log_ok d rs" and r: "wr_stmt r = InsertTransfer t"
    and free: "\<not> has_active (after d rs) (t_app_id t) (t_object_key t)"
  shows "log_ok d (rs @ [r])"
proof (cases "exec_stmt (wr_stmt r) (after d rs)")
  case (Inl e)
  then have "after d (rs @ [r]) = after d rs" by (simp add: after_snoc)
  with ok(2) show ?thesis by (intro log_ok_snoc [OF ok(2)]) (simp_all add: persists_refl log_ok_def, metis take_all_iff order_refl)
next
  case (Inr d')
  then have d': "after d (rs @ [r]) = d'" "CreateTransfer None t (after d rs) = Inr d'"
    using r by (simp_all add: after_snoc CreateTransfer_def)
  have u: "unique_active (find_transfer (after d rs))" using ok(2) unfolding log_ok_def by (metis take_all_iff order_refl)
  from tstore.create_unique [OF after_ok [OF ok(1)] d'(2) u free] d'(1)
  have "unique_active (find_transfer (after d (rs @ [r])))" by simp
  moreover have "persists (after d rs) (after d (rs @ [r]))"
    using CreateTransfer_find [OF d'(2)] d'(1) by (auto simp: persists_def)
  ultimately show ?thesis by (rule log_ok_snoc [OF ok(2)])
qed

lemma update_log:
  assumes ok: "db_ok d" "log_ok d rs" and r: "wr_stmt r = UpdateTransferStmt t"
    and row: "find_transfer (after d rs) (t_id t) = Some x" "active_status (tr_status x)"
  shows "log_ok d (rs @ [r]) \<and> find_transfer (after d (rs @ [r])) = (find_transfer (after d rs))(t_id t \<mapsto> update_transfer_row t x)"
proof -
  obtain d' where d': "UpdateTransfer None t (after d rs) = Inr d'" "after d (rs @ [r]) = d'"
    using r by (simp add: after_snoc UpdateTransfer_def)
  have u: "unique_active (find_transfer (after d rs))" using ok(2) unfolding log_ok_def by (metis take_all_iff order_refl)
  from UpdateTransfer_find [OF d'(1)] d'(2) row(1)
  have f: "find_transfer (after d (rs @ [r])) = (find_transfer (after d rs))(t_id t \<mapsto> update_transfer_row t x)" by simp
  have "unique_active (find_transfer (after d (rs @ [r])))"
    using tstore.update_unique [OF after_ok [OF ok(1)] d'(1) u] row d'(2) by simp
  moreover have "persists (after d rs) (after d (rs @ [r]))"
    using row by (auto simp: persists_def f update_transfer_row_def)
  ultimately show ?thesis using log_ok_snoc [OF ok(2)] f by blast
qed

section \<open>The invariant\<close>

text \<open>The jobs with a row: of threads whose insert succeeds, of the queue, of workers and timers.\<close>

fun pc_jobs :: "answer list \<Rightarrow> run \<Rightarrow> run_pc \<Rightarrow> job list" where
  "pc_jobs as h (HSent re rec i recs) = (if snd (as ! i) = None then [run_job h re rec] else [])"
| "pc_jobs as h (HCreated re rec recs) = [run_job h re rec]"
| "pc_jobs as h _ = []"

definition ig_jobs :: "answer list \<Rightarrow> ingest \<Rightarrow> job list" where
  "ig_jobs as s = concat (map (\<lambda>h. pc_jobs as h (rn_pc h)) (ig_runs s)) @ ig_queue s @ ig_held s"

fun pc_ok :: "db \<Rightarrow> nat \<Rightarrow> app \<Rightarrow> run_pc \<Rightarrow> bool" where
  "pc_ok d n ap (HChecked t rec recs) \<longleftrightarrow> \<not> has_active d (a_id ap) (object_key rec)"
| "pc_ok d n ap (HSent re rec i recs) \<longleftrightarrow> i < n"
| "pc_ok d n ap _ \<longleftrightarrow> True"

text \<open>The batch writer below: what it holds is the log, and the first \<open>ig_seen\<close> statements are committed.\<close>

definition log_inv :: "db \<Rightarrow> ingest \<Rightarrow> bool" where
  "log_inv d0 s \<longleftrightarrow>
     bw_inv (ig_bw s) \<and> bw_serial d0 (ig_bw s) \<and> log_ok d0 (bw_sent (ig_bw s)) \<and>
     ig_seen s \<le> length (bw_answers (ig_bw s)) \<and> bw_db (ig_bw s) = after d0 (take (ig_seen s) (bw_sent (ig_bw s))) \<and>
     (\<not> in_tx (bw_pc (ig_bw s)) \<longrightarrow> ig_seen s = length (bw_answers (ig_bw s)))"

text \<open>Nothing is open twice, nothing is open for as long as the window, and the deduper knows what is open.\<close>

definition open_inv :: "ingest \<Rightarrow> bool" where
  "open_inv s \<longleftrightarrow>
     distinct (map fst (ig_open s)) \<and>
     (\<forall>(k, m) \<in> set (ig_open s). ig_clock s - m < dd_window (ig_dedup s) \<and> (\<exists>t. dd_entries (ig_dedup s) k = Some t \<and> m \<le> t)) \<and>
     0 < dd_window (ig_dedup s) \<and> in_int64 (dd_window (ig_dedup s))"

definition jobs_inv :: "db \<Rightarrow> ingest \<Rightarrow> bool" where
  "jobs_inv d0 s \<longleftrightarrow>
     (let sent = bw_sent (ig_bw s); d = after d0 sent; ids = map jid (ig_jobs (snd (serial sent d0)) s) in
      (\<forall>h \<in> set (ig_runs s). pc_ok d (length sent) (rn_app h) (rn_pc h)) \<and>
      distinct ids \<and> (\<forall>i \<in> set ids. \<exists>r. find_transfer d i = Some r \<and> active_status (tr_status r)))"

definition ig_inv :: "db \<Rightarrow> ingest \<Rightarrow> bool" where
  "ig_inv d0 s \<longleftrightarrow> db_ok d0 \<and> hub_ok (ig_hub s) \<and> log_inv d0 s \<and> open_inv s \<and> jobs_inv d0 s"

lemma ig_inv_init: "ig_init d0 s \<Longrightarrow> ig_inv d0 s"
  by (auto simp: ig_init_def ig_inv_def log_inv_def open_inv_def jobs_inv_def ig_jobs_def ig_open_def runs_open_def log_open_def
      bw_inv_init bw_serial_init log_ok_def persists_refl hub_ok_NewHub)
    (simp_all add: newBatchWriter_def log_ok_def persists_refl)

lemma runs_open_split [simp]: "runs_open (us @ h # vs) = runs_open us @ pc_open (rn_app h) (rn_pc h) @ runs_open vs"
  by (simp add: runs_open_def)

lemma jobs_invI:
  assumes "\<forall>h \<in> set (ig_runs s). pc_ok (after d0 (bw_sent (ig_bw s))) (length (bw_sent (ig_bw s))) (rn_app h) (rn_pc h)"
    and ids: "mset (map jid (ig_jobs (snd (serial (bw_sent (ig_bw s)) d0)) s)) = mset ids" and "distinct ids"
    and "\<forall>i \<in> set ids. \<exists>x. find_transfer (after d0 (bw_sent (ig_bw s))) i = Some x \<and> active_status (tr_status x)"
  shows "jobs_inv d0 s"
  using assms(1,3,4) mset_eq_imp_distinct_iff [OF ids] mset_eq_setD [OF ids] unfolding jobs_inv_def Let_def by metis

lemma jobs_inv_rows:
  assumes "jobs_inv d0 s"
  shows "\<forall>h \<in> set (ig_runs s). pc_ok (after d0 (bw_sent (ig_bw s))) (length (bw_sent (ig_bw s))) (rn_app h) (rn_pc h)"
    and "distinct (map jid (ig_jobs (snd (serial (bw_sent (ig_bw s)) d0)) s))"
    and "\<forall>i \<in> set (map jid (ig_jobs (snd (serial (bw_sent (ig_bw s)) d0)) s)).
      \<exists>x. find_transfer (after d0 (bw_sent (ig_bw s))) i = Some x \<and> active_status (tr_status x)"
  using assms unfolding jobs_inv_def Let_def by blast+

lemma jobs_inv_perm:
  assumes "jobs_inv d0 s" "ig_bw s' = ig_bw s"
    and "\<forall>h \<in> set (ig_runs s'). pc_ok (after d0 (bw_sent (ig_bw s))) (length (bw_sent (ig_bw s))) (rn_app h) (rn_pc h)"
    and "mset (map jid (ig_jobs (snd (serial (bw_sent (ig_bw s)) d0)) s')) =
         mset (map jid (ig_jobs (snd (serial (bw_sent (ig_bw s)) d0)) s))"
  shows "jobs_inv d0 s'"
  using assms(3,4) jobs_inv_rows(2,3) [OF assms(1)] unfolding assms(2) [symmetric] by (rule jobs_invI)

lemma log_inv_same:
  "log_inv d0 s \<Longrightarrow> ig_bw s' = ig_bw s \<Longrightarrow> ig_seen s' = ig_seen s \<Longrightarrow> log_inv d0 s'"
  by (simp add: log_inv_def)

text \<open>The answer a caller gets is the one the serial execution gives.\<close>

lemma answer_serial:
  assumes "log_inv d0 s" "(i, a) \<in> set (bw_answers (ig_bw s))"
  shows "snd (snd (serial (bw_sent (ig_bw s)) d0) ! i) = a"
proof -
  let ?b = "ig_bw s"
  from assms(1) have inv: "bw_inv ?b" "bw_serial d0 ?b" by (simp_all add: log_inv_def)
  from inv(2) obtain dn where dn: "bw_sent ?b = dn @ unanswered ?b" "serial dn d0 = (bw_view (bw_pc ?b) (bw_db ?b), bw_answers ?b)"
    by (auto simp: bw_serial_def)
  from assms(2) obtain n where n: "n < length (bw_answers ?b)" "bw_answers ?b ! n = (i, a)" by (auto simp: in_set_conv_nth)
  from inv(1) have "map fst (bw_answers ?b) @ map wr_done (unanswered ?b) = [0..<length (bw_sent ?b)]" by (simp add: bw_inv_def)
  then have "(map fst (bw_answers ?b) @ map wr_done (unanswered ?b)) ! n = [0..<length (bw_sent ?b)] ! n" by simp
  moreover have "length (bw_answers ?b) = length dn" using serial_length [of dn d0] dn(2) by simp
  ultimately have "i = n" using n dn(1) by (simp add: nth_append)
  with n dn serial_answers [of dn "unanswered ?b" d0] show ?thesis by (simp add: nth_append)
qed

text \<open>What is open in the log, by position.\<close>

lemma log_open_snoc:
  "seen \<le> length sent \<Longrightarrow>
   log_open (sent @ [r]) seen marks = log_open sent seen marks @ stmt_open (wr_stmt r) (marks (length sent))"
  by (auto simp: log_open_def nth_append intro!: arg_cong [where f = concat])

lemma log_open_marks: "log_open sent seen (marks(length sent := t)) = log_open sent seen marks"
  by (auto simp: log_open_def intro!: arg_cong [where f = concat])

lemma log_open_later:
  assumes "seen \<le> seen'" "seen' \<le> length sent"
  shows "\<exists>xs. log_open sent seen marks = xs @ log_open sent seen' marks"
proof -
  from assms have "[seen..<length sent] = [seen..<seen'] @ [seen'..<length sent]"
    using upt_add_eq_append [of seen seen' "length sent - seen'"] by simp
  then show ?thesis by (simp add: log_open_def)
qed

lemma log_open_insert:
  assumes "q \<in> set (drop seen sent)" "wr_stmt q = InsertTransfer t"
  shows "t_app_id t @ '':'' @ t_object_key t \<in> fst ` set (log_open sent seen marks)"
proof -
  from assms(1) obtain n where n: "n < length sent - seen" "sent ! (seen + n) = q" by (auto simp: in_set_conv_nth)
  then have "seen + n \<in> set [seen..<length sent]" by auto
  moreover have "t_app_id t @ '':'' @ t_object_key t \<in> fst ` set (stmt_open (wr_stmt (sent ! (seen + n))) (marks (seen + n)))"
    using n(2) assms(2) by simp
  ultimately show ?thesis unfolding log_open_def set_concat set_map by blast
qed

text \<open>Of an object that is open elsewhere nothing is uncommitted, so the query tells the truth about the log.\<close>

lemma checked_free:
  assumes inv: "ig_inv d0 s" and run: "ig_runs s = us @ h # vs" "rn_pc h = HMarked t rec recs"
    and q: "\<not> has_active (bw_db (ig_bw s)) (a_id (rn_app h)) (object_key rec)"
  shows "\<not> has_active (after d0 (bw_sent (ig_bw s))) (a_id (rn_app h)) (object_key rec)"
proof
  let ?sent = "bw_sent (ig_bw s)" and ?seen = "ig_seen s"
  let ?d = "after d0 ?sent" and ?c = "after d0 (take ?seen ?sent)"
  from inv have ok: "db_ok d0" "log_inv d0 s" "open_inv s" by (simp_all add: ig_inv_def)
  assume "has_active ?d (a_id (rn_app h)) (object_key rec)"
  then obtain i r where r: "find_transfer ?d i = Some r" "tr_app_id r = a_id (rn_app h)" "tr_object_key r = object_key rec"
    "active_status (tr_status r)" by (auto simp: has_active_iff [OF after_ok [OF ok(1)]])
  show False
  proof (cases "find_transfer ?c i")
    case None
    with r(1) new_row [of d0 "take ?seen ?sent" "drop ?seen ?sent" i r] obtain q t' where
      "q \<in> set (drop ?seen ?sent)" "wr_stmt q = InsertTransfer t'" "t_app_id t' = tr_app_id r" "t_object_key t' = tr_object_key r" by auto
    with log_open_insert [of q ?seen ?sent t' "ig_marks s"] r(2,3) have "run_key h rec \<in> fst ` set (log_open ?sent ?seen (ig_marks s))"
      by (simp add: dedup_key_def)
    with ok(3) run show False by (auto simp: open_inv_def ig_open_def)
  next
    case (Some r0)
    with ok(2) log_ok_seen [of d0 ?sent ?seen] r have "tr_app_id r0 = tr_app_id r" "tr_object_key r0 = tr_object_key r"
      "active_status (tr_status r0)" by (fastforce simp: persists_def log_inv_def)+
    with Some r q ok(2) show False by (auto simp: log_inv_def has_active_iff [OF after_ok [OF ok(1)]])
  qed
qed

section \<open>Every step keeps the invariant\<close>

lemma open_inv_sub:
  "open_inv s \<Longrightarrow> ig_clock s' = ig_clock s \<Longrightarrow> ig_dedup s' = ig_dedup s \<Longrightarrow> distinct (map fst (ig_open s')) \<Longrightarrow>
   set (ig_open s') \<subseteq> set (ig_open s) \<Longrightarrow> open_inv s'"
  unfolding open_inv_def by (simp only: subset_iff) blast

text \<open>A step of one thread that neither marks nor writes.\<close>

lemma thread_inv:
  assumes inv: "ig_inv d0 s" and run: "ig_runs s = us @ h # vs"
    and op: "pc_open (rn_app h) p = [] \<or> pc_open (rn_app h) p = pc_open (rn_app h) (rn_pc h)"
    and pc: "pc_ok (after d0 (bw_sent (ig_bw s))) (length (bw_sent (ig_bw s))) (rn_app h) p" and hub: "hub_ok g"
    and jobs: "mset (map jid (pc_jobs (snd (serial (bw_sent (ig_bw s)) d0)) h p @ q)) =
       mset (map jid (pc_jobs (snd (serial (bw_sent (ig_bw s)) d0)) h (rn_pc h) @ ig_queue s))"
  shows "ig_inv d0 (s\<lparr>ig_hub := g, ig_queue := q, ig_runs := us @ h\<lparr>rn_pc := p\<rparr> # vs\<rparr>)" (is "ig_inv d0 ?s")
proof -
  have same: "pc_jobs as (h\<lparr>rn_pc := p\<rparr>) p' = pc_jobs as h p'" for as p' by (cases p') simp_all
  from inv have o: "open_inv s" "jobs_inv d0 s" "log_inv d0 s" "db_ok d0" by (simp_all add: ig_inv_def)
  have "distinct (map fst (ig_open ?s)) \<and> set (ig_open ?s) \<subseteq> set (ig_open s)"
    using op
  proof
    assume "pc_open (rn_app h) p = []"
    with o(1) show ?thesis by (auto simp: open_inv_def ig_open_def run)
  next
    assume "pc_open (rn_app h) p = pc_open (rn_app h) (rn_pc h)"
    then have "ig_open ?s = ig_open s" by (simp add: ig_open_def run)
    with o(1) show ?thesis by (simp add: open_inv_def)
  qed
  then have "open_inv ?s" by (intro open_inv_sub [OF o(1)]) simp_all
  moreover have "jobs_inv d0 ?s"
    using o(2) pc jobs by (intro jobs_inv_perm [OF o(2)]) (auto simp: ig_jobs_def jobs_inv_def run same Let_def)
  ultimately show ?thesis using hub log_inv_same [OF o(3), of ?s] o(4) by (simp add: ig_inv_def)
qed

text \<open>While a key is open the deduper takes every event for it as a duplicate.\<close>

lemma open_duplicate:
  assumes "open_inv s" "k \<in> fst ` set (ig_open s)"
  shows "fst (IsDuplicate (ig_clock s) now k (ig_dedup s))"
proof -
  from assms obtain m t where m: "(k, m) \<in> set (ig_open s)" "ig_clock s - m < dd_window (ig_dedup s)"
    "dd_entries (ig_dedup s) k = Some t" "m \<le> t" by (fastforce simp: open_inv_def)
  from assms(1) have w: "in_int64 (dd_window (ig_dedup s))" "min_int64 < dd_window (ig_dedup s)"
    by (auto simp: open_inv_def min_int64_def)
  from m have "time_sub (ig_clock s) t < dd_window (ig_dedup s)" by (simp add: time_sub_less_iff [OF w])
  with m(3) show ?thesis by (simp add: IsDuplicate_def)
qed

lemma may_tick_open: "may_tick True now s \<Longrightarrow> (k, m) \<in> set (ig_open s) \<Longrightarrow> now - m < dd_window (ig_dedup s)"
  by (auto simp: may_tick_def list_all_iff)

lemma mark_inv:
  assumes inv: "ig_inv d0 s" and run: "ig_runs s = us @ h # vs" "rn_pc h = HNext (rec # recs)"
    and tick: "may_tick True now s" and dup: "IsDuplicate (ig_clock s) now (run_key h rec) (ig_dedup s) = (False, d)"
  shows "ig_inv d0 (s\<lparr>ig_clock := now, ig_dedup := d, ig_runs := us @ h\<lparr>rn_pc := HMarked now rec recs\<rparr> # vs\<rparr>)" (is "ig_inv d0 ?s")
proof -
  let ?k = "run_key h rec"
  from inv have o: "open_inv s" "jobs_inv d0 s" "log_inv d0 s" by (simp_all add: ig_inv_def)
  have new: "?k \<notin> fst ` set (ig_open s)" using open_duplicate [OF o(1), of ?k now] dup by auto
  from dup have d: "d = (ig_dedup s)\<lparr>dd_entries := (dd_entries (ig_dedup s))(?k \<mapsto> now)\<rparr>"
    by (auto simp: IsDuplicate_live split: if_splits)
  have "mset (ig_open ?s) = add_mset (?k, now) (mset (ig_open s))" by (simp add: ig_open_def run)
  then have ids: "mset (map fst (ig_open ?s)) = mset (?k # map fst (ig_open s))" and set: "set (ig_open ?s) = insert (?k, now) (set (ig_open s))"
    by (simp, metis set_mset_add_mset_insert set_mset_mset)
  have "distinct (map fst (ig_open ?s))"
    using mset_eq_imp_distinct_iff [OF ids] new o(1) by (simp add: open_inv_def)
  moreover have "now - m < dd_window d \<and> (\<exists>t. dd_entries d k = Some t \<and> m \<le> t)" if "(k, m) \<in> set (ig_open ?s)" for k m
  proof (cases "(k, m) \<in> set (ig_open s)")
    case True
    with new have "k \<noteq> ?k" by force
    moreover from True o(1) have "\<exists>t. dd_entries (ig_dedup s) k = Some t \<and> m \<le> t" by (auto simp: open_inv_def)
    ultimately show ?thesis using may_tick_open [OF tick True] by (simp add: d)
  next
    case False
    with that set o(1) show ?thesis by (auto simp: d open_inv_def)
  qed
  ultimately have "open_inv ?s" using o(1) by (auto simp: open_inv_def d)
  moreover have "jobs_inv d0 ?s" using o(2) by (intro jobs_inv_perm [OF o(2)]) (auto simp: ig_jobs_def jobs_inv_def run Let_def)
  ultimately show ?thesis using inv log_inv_same [OF o(3), of ?s] by (simp add: ig_inv_def)
qed

lemma sweep_inv:
  assumes inv: "ig_inv d0 s"
  shows "ig_inv d0 (s\<lparr>ig_dedup := dedup_cleanup (ig_clock s) (ig_dedup s)\<rparr>)" (is "ig_inv d0 ?s")
proof -
  from inv have o: "open_inv s" "jobs_inv d0 s" "log_inv d0 s" by (simp_all add: ig_inv_def)
  have op: "ig_open ?s = ig_open s" by (simp add: ig_open_def)
  have "dd_entries (dedup_cleanup (ig_clock s) (ig_dedup s)) k = dd_entries (ig_dedup s) k" if "(k, m) \<in> set (ig_open s)" for k m
  proof -
    have "fst (IsDuplicate (ig_clock s) 0 k (ig_dedup s))" using that by (intro open_duplicate [OF o(1)]) force
    then show ?thesis by (auto simp: IsDuplicate_def dedup_cleanup_def split: option.splits if_splits)
  qed
  then have "(\<exists>t. dd_entries (dedup_cleanup (ig_clock s) (ig_dedup s)) k = Some t \<and> m \<le> t)" if "(k, m) \<in> set (ig_open s)" for k m
    using that o(1) by (fastforce simp: open_inv_def)
  moreover have "dd_window (dedup_cleanup (ig_clock s) (ig_dedup s)) = dd_window (ig_dedup s)" by (simp add: dedup_cleanup_def)
  ultimately have "open_inv ?s" using o(1) unfolding open_inv_def op by auto
  moreover have "jobs_inv d0 ?s" using o(2) by (simp add: jobs_inv_def ig_jobs_def)
  ultimately show ?thesis using inv log_inv_same [OF o(3), of ?s] by (simp add: ig_inv_def)
qed

text \<open>A statement sent to the batch writer becomes the last of the log.\<close>

lemma answers_le: "log_inv d0 s \<Longrightarrow> length (bw_answers (ig_bw s)) \<le> length (bw_sent (ig_bw s))"
proof -
  assume "log_inv d0 s"
  then have "map fst (bw_answers (ig_bw s)) @ map wr_done (unanswered (ig_bw s)) = [0..<length (bw_sent (ig_bw s))]"
    by (simp add: log_inv_def bw_inv_def)
  from arg_cong [where f = length, OF this] show ?thesis by simp
qed

lemma seen_le: "log_inv d0 s \<Longrightarrow> ig_seen s \<le> length (bw_sent (ig_bw s))"
  using answers_le [of d0 s] by (simp add: log_inv_def)

lemma send_log_inv:
  assumes inv: "log_inv d0 s" and snd: "bw_send st (ig_bw s) = Some b" and s': "ig_bw s' = b" "ig_seen s' = ig_seen s"
    and ok: "log_ok d0 (bw_sent (ig_bw s) @ [\<lparr>wr_done = length (bw_sent (ig_bw s)), wr_stmt = st\<rparr>])"
  shows "log_inv d0 s'"
proof -
  from inv have i: "bw_inv (ig_bw s)" "bw_serial d0 (ig_bw s)" by (simp_all add: log_inv_def)
  have step: "bw_step False (ig_bw s) b" using snd by (rule bw_step.send)
  from bw_inv_step [OF step i(1)] bw_serial_step [OF step conjI [OF i]] have "bw_inv b" "bw_serial d0 b" by simp_all
  with inv ok snd s' seen_le [OF inv] show ?thesis by (auto simp: log_inv_def bw_send_Some)
qed

lemma pc_jobs_grow: "pc_ok d (length as) ap p \<Longrightarrow> pc_jobs (as @ [a]) h p = pc_jobs as h p"
  by (cases p) (simp_all add: nth_append)

lemma runs_jobs_grow:
  "\<forall>g \<in> set gs. pc_ok d (length as) (rn_app g) (rn_pc g) \<Longrightarrow>
   concat (map (\<lambda>g. pc_jobs (as @ [a]) g (rn_pc g)) gs) = concat (map (\<lambda>g. pc_jobs as g (rn_pc g)) gs)"
  by (induction gs) (auto dest: pc_jobs_grow)

lemma insert_cases:
  assumes "wr_stmt r = InsertTransfer t"
  obtains (refused) e where "after d (rs @ [r]) = after d rs" "snd (serial (rs @ [r]) d) = snd (serial rs d) @ [(wr_done r, Some e)]"
  | (inserted) "find_transfer (after d rs) (t_id t) = None"
      "find_transfer (after d (rs @ [r])) = (find_transfer (after d rs))(t_id t \<mapsto> transfer_to_row t)"
      "snd (serial (rs @ [r]) d) = snd (serial rs d) @ [(wr_done r, None)]"
proof (cases "exec_stmt (wr_stmt r) (after d rs)")
  case (Inl e)
  then show ?thesis by (intro refused [of e]) (simp_all add: after_snoc serial_answers)
next
  case (Inr d')
  with assms have "CreateTransfer None t (after d rs) = Inr d'" by (simp add: CreateTransfer_def)
  from CreateTransfer_find [OF this] Inr show ?thesis by (intro inserted) (simp_all add: after_snoc serial_answers)
qed

lemma key_free:
  assumes "db_ok d" "db_ok d'" "find_transfer d' = (find_transfer d)(i \<mapsto> r)" "(tr_app_id r, tr_object_key r) \<noteq> (a, k)"
    and "\<not> has_active d a k"
  shows "\<not> has_active d' a k"
  using assms(3-5) unfolding has_active_iff [OF assms(1)] has_active_iff [OF assms(2)] by (auto split: if_splits)

lemma create_jobs:
  assumes inv: "ig_inv d0 s" and run: "ig_runs s = us @ h # vs" "rn_pc h = HChecked t rec recs"
    and snd: "bw_send (InsertTransfer (pending_transfer re (rn_app h) (rn_max_retries h) rec)) (ig_bw s) = Some b"
  shows "jobs_inv d0 (s\<lparr>ig_bw := b, ig_marks := marks,
      ig_runs := us @ h\<lparr>rn_pc := HSent re rec (length (bw_sent (ig_bw s))) recs\<rparr> # vs\<rparr>)" (is "jobs_inv d0 ?s")
proof -
  let ?sent = "bw_sent (ig_bw s)" and ?t = "pending_transfer re (rn_app h) (rn_max_retries h) rec"
  let ?r = "\<lparr>wr_done = length ?sent, wr_stmt = InsertTransfer ?t\<rparr>"
  let ?d = "after d0 ?sent" and ?d' = "after d0 (?sent @ [?r])" and ?as = "snd (serial ?sent d0)"
  from inv have o: "open_inv s" "jobs_inv d0 s" "db_ok d0" by (simp_all add: ig_inv_def)
  have b: "bw_sent b = ?sent @ [?r]" using snd by (simp add: bw_send_Some)
  have len: "length ?as = length ?sent" by (rule serial_length)
  have others: "pc_ok ?d (length ?as) (rn_app g) (rn_pc g)" if "g \<in> set us \<union> set vs" for g
    using o(2) that len by (auto simp: jobs_inv_def Let_def run)
  have free: "(a_id (rn_app h), object_key rec) \<noteq> (a_id (rn_app g), object_key rec')"
    if "g \<in> set us \<union> set vs" "rn_pc g = HChecked t' rec' recs'" for g t' rec' recs'
  proof -
    have "run_key g rec' \<in> fst ` set (runs_open us @ runs_open vs)" using that by (force simp: runs_open_def)
    moreover have "run_key h rec \<notin> fst ` set (runs_open us @ runs_open vs)"
      using o(1) run by (simp add: open_inv_def ig_open_def image_Un)
    ultimately have "run_key h rec \<noteq> run_key g rec'" by metis
    then show ?thesis by (auto simp: dedup_key_def)
  qed
  have same: "pc_jobs as (h\<lparr>rn_pc := p\<rparr>) p' = pc_jobs as h p'" for as p p' by (cases p') simp_all
  have ids: "map jid (ig_jobs (?as @ [a]) ?s) =
      map jid (concat (map (\<lambda>g. pc_jobs ?as g (rn_pc g)) us) @ (if snd a = None then [run_job h re rec] else []) @
        concat (map (\<lambda>g. pc_jobs ?as g (rn_pc g)) vs) @ ig_queue s @ ig_held s)" for a
    using runs_jobs_grow [of us ?d ?as a] runs_jobs_grow [of vs ?d ?as a] others len by (simp add: ig_jobs_def same nth_append)
  have old: "map jid (ig_jobs ?as s) =
      map jid (concat (map (\<lambda>g. pc_jobs ?as g (rn_pc g)) us) @ concat (map (\<lambda>g. pc_jobs ?as g (rn_pc g)) vs) @ ig_queue s @ ig_held s)"
    by (simp add: ig_jobs_def run)
  note rows = jobs_inv_rows(2,3) [OF o(2)]
  have "wr_stmt ?r = InsertTransfer ?t" by simp
  then show ?thesis
  proof (cases rule: insert_cases [where d = d0 and rs = ?sent, consumes 1, case_names refused inserted])
    case (refused e)
    have "pc_ok ?d (Suc (length ?sent)) (rn_app g) (rn_pc g)" if "g \<in> set us \<union> set vs" for g
      using others [OF that] len by (cases "rn_pc g") auto
    moreover have "map jid (ig_jobs (?as @ [(wr_done ?r, Some e)]) ?s) = map jid (ig_jobs ?as s)" unfolding ids old by simp
    ultimately show ?thesis using rows by (intro jobs_invI [of _ _ "map jid (ig_jobs ?as s)"]) (auto simp: b refused)
  next
    case inserted
    have "pc_ok ?d' (Suc (length ?sent)) (rn_app g) (rn_pc g)" if g: "g \<in> set us \<union> set vs" for g
    proof (cases "rn_pc g")
      case (HChecked t' rec' recs')
      with others [OF g] free [OF g HChecked] key_free [OF after_ok after_ok inserted(2), OF o(3) o(3), of "a_id (rn_app g)" "object_key rec'"]
      show ?thesis by (simp add: transfer_to_row_def pending_transfer_def)
    qed (use others [OF g] len in auto)
    moreover have "mset (map jid (ig_jobs (?as @ [(wr_done ?r, None)]) ?s)) = mset (t_id ?t # map jid (ig_jobs ?as s))"
      unfolding ids old by (simp add: record_job_def)
    moreover have "distinct (t_id ?t # map jid (ig_jobs ?as s))" using rows inserted(1) by fastforce
    moreover have "active_status (tr_status (transfer_to_row ?t))"
      by (simp add: transfer_to_row_def pending_transfer_def active_status_def)
    then have "\<forall>i \<in> set (t_id ?t # map jid (ig_jobs ?as s)). \<exists>x. find_transfer ?d' i = Some x \<and> active_status (tr_status x)"
      using rows(2) inserted(1) unfolding inserted(2) by auto
    ultimately show ?thesis by (intro jobs_invI [of _ _ "t_id ?t # map jid (ig_jobs ?as s)"]) (auto simp: b inserted(3))
  qed
qed

lemma create_inv:
  assumes inv: "ig_inv d0 s" and run: "ig_runs s = us @ h # vs" "rn_pc h = HChecked t rec recs"
    and snd: "bw_send (InsertTransfer (pending_transfer re (rn_app h) (rn_max_retries h) rec)) (ig_bw s) = Some b"
  shows "ig_inv d0 (s\<lparr>ig_bw := b, ig_marks := (ig_marks s)(length (bw_sent (ig_bw s)) := t),
      ig_runs := us @ h\<lparr>rn_pc := HSent re rec (length (bw_sent (ig_bw s))) recs\<rparr> # vs\<rparr>)" (is "ig_inv d0 ?s")
proof -
  let ?sent = "bw_sent (ig_bw s)" and ?t = "pending_transfer re (rn_app h) (rn_max_retries h) rec"
  let ?r = "\<lparr>wr_done = length ?sent, wr_stmt = InsertTransfer ?t\<rparr>"
  from inv have o: "open_inv s" "jobs_inv d0 s" "log_inv d0 s" "db_ok d0" by (simp_all add: ig_inv_def)
  have b: "bw_sent b = ?sent @ [?r]" using snd by (simp add: bw_send_Some)
  from jobs_inv_rows(1) [OF o(2)] run have "\<not> has_active (after d0 ?sent) (t_app_id ?t) (t_object_key ?t)"
    by (simp add: pending_transfer_def)
  with o(3,4) have "log_ok d0 (?sent @ [?r])" by (intro insert_log [of _ _ _ ?t]) (simp_all add: log_inv_def)
  from send_log_inv [OF o(3) snd _ _ this] have "log_inv d0 ?s" by simp
  moreover have "mset (ig_open ?s) = mset (ig_open s)"
    using seen_le [OF o(3)] by (simp add: ig_open_def run b log_open_snoc log_open_marks pending_transfer_def dedup_key_def)
  then have keys: "mset (map fst (ig_open ?s)) = mset (map fst (ig_open s))" and set: "set (ig_open ?s) = set (ig_open s)"
    by (simp, metis set_mset_mset)
  have "distinct (map fst (ig_open ?s))" using mset_eq_imp_distinct_iff [OF keys] o(1) by (simp add: open_inv_def)
  with set have "open_inv ?s" by (intro open_inv_sub [OF o(1)]) simp_all
  moreover have "jobs_inv d0 ?s" using create_jobs [OF inv run snd] .
  ultimately show ?thesis using inv by (simp add: ig_inv_def)
qed

text \<open>A status written for a transfer whose job is held.\<close>

lemma update_free:
  assumes "db_ok d" "db_ok d'" "find_transfer d' = (find_transfer d)(i \<mapsto> update_transfer_row t x)" "find_transfer d i = Some x"
    and "active_status (tr_status x)" "\<not> has_active d a k"
  shows "\<not> has_active d' a k"
  using assms(3-6) unfolding has_active_iff [OF assms(1)] has_active_iff [OF assms(2)]
  by (auto simp: update_transfer_row_def split: if_splits)

lemma update_inv:
  assumes inv: "ig_inv d0 s" and job: "ig_held s = js @ j # ks" "t_id t = jid j"
    and snd: "bw_send (UpdateTransferStmt t) (ig_bw s) = Some b"
    and held: "held = ig_held s \<and> active_status (t_status t) \<or> held = js @ ks"
  shows "ig_inv d0 (s\<lparr>ig_held := held, ig_bw := b\<rparr>)" (is "ig_inv d0 ?s")
proof -
  let ?sent = "bw_sent (ig_bw s)" and ?r = "\<lparr>wr_done = length (bw_sent (ig_bw s)), wr_stmt = UpdateTransferStmt t\<rparr>"
  let ?d = "after d0 ?sent" and ?d' = "after d0 (?sent @ [?r])" and ?as = "snd (serial ?sent d0)"
  from inv have o: "open_inv s" "jobs_inv d0 s" "log_inv d0 s" "db_ok d0" by (simp_all add: ig_inv_def)
  have b: "bw_sent b = ?sent @ [?r]" using snd by (simp add: bw_send_Some)
  note rows = jobs_inv_rows [OF o(2)]
  from rows(3) job obtain x where x: "find_transfer ?d (t_id t) = Some x" "active_status (tr_status x)" by (auto simp: ig_jobs_def)
  from update_log [OF o(4) _ _ x, of ?r] o(3) have log: "log_ok d0 (?sent @ [?r])"
    and find: "find_transfer ?d' = (find_transfer ?d)(t_id t \<mapsto> update_transfer_row t x)" by (simp_all add: log_inv_def)
  from send_log_inv [OF o(3) snd _ _ log] have "log_inv d0 ?s" by simp
  moreover have "ig_open ?s = ig_open s" using seen_le [OF o(3)] by (simp add: ig_open_def b log_open_snoc)
  then have "open_inv ?s" using o(1) by (intro open_inv_sub [OF o(1)]) (simp_all add: open_inv_def)
  moreover have "jobs_inv d0 ?s"
  proof (rule jobs_invI [of _ _ "map jid (ig_jobs ?as (s\<lparr>ig_held := held\<rparr>))"])
    obtain A where A: "\<And>hs. map jid (ig_jobs ?as (s\<lparr>ig_held := hs\<rparr>)) = A @ map jid hs" "map jid (ig_jobs ?as s) = A @ map jid js @ t_id t # map jid ks"
      using job by (simp add: ig_jobs_def)
    have "pc_ok ?d' (length (bw_sent b)) (rn_app h) (rn_pc h)" if h: "h \<in> set (ig_runs s)" for h
    proof (cases "rn_pc h")
      case (HChecked t' rec recs)
      with rows(1) h have "\<not> has_active ?d (a_id (rn_app h)) (object_key rec)" by (metis pc_ok.simps(1))
      from update_free [OF after_ok after_ok find x this, OF o(4) o(4)] HChecked show ?thesis by simp
    next
      case (HSent re rec i recs)
      with rows(1) h have "i < length ?sent" by (metis pc_ok.simps(2))
      with HSent show ?thesis by (simp add: b)
    qed simp_all
    then show "\<forall>h \<in> set (ig_runs ?s). pc_ok (after d0 (bw_sent (ig_bw ?s))) (length (bw_sent (ig_bw ?s))) (rn_app h) (rn_pc h)"
      by (simp add: b)
    have "snd (serial (bw_sent b) d0) = ?as @ [(wr_done ?r, None)]" by (simp add: b serial_answers)
    then show "mset (map jid (ig_jobs (snd (serial (bw_sent (ig_bw ?s)) d0)) ?s)) = mset (map jid (ig_jobs ?as (s\<lparr>ig_held := held\<rparr>)))"
      using rows(1) runs_jobs_grow [of "ig_runs s" ?d ?as] by (simp add: ig_jobs_def serial_length)
    show "distinct (map jid (ig_jobs ?as (s\<lparr>ig_held := held\<rparr>)))" using held rows(2) job unfolding A by (elim disjE) simp_all
    have "\<exists>y. find_transfer ?d' i = Some y \<and> active_status (tr_status y)" if i: "i \<in> set (map jid (ig_jobs ?as (s\<lparr>ig_held := held\<rparr>)))" for i
    proof (cases "i = t_id t")
      case True
      have "t_id t \<notin> set (A @ map jid (js @ ks))" using rows(2) unfolding A by simp
      with True i held have "active_status (t_status t)" unfolding A by blast
      with True show ?thesis by (simp add: find update_transfer_row_def)
    next
      case False
      from i held have "i \<in> set (map jid (ig_jobs ?as s))" unfolding A by (elim disjE) (auto simp: job)
      with rows(3) False show ?thesis unfolding find by (metis fun_upd_apply)
    qed
    then show "\<forall>i \<in> set (map jid (ig_jobs ?as (s\<lparr>ig_held := held\<rparr>))).
        \<exists>x. find_transfer (after d0 (bw_sent (ig_bw ?s))) i = Some x \<and> active_status (tr_status x)" by (simp add: b)
  qed
  ultimately show ?thesis using inv by (simp add: ig_inv_def)
qed

text \<open>A step of the batch writer: in an open transaction the committed state stays, otherwise everything answered is committed.\<close>

lemma writer_moves:
  "bw_step False s s' \<Longrightarrow> length (bw_answers s) \<le> length (bw_answers s') \<and> (in_tx (bw_pc s') \<longrightarrow> bw_db s' = bw_db s)"
  by (auto simp: bw_send_Some bw_recv_def bw_drain_stop_def bw_close_def after_flush_def Let_def elim!: bw_stepE split: option.splits prod.splits if_splits)

lemma committed_after:
  assumes "bw_serial d0 b" "\<not> in_tx (bw_pc b)"
  shows "bw_db b = after d0 (take (length (bw_answers b)) (bw_sent b))"
proof -
  from assms obtain dn where dn: "bw_sent b = dn @ unanswered b" "serial dn d0 = (bw_db b, bw_answers b)"
    by (cases "bw_pc b") (auto simp: bw_serial_def)
  with serial_length [of dn d0] show ?thesis by (simp add: after_def)
qed

lemma writer_inv:
  assumes inv: "ig_inv d0 s" and step: "bw_step False (ig_bw s) b" and sent: "bw_sent b = bw_sent (ig_bw s)"
  shows "ig_inv d0 (s\<lparr>ig_bw := b, ig_seen := (if in_tx (bw_pc b) then ig_seen s else length (bw_answers b))\<rparr>)" (is "ig_inv d0 ?s")
proof -
  from inv have o: "open_inv s" "jobs_inv d0 s" "log_inv d0 s" by (simp_all add: ig_inv_def)
  from o(3) have i: "bw_inv (ig_bw s)" "bw_serial d0 (ig_bw s)" by (simp_all add: log_inv_def)
  from bw_inv_step [OF step i(1)] bw_serial_step [OF step conjI [OF i]] have b: "bw_inv b" "bw_serial d0 b" by simp_all
  from o(3) writer_moves [OF step] have seen: "ig_seen s \<le> length (bw_answers b)" by (simp add: log_inv_def)
  have log: "log_inv d0 ?s" using o(3) b seen sent writer_moves [OF step] committed_after [OF b(2)] by (auto simp: log_inv_def)
  have "ig_seen s \<le> ig_seen ?s" using seen by simp
  from log_open_later [OF this, of "bw_sent (ig_bw s)" "ig_marks s"] seen_le [OF log] sent obtain xs where
    xs: "log_open (bw_sent (ig_bw s)) (ig_seen s) (ig_marks s) = xs @ log_open (bw_sent (ig_bw ?s)) (ig_seen ?s) (ig_marks ?s)" by auto
  have "distinct (map fst (ig_open ?s))" using o(1) unfolding open_inv_def ig_open_def xs by (simp add: Int_Un_distrib)
  moreover have "set (ig_open ?s) \<subseteq> set (ig_open s)" unfolding ig_open_def xs by auto
  ultimately have "open_inv ?s" by (intro open_inv_sub [OF o(1)]) simp_all
  moreover have "jobs_inv d0 ?s" using o(2) sent by (simp add: jobs_inv_def ig_jobs_def)
  ultimately show ?thesis using inv log by (simp add: ig_inv_def)
qed

text \<open>Jobs that move between the queue and the workers.\<close>

lemma move_inv:
  assumes inv: "ig_inv d0 s" and ids: "mset (map jid (q @ hs)) = mset (map jid (ig_queue s @ ig_held s))"
  shows "ig_inv d0 (s\<lparr>ig_queue := q, ig_held := hs\<rparr>)" (is "ig_inv d0 ?s")
proof -
  from inv have o: "open_inv s" "jobs_inv d0 s" "log_inv d0 s" by (simp_all add: ig_inv_def)
  have "jobs_inv d0 ?s"
    using jobs_inv_rows(1) [OF o(2)] ids by (intro jobs_inv_perm [OF o(2)]) (simp_all add: ig_jobs_def)
  moreover have "open_inv ?s" using o(1) by (simp add: open_inv_def ig_open_def)
  ultimately show ?thesis using inv log_inv_same [OF o(3), of ?s] by (simp add: ig_inv_def)
qed

lemma arrive_inv:
  assumes inv: "ig_inv d0 s" and h: "rn_pc h = HNext recs"
  shows "ig_inv d0 (s\<lparr>ig_runs := ig_runs s @ [h]\<rparr>)" (is "ig_inv d0 ?s")
proof -
  from inv have o: "open_inv s" "jobs_inv d0 s" "log_inv d0 s" by (simp_all add: ig_inv_def)
  have "jobs_inv d0 ?s"
    using jobs_inv_rows(1) [OF o(2)] h by (intro jobs_inv_perm [OF o(2)]) (auto simp: ig_jobs_def)
  moreover have "ig_open ?s = ig_open s" using h by (simp add: ig_open_def runs_open_def)
  then have "open_inv ?s" using o(1) by (simp add: open_inv_def)
  ultimately show ?thesis using inv log_inv_same [OF o(3), of ?s] by (simp add: ig_inv_def)
qed

lemma tick_inv:
  assumes inv: "ig_inv d0 s" and "may_tick True now s"
  shows "ig_inv d0 (s\<lparr>ig_clock := now\<rparr>)" (is "ig_inv d0 ?s")
proof -
  from inv have o: "open_inv s" "jobs_inv d0 s" "log_inv d0 s" by (simp_all add: ig_inv_def)
  have "ig_open ?s = ig_open s" by (simp add: ig_open_def)
  then have "open_inv ?s" using o(1) may_tick_open [OF assms(2)] by (auto simp: open_inv_def)
  moreover have "jobs_inv d0 ?s" using o(2) by (simp add: jobs_inv_def ig_jobs_def)
  ultimately show ?thesis using inv log_inv_same [OF o(3), of ?s] by (simp add: ig_inv_def)
qed

lemma hub_moves_inv:
  assumes inv: "ig_inv d0 s" and "hub_ok g"
  shows "ig_inv d0 (s\<lparr>ig_hub := g\<rparr>)"
  using assms by (simp add: ig_inv_def log_inv_def open_inv_def ig_open_def jobs_inv_def ig_jobs_def)

lemma hub_ok_sent: "hub_ok h \<Longrightarrow> Broadcast m h = Inr g \<Longrightarrow> hub_ok g"
  using hub_ok_Broadcast [of h m] by (simp add: hub_inv_def)

lemma ig_inv_step: "ig_step True False s s' \<Longrightarrow> ig_inv d0 s \<Longrightarrow> ig_inv d0 s'"
proof (induction rule: ig_step.induct)
  case (arrive recs s ap mr bo)
  then show ?case by (simp add: arrive_inv)
next
  case (duplicate s us h vs rec recs now d)
  from duplicate.hyps(3) have "d = ig_dedup s" by (auto simp: IsDuplicate_live split: if_splits)
  with thread_inv [OF duplicate.prems duplicate.hyps(1), of "HNext recs" "ig_hub s" "ig_queue s"] duplicate show ?case
    by (simp add: ig_inv_def)
next
  case (mark s us h vs rec recs now d)
  then show ?case by (intro mark_inv)
next
  case (active s us h vs t rec recs)
  with thread_inv [OF active.prems active.hyps(1), of "HNext recs" "ig_hub s" "ig_queue s"] show ?case by (simp add: ig_inv_def)
next
  case (inactive s us h vs t rec recs)
  from inactive.hyps(3) have "\<not> has_active (bw_db (ig_bw s)) (a_id (rn_app h)) (object_key rec)" by (simp add: HasActiveTransfer_def)
  from checked_free [OF inactive.prems inactive.hyps(1,2) this]
    thread_inv [OF inactive.prems inactive.hyps(1), of "HChecked t rec recs" "ig_hub s" "ig_queue s"] inactive
  show ?case by (simp add: ig_inv_def)
next
  case (unknown s us h vs t rec recs err e)
  then show ?case by simp
next
  case (create s us h vs t rec recs re b)
  then show ?case by (intro create_inv)
next
  case (created s us h vs re rec i recs)
  from created.prems have "log_inv d0 s" "hub_ok (ig_hub s)" by (simp_all add: ig_inv_def)
  from answer_serial [OF this(1) created.hyps(3)] this
    thread_inv [OF created.prems created.hyps(1), of "HCreated re rec recs" "ig_hub s" "ig_queue s"] created
  show ?case by simp
next
  case (refused s us h vs re rec i recs err)
  from refused.prems have "log_inv d0 s" "hub_ok (ig_hub s)" by (simp_all add: ig_inv_def)
  from answer_serial [OF this(1) refused.hyps(3)] this
    thread_inv [OF refused.prems refused.hyps(1), of "HReturn 500" "ig_hub s" "ig_queue s"] refused
  show ?case by simp
next
  case (enqueue s us h vs re rec recs)
  with thread_inv [OF enqueue.prems enqueue.hyps(1), of "HQueued re rec recs" "ig_hub s" "ig_queue s @ [run_job h re rec]"]
  show ?case by (simp add: ig_inv_def)
next
  case (notify s us h vs re rec recs g)
  then have "hub_ok g" using hub_ok_sent by (auto simp: ig_inv_def split: if_splits)
  with thread_inv [OF notify.prems notify.hyps(1), of "HNext recs" g "ig_queue s"] notify show ?case by simp
next
  case (accepted s us h vs)
  with thread_inv [OF accepted.prems accepted.hyps(1), of "HReturn 202" "ig_hub s" "ig_queue s"] show ?case by (simp add: ig_inv_def)
next
  case (take s j q)
  then show ?case by (intro move_inv) simp_all
next
  case (retry s js j ks j')
  then show ?case using move_inv [OF retry.prems, of "ig_queue s @ [j']" "js @ ks"] by simp
next
  case (progress s js j ks t b)
  from update_inv [OF progress.prems progress.hyps(1,2,4), of "ig_held s"] progress.hyps(3) show ?case by (auto simp: active_status_def)
next
  case (finish s js j ks t b)
  from update_inv [OF finish.prems finish.hyps(1,2,4), of "js @ ks"] show ?case by simp
next
  case (writer s b)
  then show ?case by (intro writer_inv)
next
  case (tick now s)
  then show ?case by (intro tick_inv)
next
  case (sweep s)
  then show ?case by (intro sweep_inv)
next
  case (hub_moves s g)
  then show ?case using hub_inv_step [of "Inr (ig_hub s)" "Inr g"] by (intro hub_moves_inv) (simp_all add: ig_inv_def hub_inv_def)
qed

interpretation ingest_sys: invariant_system "ig_init d0" "ig_step True False" "ig_inv d0" for d0
  by unfold_locales (rule ig_inv_init, assumption, rule ig_inv_step)

text \<open>The object a job is for: app and key of its row.\<close>

definition job_object :: "db \<Rightarrow> job \<Rightarrow> (string \<times> string) option" where
  "job_object d j = map_option (\<lambda>r. (tr_app_id r, tr_object_key r)) (find_transfer d (jid j))"

section \<open>Example: two requests for one object\<close>

definition one_rec :: event_record where
  "one_rec = \<lparr>er_event_name = ''s3:ObjectCreated:Put'', er_event_time = [], er_bucket = ''b'',
              er_object = \<lparr>so_key = ''k'', so_size = 7, so_etag = [], so_content_type = []\<rparr>\<rparr>"

definition one_run :: "run_pc \<Rightarrow> run" where
  "one_run p = \<lparr>rn_app = sample_app, rn_max_retries = 3, rn_backoff = 30, rn_pc = p\<rparr>"

definition two_runs :: "time \<Rightarrow> (string \<rightharpoonup> time) \<Rightarrow> bw \<Rightarrow> run_pc \<Rightarrow> run_pc \<Rightarrow> (nat \<Rightarrow> time) \<Rightarrow> ingest" where
  "two_runs now marked b p q marks =
     \<lparr>ig_clock = now, ig_dedup = \<lparr>dd_entries = marked, dd_window = 10\<rparr>, ig_hub = NewHub, ig_queue = [], ig_held = [],
      ig_bw = b, ig_runs = [one_run p, one_run q], ig_seen = 0, ig_marks = marks\<rparr>"

definition one_env :: "string \<Rightarrow> rec_env" where
  "one_env u = (sample_rec_env None)\<lparr>re_uuid := u\<rparr>"

abbreviation no_transfers :: db where
  "no_transfers \<equiv> sample_db\<lparr>transfers := []\<rparr>"

abbreviation one_insert :: "nat \<Rightarrow> string \<Rightarrow> write_request" where
  "one_insert n u \<equiv> \<lparr>wr_done = n, wr_stmt = InsertTransfer (pending_transfer (one_env u) sample_app 3 one_rec)\<rparr>"

definition sent_one :: bw where
  "sent_one = (newBatchWriter no_transfers)\<lparr>bw_ch := (make_chan writeChanCap)\<lparr>ch_buf := [one_insert 0 ''u1'']\<rparr>,
     bw_sent := [one_insert 0 ''u1'']\<rparr>"

definition sent_two :: bw where
  "sent_two = (newBatchWriter no_transfers)\<lparr>bw_ch := (make_chan writeChanCap)\<lparr>ch_buf := [one_insert 0 ''u1'', one_insert 1 ''u2'']\<rparr>,
     bw_sent := [one_insert 0 ''u1'', one_insert 1 ''u2'']\<rparr>"

lemmas race_defs = two_runs_def one_run_def one_env_def sent_one_def sent_two_def newBatchWriter_def make_chan_def

lemma one_key [simp]: "object_key one_rec = ''k''"
  by (simp add: object_key_def one_rec_def)

text \<open>Steps of the batch writer alone are steps of the whole.\<close>

lemma writer_steps:
  assumes "(bw_step faulty)\<^sup>*\<^sup>* b b'" "bw_sent b' = bw_sent b" "ig_bw s = b"
  shows "\<exists>n. (ig_step prompt faulty)\<^sup>*\<^sup>* s (s\<lparr>ig_bw := b', ig_seen := n\<rparr>)"
proof -
  have sent: "\<exists>xs. bw_sent c' = bw_sent c @ xs" if "bw_step faulty c c'" for c c'
    using that by cases (auto simp: bw_send_Some bw_recv_def bw_drain_stop_def bw_close_def Let_def split: option.splits prod.splits if_splits)
  from assms(1) have "(\<exists>xs. bw_sent b' = bw_sent b @ xs) \<and>
      (bw_sent b' = bw_sent b \<longrightarrow> (\<exists>n. (ig_step prompt faulty)\<^sup>*\<^sup>* s (s\<lparr>ig_bw := b', ig_seen := n\<rparr>)))"
  proof (induction rule: rtranclp_induct)
    case base
    have "s\<lparr>ig_bw := b, ig_seen := ig_seen s\<rparr> = s" using assms(3) by simp
    then show ?case by (metis append_Nil2 rtranclp.rtrancl_refl)
  next
    case (step c c')
    from step.IH sent [OF step.hyps(2)] obtain xs ys where xs: "bw_sent c = bw_sent b @ xs" "bw_sent c' = bw_sent c @ ys" by blast
    have "\<exists>n. (ig_step prompt faulty)\<^sup>*\<^sup>* s (s\<lparr>ig_bw := c', ig_seen := n\<rparr>)" if "bw_sent c' = bw_sent b"
    proof -
      from that xs have "bw_sent c = bw_sent b" by simp
      with step.IH obtain n where n: "(ig_step prompt faulty)\<^sup>*\<^sup>* s (s\<lparr>ig_bw := c, ig_seen := n\<rparr>)" by blast
      let ?n = "if in_tx (bw_pc c') then n else length (bw_answers c')"
      have "ig_step prompt faulty (s\<lparr>ig_bw := c, ig_seen := n\<rparr>) (s\<lparr>ig_bw := c', ig_seen := ?n\<rparr>)"
        using writer [of faulty "s\<lparr>ig_bw := c, ig_seen := n\<rparr>" c' prompt] step.hyps(2) that \<open>bw_sent c = bw_sent b\<close>
        by (cases "in_tx (bw_pc c')") simp_all
      with n show ?thesis by (meson rtranclp.rtrancl_into_rtrancl)
    qed
    with xs show ?case by auto
  qed
  with assms(2) show ?thesis by blast
qed

lemma to_state: "ig_step prompt faulty s t \<Longrightarrow> t = t' \<Longrightarrow> ig_step prompt faulty s t'"
  by simp

lemma no_transfers_ok: "db_ok no_transfers" "unique_active (find_transfer no_transfers)"
  using sample_db_ok by (auto simp: db_ok_def refs_def unique_active_def find_transfer_def)

text \<open>The first request has sent its insert, the second has not begun.\<close>

lemma first_sent:
  "reach (ig_init no_transfers) (ig_step prompt faulty)
     (two_runs 0 [dedup_key sample_app ''k'' \<mapsto> 0] sent_one (HSent (one_env ''u1'') one_rec 0 []) (HNext [one_rec]) ((\<lambda>_. 0)(0 := 0)))"
proof -
  let ?key = "dedup_key sample_app ''k''" and ?B = "newBatchWriter no_transfers"
  let ?s0 = "(two_runs 0 Map.empty ?B (HNext []) (HNext []) (\<lambda>_. 0))\<lparr>ig_runs := []\<rparr>"
  let ?sent = "HSent (one_env ''u1'') one_rec 0 []"
  note R = reach_step [of "ig_init no_transfers" "ig_step prompt faulty"]
  have free: "HasActiveTransfer None (a_id sample_app) ''k'' no_transfers = Inr False" by (simp add: HasActiveTransfer_def has_active_def)
  have "reach (ig_init no_transfers) (ig_step prompt faulty) ?s0"
    using no_transfers_ok by (intro reach_init) (auto simp: ig_init_def two_runs_def in_int64_def min_int64_def max_int64_def)
  then have "reach (ig_init no_transfers) (ig_step prompt faulty)
      (?s0\<lparr>ig_runs := [one_run (HNext [one_rec])]\<rparr>)"
    by (rule R, intro to_state [OF arrive [where recs = "[one_rec]" and ap = sample_app and mr = 3 and bo = 30]])
      (simp_all add: race_defs)
  then have "reach (ig_init no_transfers) (ig_step prompt faulty)
      (two_runs 0 Map.empty ?B (HNext [one_rec]) (HNext [one_rec]) (\<lambda>_. 0))"
    by (rule R, intro to_state [OF arrive [where recs = "[one_rec]" and ap = sample_app and mr = 3 and bo = 30]])
      (simp_all add: race_defs)
  then have "reach (ig_init no_transfers) (ig_step prompt faulty)
      (two_runs 0 [?key \<mapsto> 0] ?B (HMarked 0 one_rec []) (HNext [one_rec]) (\<lambda>_. 0))"
    by (rule R, intro to_state [OF mark [where us = "[]" and h = "one_run (HNext [one_rec])" and vs = "[one_run (HNext [one_rec])]" and rec = one_rec and recs = "[]" and now = 0
      and d = "\<lparr>dd_entries = [?key \<mapsto> 0], dd_window = 10\<rparr>"]])
      (simp_all add: race_defs may_tick_def IsDuplicate_def ig_open_def runs_open_def log_open_def)
  then have "reach (ig_init no_transfers) (ig_step prompt faulty)
      (two_runs 0 [?key \<mapsto> 0] ?B (HChecked 0 one_rec []) (HNext [one_rec]) (\<lambda>_. 0))"
    by (rule R, intro to_state [OF inactive [where us = "[]" and h = "one_run (HMarked 0 one_rec [])" and vs = "[one_run (HNext [one_rec])]" and rec = one_rec and recs = "[]" and t = 0]])
      (simp_all add: race_defs free)
  then show "reach (ig_init no_transfers) (ig_step prompt faulty)
      (two_runs 0 [?key \<mapsto> 0] sent_one ?sent (HNext [one_rec]) ((\<lambda>_. 0)(0 := 0)))"
    by (rule R, intro to_state [OF create [where us = "[]" and h = "one_run (HChecked 0 one_rec [])" and vs = "[one_run (HNext [one_rec])]" and rec = one_rec and recs = "[]" and t = 0
      and re = "one_env ''u1''" and b = sent_one]])
      (simp_all add: race_defs bw_send_Some writeChanCap_def)
qed

lemma race_sent:
  "\<exists>m marks. reach (ig_init no_transfers) (ig_step False False)
     (two_runs 10 m sent_two (HSent (one_env ''u1'') one_rec 0 []) (HSent (one_env ''u2'') one_rec 1 []) marks)"
proof -
  let ?key = "dedup_key sample_app ''k''" and ?sent = "HSent (one_env ''u1'') one_rec 0 []" and ?m1 = "(\<lambda>_. 0)(0 := 0)"
  note R = reach_step [of "ig_init no_transfers" "ig_step False False"]
  have free: "HasActiveTransfer None (a_id sample_app) ''k'' no_transfers = Inr False" by (simp add: HasActiveTransfer_def has_active_def)
  from first_sent [of False] have "reach (ig_init no_transfers) (ig_step False False)
      (two_runs 10 [?key \<mapsto> 0] sent_one ?sent (HNext [one_rec]) ?m1)"
    by (rule R, intro to_state [OF tick [where now = 10]])
      (simp_all add: race_defs may_tick_def)
  then have "reach (ig_init no_transfers) (ig_step False False)
      (two_runs 10 [?key \<mapsto> 10] sent_one ?sent (HMarked 10 one_rec []) ?m1)"
    by (rule R, intro to_state [OF mark [where us = "[one_run ?sent]" and h = "one_run (HNext [one_rec])" and vs = "[]" and rec = one_rec and recs = "[]" and now = 10
      and d = "\<lparr>dd_entries = [?key \<mapsto> 10], dd_window = 10\<rparr>"]])
      (simp_all add: race_defs may_tick_def IsDuplicate_def time_sub_def min_int64_def max_int64_def)
  then have "reach (ig_init no_transfers) (ig_step False False)
      (two_runs 10 [?key \<mapsto> 10] sent_one ?sent (HChecked 10 one_rec []) ?m1)"
    by (rule R, intro to_state [OF inactive [where us = "[one_run ?sent]" and h = "one_run (HMarked 10 one_rec [])" and vs = "[]" and rec = one_rec and recs = "[]" and t = 10]])
      (simp_all add: race_defs free)
  then have "reach (ig_init no_transfers) (ig_step False False)
      (two_runs 10 [?key \<mapsto> 10] sent_two ?sent (HSent (one_env ''u2'') one_rec 1 []) (?m1(1 := 10)))"
    by (rule R, intro to_state [OF create [where us = "[one_run ?sent]" and h = "one_run (HChecked 10 one_rec [])" and vs = "[]" and rec = one_rec and recs = "[]" and t = 10
      and re = "one_env ''u2''" and b = sent_two]])
      (simp_all add: race_defs bw_send_Some writeChanCap_def)
  then show ?thesis by blast
qed

text \<open>The batch writer takes both inserts in one transaction.\<close>

definition both_db :: db where
  "both_db = after no_transfers (bw_sent sent_two)"

lemma both_active: "\<not> unique_active (find_transfer both_db)"
proof
  let ?row = "\<lambda>u. transfer_to_row (pending_transfer (one_env u) sample_app 3 one_rec)"
  have db: "transfers both_db = [?row ''u1'', ?row ''u2'']"
    by (simp add: both_db_def after_def sent_two_def pending_transfer_def one_env_def sample_rec_env_def sample_defs transfer_to_row_def)
  have "find_transfer both_db ''u1'' = Some (?row ''u1'')" "find_transfer both_db ''u2'' = Some (?row ''u2'')"
    by (simp_all add: find_transfer_def db pending_transfer_def one_env_def transfer_to_row_def)
  moreover assume "unique_active (find_transfer both_db)"
  ultimately have "''u1'' = ''u2''"
    unfolding unique_active_def by (elim allE [of _ "''u1''"] allE [of _ "''u2''"] allE [of _ "?row ''u1''"] allE [of _ "?row ''u2''"])
      (simp add: pending_transfer_def transfer_to_row_def active_status_def)
  then show False by simp
qed

lemma batch_executes:
  assumes recv: "bw_pc b = PLoop" "bw_recv b = Some (b\<lparr>bw_ch := ch, bw_batch := rs, bw_pc := PLoop\<rparr>)" "rs \<noteq> []"
    and tx: "tx_exec_all (\<lambda>_. None) rs (bw_db b) = (d, as)"
  shows "(bw_step faulty)\<^sup>*\<^sup>* b (b\<lparr>bw_ch := ch, bw_batch := [], bw_pc := PTx d [] False, bw_answers := bw_answers b @ as\<rparr>)"
proof -
  let ?b1 = "b\<lparr>bw_ch := ch, bw_batch := rs, bw_pc := PLoop\<rparr>"
  let ?b2 = "?b1\<lparr>bw_pc := PBegin False\<rparr>"
  let ?b3 = "?b2\<lparr>bw_batch := [], bw_pc := PTx (bw_db b) rs False\<rparr>"
  have "bw_step faulty b ?b1" using recv(1,2) by (rule bw_step.recv)
  moreover have "bw_step faulty ?b1 ?b2" using recv(3) by (intro bw_step.tick) simp_all
  moreover have "bw_step faulty ?b2 ?b3" using bw_step.begin_ok [of ?b2 False faulty] by simp
  moreover have "(bw_step faulty)\<^sup>*\<^sup>* ?b3 (?b3\<lparr>bw_pc := PTx d [] False, bw_answers := bw_answers ?b3 @ as\<rparr>)"
    using tx by (intro tx_steps [where ef = "\<lambda>_. None"]) simp_all
  ultimately show ?thesis by (simp add: converse_rtranclp_into_rtranclp)
qed

lemma batch_commits:
  assumes "bw_pc b = PLoop" "bw_recv b = Some (b\<lparr>bw_ch := ch, bw_batch := rs, bw_pc := PLoop\<rparr>)" "rs \<noteq> []"
    and "tx_exec_all (\<lambda>_. None) rs (bw_db b) = (d, as)"
  shows "(bw_step faulty)\<^sup>*\<^sup>* b (b\<lparr>bw_ch := ch, bw_db := d, bw_batch := [], bw_pc := PLoop, bw_answers := bw_answers b @ as\<rparr>)"
proof -
  let ?b = "b\<lparr>bw_ch := ch, bw_batch := [], bw_pc := PTx d [] False, bw_answers := bw_answers b @ as\<rparr>"
  have "bw_step faulty ?b (?b\<lparr>bw_db := d, bw_pc := after_flush False\<rparr>)" by (rule bw_step.commit) simp
  also have "?b\<lparr>bw_db := d, bw_pc := after_flush False\<rparr> =
      b\<lparr>bw_ch := ch, bw_db := d, bw_batch := [], bw_pc := PLoop, bw_answers := bw_answers b @ as\<rparr>"
    by (intro bw.equality) (simp_all add: after_flush_def)
  finally show ?thesis using batch_executes [OF assms, of faulty] by (rule rtranclp.rtrancl_into_rtrancl [rotated])
qed

lemmas recv_defs = newBatchWriter_def bw_recv_def try_recv_def make_chan_def drain_def batchMaxSize_def numeral_eq_Suc

lemma sent_two_commits: "\<exists>b. (bw_step False)\<^sup>*\<^sup>* sent_two b \<and> bw_sent b = bw_sent sent_two \<and> bw_db b = both_db"
proof -
  let ?rs = "[one_insert 0 ''u1'', one_insert 1 ''u2'']"
  obtain d as where f: "tx_exec_all (\<lambda>_. None) ?rs (bw_db sent_two) = (d, as)" by fastforce
  have "(bw_step False)\<^sup>*\<^sup>* sent_two
      (sent_two\<lparr>bw_ch := make_chan writeChanCap, bw_db := d, bw_batch := [], bw_pc := PLoop, bw_answers := bw_answers sent_two @ as\<rparr>)"
    using f by (intro batch_commits [where rs = ?rs]) (simp_all add: sent_two_def recv_defs)
  moreover have "d = both_db"
    using f by (simp add: both_db_def after_def sent_two_def newBatchWriter_def tx_exec_def sample_defs split: if_splits sum.splits prod.splits)
  ultimately show ?thesis by (intro exI conjI) (assumption, simp_all)
qed

text \<open>The first request alone: once it has been told that its row is written it puts its job on the queue.\<close>

definition one_job :: job where
  "one_job = record_job (one_env ''u1'') sample_app 3 30 one_rec"

definition first_run :: "bw \<Rightarrow> nat \<Rightarrow> run_pc \<Rightarrow> ingest" where
  "first_run b n p =
     (two_runs 0 [dedup_key sample_app ''k'' \<mapsto> 0] b p (HNext [one_rec]) ((\<lambda>_. 0)(0 := 0)))\<lparr>ig_queue := [one_job], ig_seen := n\<rparr>"

lemma one_executes: "tx_exec_all (\<lambda>_. None) [one_insert 0 ''u1''] (bw_db sent_one) = (after no_transfers (bw_sent sent_one), [(0, None)])"
  by (simp add: sent_one_def newBatchWriter_def tx_exec_def after_def pending_transfer_def sample_defs)

lemma first_told:
  assumes "(bw_step faulty)\<^sup>*\<^sup>* sent_one b" "bw_sent b = bw_sent sent_one" "(0, None) \<in> set (bw_answers b)"
  shows "\<exists>n. reach (ig_init no_transfers) (ig_step prompt faulty) (first_run b n (HQueued (one_env ''u1'') one_rec []))"
proof -
  let ?sent = "HSent (one_env ''u1'') one_rec 0 []" and ?created = "HCreated (one_env ''u1'') one_rec []"
  let ?s0 = "two_runs 0 [dedup_key sample_app ''k'' \<mapsto> 0] sent_one ?sent (HNext [one_rec]) ((\<lambda>_. 0)(0 := 0))"
  from writer_steps [OF assms(1,2), of ?s0 prompt] obtain n where n: "(ig_step prompt faulty)\<^sup>*\<^sup>* ?s0 (?s0\<lparr>ig_bw := b, ig_seen := n\<rparr>)"
    (is "rtranclp _ _ ?s1") by (auto simp: two_runs_def)
  let ?s2 = "?s1\<lparr>ig_runs := [one_run ?created, one_run (HNext [one_rec])]\<rparr>"
  have "ig_step prompt faulty ?s1 ?s2"
    using assms(3) by (intro to_state [OF created [where us = "[]" and h = "one_run ?sent" and vs = "[one_run (HNext [one_rec])]"
        and re = "one_env ''u1''" and rec = one_rec and i = 0 and recs = "[]"]]) (simp_all add: two_runs_def one_run_def)
  moreover have "ig_step prompt faulty ?s2 (first_run b n (HQueued (one_env ''u1'') one_rec []))"
    by (intro to_state [OF enqueue [where us = "[]" and h = "one_run ?created" and vs = "[one_run (HNext [one_rec])]" and re = "one_env ''u1''"
        and rec = one_rec and recs = "[]"]]) (simp_all add: two_runs_def one_run_def first_run_def one_job_def)
  ultimately have "(ig_step prompt faulty)\<^sup>*\<^sup>* ?s0 (first_run b n (HQueued (one_env ''u1'') one_rec []))"
    using n by (meson rtranclp.rtrancl_into_rtrancl)
  then have "reach (ig_init no_transfers) (ig_step prompt faulty) (first_run b n (HQueued (one_env ''u1'') one_rec []))"
    using first_sent [of prompt faulty] by (induction rule: rtranclp_induct) (auto intro: reach_step)
  then show ?thesis by blast
qed

lemma first_queued:
  "\<exists>s. reach (ig_init no_transfers) (ig_step prompt faulty) s \<and> ig_queue s = [one_job]"
proof -
  let ?b = "sent_one\<lparr>bw_ch := make_chan writeChanCap, bw_db := after no_transfers (bw_sent sent_one), bw_batch := [], bw_pc := PLoop,
    bw_answers := bw_answers sent_one @ [(0, None)]\<rparr>"
  have "(bw_step faulty)\<^sup>*\<^sup>* sent_one ?b"
    using one_executes by (intro batch_commits [where rs = "[one_insert 0 ''u1'']"]) (simp_all add: sent_one_def recv_defs)
  from first_told [OF this] show ?thesis by (fastforce simp: first_run_def)
qed

text \<open>The same with a commit that fails after the answer: the request goes on to its end.\<close>

lemma first_accepted:
  "\<exists>s. reach (ig_init no_transfers) (ig_step prompt True) s \<and> ig_queue s = [one_job] \<and> ig_held s = [] \<and>
     one_run (HReturn 202) \<in> set (ig_runs s) \<and> bw_db (ig_bw s) = no_transfers \<and> unanswered (ig_bw s) = [] \<and> bw_pc (ig_bw s) = PLoop"
proof -
  let ?d = "after no_transfers (bw_sent sent_one)"
  let ?tx = "sent_one\<lparr>bw_ch := make_chan writeChanCap, bw_batch := [], bw_pc := PTx ?d [] False, bw_answers := bw_answers sent_one @ [(0, None)]\<rparr>"
  let ?b = "?tx\<lparr>bw_pc := after_flush False\<rparr>"
  have "(bw_step True)\<^sup>*\<^sup>* sent_one ?tx"
    using one_executes by (intro batch_executes [where rs = "[one_insert 0 ''u1'']"]) (simp_all add: sent_one_def recv_defs)
  moreover have "bw_step True ?tx ?b" by (rule bw_step.commit_fail [of _ _ ?d]) simp_all
  ultimately have "(bw_step True)\<^sup>*\<^sup>* sent_one ?b" by (rule rtranclp.rtrancl_into_rtrancl)
  from first_told [OF this, of prompt] obtain n where
    n: "reach (ig_init no_transfers) (ig_step prompt True) (first_run ?b n (HQueued (one_env ''u1'') one_rec []))" by auto
  from Broadcast_ok [OF hub_ok_NewHub] obtain g where
    g: "Broadcast (queued_msg (one_env ''u1'') sample_app one_rec (j_transfer one_job)) NewHub = Inr g" by blast
  let ?s1 = "(first_run ?b n (HNext []))\<lparr>ig_hub := g\<rparr>"
  let ?s2 = "?s1\<lparr>ig_runs := [one_run (HReturn 202), one_run (HNext [one_rec])]\<rparr>"
  have "ig_step prompt True (first_run ?b n (HQueued (one_env ''u1'') one_rec [])) ?s1"
    using g by (intro to_state [OF notify [where us = "[]" and h = "one_run (HQueued (one_env ''u1'') one_rec [])" and vs = "[one_run (HNext [one_rec])]"
        and re = "one_env ''u1''" and rec = one_rec and recs = "[]" and g = g]]) (simp_all add: two_runs_def one_run_def first_run_def one_job_def)
  moreover have "ig_step prompt True ?s1 ?s2"
    by (intro to_state [OF accepted [where us = "[]" and h = "one_run (HNext [])" and vs = "[one_run (HNext [one_rec])]"]])
      (simp_all add: two_runs_def one_run_def first_run_def)
  ultimately have "reach (ig_init no_transfers) (ig_step prompt True) ?s2" using n by (meson reach_step)
  then show ?thesis
    by (intro exI [of _ ?s2])
      (simp add: first_run_def two_runs_def sent_one_def newBatchWriter_def unanswered_def make_chan_def after_flush_def)
qed

section \<open>Properties\<close>

text \<open>
  C6: however many webhook requests run at the same time, no object ever has two transfers that are not over, and no two
  jobs on the queue or with the workers are for the same object or transfer, each with its row in the table; provided that
  from a mark in the deduper to the commit of the row less than the dedup window passes, that nobody else creates transfers, and
  that the engine does not fail: neither the writes nor the query for active transfers, whose failure the handler takes for no
  (\<open>ig_step True False\<close>).
\<close>

theorem ingest_unique:
  assumes "reach (ig_init d0) (ig_step True False) s"
  shows "unique_active (find_transfer (bw_db (ig_bw s))) \<and>
         (let d = after d0 (bw_sent (ig_bw s)); jobs = ig_queue s @ ig_held s
          in unique_active (find_transfer d) \<and> distinct (map jid jobs) \<and>
             None \<notin> set (map (job_object d) jobs) \<and> distinct (map (job_object d) jobs))"
proof -
  let ?d = "after d0 (bw_sent (ig_bw s))" and ?jobs = "ig_queue s @ ig_held s"
  from ingest_sys.reach_inv [OF assms] have inv: "log_inv d0 s" "jobs_inv d0 s" by (simp_all add: ig_inv_def)
  then have u: "unique_active (find_transfer (after d0 (take n (bw_sent (ig_bw s)))))" for n by (simp add: log_inv_def log_ok_def)
  from u [of "length (bw_sent (ig_bw s))"] have ud: "unique_active (find_transfer ?d)" by simp
  from jobs_inv_rows(2,3) [OF inv(2)] have ids: "distinct (map jid ?jobs)" by (simp add: ig_jobs_def)
  from jobs_inv_rows(3) [OF inv(2)] have rows: "\<exists>x. find_transfer ?d (jid j) = Some x \<and> active_status (tr_status x)"
    if "j \<in> set ?jobs" for j using that by (intro bspec [OF jobs_inv_rows(3) [OF inv(2)]]) (auto simp: ig_jobs_def)
  have same: "jid j = jid k" if jk: "j \<in> set ?jobs" "k \<in> set ?jobs" "job_object ?d j = job_object ?d k" for j k
  proof -
    from rows [OF jk(1)] rows [OF jk(2)] obtain x y where xy: "find_transfer ?d (jid j) = Some x" "active_status (tr_status x)"
      "find_transfer ?d (jid k) = Some y" "active_status (tr_status y)" by blast
    moreover from xy(1,3) jk(3) have "tr_app_id x = tr_app_id y" "tr_object_key x = tr_object_key y" by (simp_all add: job_object_def)
    ultimately show ?thesis using ud unfolding unique_active_def by blast
  qed
  from ids same have "distinct (map (job_object ?d) ?jobs)" unfolding distinct_map inj_on_def by blast
  moreover have "job_object ?d j \<noteq> None" if "j \<in> set ?jobs" for j using rows [OF that] by (auto simp: job_object_def)
  then have "None \<notin> set (map (job_object ?d) ?jobs)" unfolding set_map by fastforce
  moreover have "unique_active (find_transfer (bw_db (ig_bw s)))" using u inv(1) by (simp add: log_inv_def)
  ultimately show ?thesis using ids ud unfolding Let_def by (intro conjI)
qed

theorem ingest_unique_witness:
  "\<exists>s. reach (ig_init no_transfers) (ig_step True False) s \<and> map jid (ig_queue s) = [''u1''] \<and>
     unique_active (find_transfer (bw_db (ig_bw s)))"
proof -
  from first_queued [of True] obtain s where s: "reach (ig_init no_transfers) (ig_step True False) s"
    "ig_queue s = [one_job]" by blast
  from ingest_unique [OF s(1)] s show ?thesis
    by (intro exI [of _ s]) (simp add: one_job_def record_job_def pending_transfer_def one_env_def)
qed

text \<open>
  C39: without that proviso the deduper does not keep requests for one object apart: a reachable state has two pending transfers of
  the same object in the committed table, when the second request comes a window after the first one was marked and before the
  batch writer has committed the first row.
\<close>

theorem ingest_race:
  "\<exists>d0 s. reach (ig_init d0) (ig_step False False) s \<and> \<not> unique_active (find_transfer (bw_db (ig_bw s)))"
proof -
  from race_sent obtain s where s: "reach (ig_init no_transfers) (ig_step False False) s" "ig_bw s = sent_two"
    by (metis two_runs_def ingest.select_convs(6))
  from sent_two_commits obtain b where b: "(bw_step False)\<^sup>*\<^sup>* sent_two b" "bw_sent b = bw_sent sent_two" "bw_db b = both_db" by blast
  from writer_steps [OF b(1,2) s(2)] obtain n where "(ig_step False False)\<^sup>*\<^sup>* s (s\<lparr>ig_bw := b, ig_seen := n\<rparr>)" by blast
  from this s(1) have "reach (ig_init no_transfers) (ig_step False False) (s\<lparr>ig_bw := b, ig_seen := n\<rparr>)"
    by (induction rule: rtranclp_induct) (auto intro: reach_step)
  with both_active b(3) show ?thesis by (intro exI conjI) auto
qed

text \<open>
  C40: A request can be answered 202 for a transfer that has no row: its insert was executed and answered, the commit failed
  afterwards, and nobody tells the request. Its job is on the queue, the table does not have the row and nothing is left to be
  written.
\<close>

theorem accepted_without_row:
  "\<exists>d0 s h j. reach (ig_init d0) (ig_step True True) s \<and> h \<in> set (ig_runs s) \<and> rn_pc h = HReturn 202 \<and>
     j \<in> set (ig_queue s) \<and> find_transfer (bw_db (ig_bw s)) (jid j) = None \<and> unanswered (ig_bw s) = [] \<and> bw_pc (ig_bw s) = PLoop"
proof -
  from first_accepted [of True] obtain s where s: "reach (ig_init no_transfers) (ig_step True True) s" "ig_queue s = [one_job]"
    "one_run (HReturn 202) \<in> set (ig_runs s)" "bw_db (ig_bw s) = no_transfers" "unanswered (ig_bw s) = []" "bw_pc (ig_bw s) = PLoop" by blast
  have "find_transfer no_transfers (jid one_job) = None" by (simp add: find_transfer_def)
  with s show ?thesis by (intro exI [of _ no_transfers] exI [of _ s] exI [of _ "one_run (HReturn 202)"] exI [of _ one_job]) (simp add: one_run_def)
qed

end
