(* ===== verification/FG_Program.thy ===== *)
theory FG_Program
  imports FG_System FG_Ingest
begin

text \<open>
  The program at the grain of its calls. \<open>FG_System\<close> takes a webhook request as one step whose writes are seen at once; here
  a request that passed the token check is a thread (\<open>run\<close> of \<open>FG_Ingest\<close>) that runs the loop of \<open>ServeHTTP\<close>
  (\<open>internal/webhook/handler.go\<close>) call by call, between the steps of the workers, timers, API requests, hub, sweeps and other threads.

  The tables are kept twice: as the open transaction of the batch writer sees them (\<open>m_db\<close>), which is what answers a caller
  (\<open>internal/storage/batch.go\<close>), and as they are committed (\<open>pg_committed\<close>), which is what queries see. A commit that
  fails loses what was written since the last one, although its writers have been answered. SQLite has one writer at a time, so the
  statements of the API, which do not go through the batch writer, wait until nothing is uncommitted.

  \<open>faulty\<close> says whether commits and the workers' \<open>UpdateTransfer\<close> may fail. The other calls, \<open>CreateTransfer\<close>
  and the queries among them, may fail in either case.
\<close>

section \<open>State\<close>

record ('c, 'w) program =
  pg_sys :: "('c, 'w) system"
  pg_committed :: db
  pg_runs :: "run list"

abbreviation pg_pool :: "('c, 'w) program \<Rightarrow> ('c, 'w) pool" where
  "pg_pool x \<equiv> sy_pool (pg_sys x)"

definition with_m :: "('c, 'w) mstate \<Rightarrow> ('c, 'w) program \<Rightarrow> ('c, 'w) program" where
  "with_m m x = x\<lparr>pg_sys := set_m m (pg_sys x)\<rparr>"

definition pg_m :: "('c, 'w) program \<Rightarrow> ('c, 'w) mstate" where
  "pg_m x = sys_m (pg_sys x)"

text \<open>What a handler works on: it reads the committed tables.\<close>

definition read_w :: "('c, 'w) program \<Rightarrow> ('c, 'w) wstate" where
  "read_w x = (sys_w (pg_sys x))\<lparr>w_m := (pg_m x)\<lparr>m_db := pg_committed x\<rparr>\<rparr>"

section \<open>Steps\<close>

text \<open>
  \<open>arrive\<close> is \<open>ServeHTTP\<close> up to the loop. Between \<open>create\<close> and \<open>enqueue\<close> the job is one of \<open>p_accepting\<close>, and \<open>p_submitted\<close>
  records the ids of the transfers whose insert was answered without an error. \<open>uuid.New\<close> does not return an id again.
\<close>

inductive prog_step ::
  "('c, 'o, 'w) minio_lib \<Rightarrow> bool \<Rightarrow> panic + ('c, 'w) program \<Rightarrow> panic + ('c, 'w) program \<Rightarrow> bool"
  for M :: "('c, 'o, 'w) minio_lib" and faulty :: bool where
  arrive: "resolve_app A (sy_handler (pg_sys x)) qe rq (read_w x) = Inr (ap, w) \<Longrightarrow>
    Verify (rq_authorization rq) (a_webhook_secret ap) = None \<Longrightarrow> rq_body rq = Some ev \<Longrightarrow> ev_records ev \<noteq> [] \<Longrightarrow>
    in_int64 (effective_retries (sy_handler (pg_sys x)) ap) \<Longrightarrow>
    prog_step M faulty (Inr x)
      (Inr (x\<lparr>pg_sys := (pg_sys x)\<lparr>sy_apps := w_apps w\<rparr>,
             pg_runs := pg_runs x @ [\<lparr>rn_app = ap, rn_max_retries = effective_retries (sy_handler (pg_sys x)) ap,
               rn_backoff = effective_backoff (sy_handler (pg_sys x)) ap, rn_pc = HNext (ev_records ev)\<rparr>]\<rparr>))"
| turned_away: "resolve_app A (sy_handler (pg_sys x)) qe rq (read_w x) = Inr (ap, w) \<Longrightarrow>
    prog_step M faulty (Inr x) (Inr (x\<lparr>pg_sys := (pg_sys x)\<lparr>sy_apps := w_apps w\<rparr>\<rparr>))"
| duplicate: "pg_runs x = us @ h # vs \<Longrightarrow> rn_pc h = HNext (rec # recs) \<Longrightarrow>
    IsDuplicate since now (run_key h rec) (sy_dedup (pg_sys x)) = (True, d) \<Longrightarrow>
    prog_step M faulty (Inr x)
      (Inr (x\<lparr>pg_sys := (pg_sys x)\<lparr>sy_dedup := d\<rparr>, pg_runs := us @ h\<lparr>rn_pc := HNext recs\<rparr> # vs\<rparr>))"
| mark: "pg_runs x = us @ h # vs \<Longrightarrow> rn_pc h = HNext (rec # recs) \<Longrightarrow>
    IsDuplicate since now (run_key h rec) (sy_dedup (pg_sys x)) = (False, d) \<Longrightarrow>
    prog_step M faulty (Inr x)
      (Inr (x\<lparr>pg_sys := (pg_sys x)\<lparr>sy_dedup := d\<rparr>, pg_runs := us @ h\<lparr>rn_pc := HMarked now rec recs\<rparr> # vs\<rparr>))"
| active: "pg_runs x = us @ h # vs \<Longrightarrow> rn_pc h = HMarked t rec recs \<Longrightarrow>
    HasActiveTransfer fault (a_id (rn_app h)) (object_key rec) (pg_committed x) = Inr True \<Longrightarrow>
    prog_step M faulty (Inr x) (Inr (x\<lparr>pg_runs := us @ h\<lparr>rn_pc := HNext recs\<rparr> # vs\<rparr>))"
| inactive: "pg_runs x = us @ h # vs \<Longrightarrow> rn_pc h = HMarked t rec recs \<Longrightarrow>
    HasActiveTransfer fault (a_id (rn_app h)) (object_key rec) (pg_committed x) \<noteq> Inr True \<Longrightarrow>
    prog_step M faulty (Inr x) (Inr (x\<lparr>pg_runs := us @ h\<lparr>rn_pc := HChecked t rec recs\<rparr> # vs\<rparr>))"
| create: "pg_runs x = us @ h # vs \<Longrightarrow> rn_pc h = HChecked t rec recs \<Longrightarrow> re_uuid re \<notin> p_submitted (pg_pool x) \<Longrightarrow>
    CreateTransfer fault (pending_transfer re (rn_app h) (rn_max_retries h) rec) (m_db (pg_m x)) = Inr d \<Longrightarrow>
    prog_step M faulty (Inr x)
      (Inr (x\<lparr>pg_sys := (pg_sys x)\<lparr>sy_pool := (pg_pool x)\<lparr>p_m := (pg_m x)\<lparr>m_db := d\<rparr>,
               p_accepting := p_accepting (pg_pool x) @ [run_job h re rec],
               p_submitted := insert (re_uuid re) (p_submitted (pg_pool x))\<rparr>\<rparr>,
             pg_runs := us @ h\<lparr>rn_pc := HCreated re rec recs\<rparr> # vs\<rparr>))"
| refused: "pg_runs x = us @ h # vs \<Longrightarrow> rn_pc h = HChecked t rec recs \<Longrightarrow>
    CreateTransfer fault (pending_transfer re (rn_app h) (rn_max_retries h) rec) (m_db (pg_m x)) = Inl err \<Longrightarrow>
    prog_step M faulty (Inr x) (Inr (x\<lparr>pg_runs := us @ h\<lparr>rn_pc := HReturn 500\<rparr> # vs\<rparr>))"
| enqueue: "pg_runs x = us @ h # vs \<Longrightarrow> rn_pc h = HCreated re rec recs \<Longrightarrow>
    prog_step M faulty (Inr x)
      (Inr (x\<lparr>pg_sys := (pg_sys x)\<lparr>sy_pool := (pg_pool x)\<lparr>p_m := Enqueue (run_job h re rec) (pg_m x),
               p_accepting := remove1 (run_job h re rec) (p_accepting (pg_pool x))\<rparr>\<rparr>,
             pg_runs := us @ h\<lparr>rn_pc := HQueued re rec recs\<rparr> # vs\<rparr>))"
| notify: "pg_runs x = us @ h # vs \<Longrightarrow> rn_pc h = HQueued re rec recs \<Longrightarrow>
    prog_step M faulty (Inr x)
      (map_sum id (\<lambda>g. (with_m ((pg_m x)\<lparr>m_hub := g\<rparr>) x)\<lparr>pg_runs := us @ h\<lparr>rn_pc := HNext recs\<rparr> # vs\<rparr>)
        (if QueueDepth (pg_m x) \<le> 1000
         then Broadcast (queued_msg re (rn_app h) rec (j_transfer (run_job h re rec))) (m_hub (pg_m x)) else Inr (m_hub (pg_m x))))"
| accepted: "pg_runs x = us @ h # vs \<Longrightarrow> rn_pc h = HNext [] \<Longrightarrow>
    prog_step M faulty (Inr x) (Inr (x\<lparr>pg_runs := us @ h\<lparr>rn_pc := HReturn 202\<rparr> # vs\<rparr>))"
| request: "xe_handler env = sy_handler (pg_sys x) \<Longrightarrow> \<forall>wrq. hr_body rq \<noteq> RWebhook wrq \<Longrightarrow>
    serve env rq (sy_auth (pg_sys x), read_w x) = (r, au, w) \<Longrightarrow>
    m_db (w_m w) = pg_committed x \<or> m_db (pg_m x) = pg_committed x \<Longrightarrow>
    prog_step M faulty (Inr x)
      (Inr (with_m ((w_m w)\<lparr>m_db := (if m_db (w_m w) = pg_committed x then m_db (pg_m x) else m_db (w_m w))\<rparr>)
        (x\<lparr>pg_sys := (pg_sys x)\<lparr>sy_auth := au\<rparr>, pg_committed := m_db (w_m w)\<rparr>)))"
| statement: "m_db (pg_m x) = pg_committed x \<Longrightarrow> store_step (pg_committed x) d \<Longrightarrow> transfers d = transfers (pg_committed x) \<Longrightarrow>
    prog_step M faulty (Inr x) (Inr (with_m ((pg_m x)\<lparr>m_db := d\<rparr>) (x\<lparr>pg_committed := d\<rparr>)))"
| commit: "prog_step M faulty (Inr x) (Inr (x\<lparr>pg_committed := m_db (pg_m x)\<rparr>))"
| commit_fails: "faulty \<Longrightarrow> prog_step M faulty (Inr x) (Inr (with_m ((pg_m x)\<lparr>m_db := pg_committed x\<rparr>) x))"
| work: "work_step M faulty (Inr (pg_pool x)) st \<Longrightarrow> (\<And>p. st = Inr p \<Longrightarrow> p_accepting p = p_accepting (pg_pool x)) \<Longrightarrow>
    prog_step M faulty (Inr x) (map_sum id (\<lambda>p. x\<lparr>pg_sys := (pg_sys x)\<lparr>sy_pool := p\<rparr>\<rparr>) st)"
| hub_moves: "hub_step (Inr (m_hub (pg_m x))) st \<Longrightarrow>
    prog_step M faulty (Inr x) (map_sum id (\<lambda>h. with_m ((pg_m x)\<lparr>m_hub := h\<rparr>) x) st)"
| tick: "prog_step M faulty (Inr x)
    (map_sum id (\<lambda>m. with_m ((pg_m x)\<lparr>m_hub := m_hub m\<rparr>) x) (stats_tick fault now (w_m (read_w x))))"
| sweep_dedup: "prog_step M faulty (Inr x)
    (Inr (x\<lparr>pg_sys := (pg_sys x)\<lparr>sy_dedup := dedup_cleanup now (sy_dedup (pg_sys x))\<rparr>\<rparr>))"
| sweep_apps: "prog_step M faulty (Inr x)
    (Inr (x\<lparr>pg_sys := (pg_sys x)\<lparr>sy_apps := cache_cleanup now (sy_apps (pg_sys x))\<rparr>\<rparr>))"
| stop: "prog_step M faulty (Inr x) (Inr (with_m (Stop (pg_m x)) x))"
| servers: "prog_step M faulty (Inr x) (Inr (with_m ((pg_m x)\<lparr>m_world := world\<rparr>) x))"

text \<open>The program starts as in \<open>FG_System\<close>, with what is on the disk and no request on its way.\<close>

definition prog_init :: "panic + ('c, 'w) program \<Rightarrow> bool" where
  "prog_init st \<longleftrightarrow>
     (\<exists>y. sys_init (Inr y) \<and> st = Inr \<lparr>pg_sys = y, pg_committed = m_db (sys_m y), pg_runs = []\<rparr>)"

section \<open>The pool over other tables\<close>

text \<open>The steps of the workers never look at the tables, so they can be taken over any others.\<close>

definition with_db :: "db \<Rightarrow> ('c, 'w) pool \<Rightarrow> ('c, 'w) pool" where
  "with_db d p = p\<lparr>p_m := (p_m p)\<lparr>m_db := d\<rparr>\<rparr>"

lemma with_db_sel [simp]:
  "p_m (with_db d p) = (p_m p)\<lparr>m_db := d\<rparr>" "p_pool (with_db d p) = p_pool p" "p_accepting (with_db d p) = p_accepting p"
  "p_submitted (with_db d p) = p_submitted p" "live (with_db d p) = live p"
  by (simp_all add: with_db_def live_def)

lemma with_db_self [simp]: "with_db (m_db (p_m p)) p = p"
  by (simp add: with_db_def)

lemma with_db_upd:
  "with_db d (p\<lparr>p_m := m\<rparr>) = p\<lparr>p_m := m\<lparr>m_db := d\<rparr>\<rparr>"
  "with_db d (p\<lparr>p_m := m, p_pool := ws\<rparr>) = p\<lparr>p_m := m\<lparr>m_db := d\<rparr>, p_pool := ws\<rparr>"
  "with_db d (p\<lparr>p_m := m, p_accepting := js\<rparr>) = p\<lparr>p_m := m\<lparr>m_db := d\<rparr>, p_accepting := js\<rparr>"
  "(with_db d p)\<lparr>p_m := m\<rparr> = p\<lparr>p_m := m\<rparr>"
  by (simp_all add: with_db_def)

lemma m_timers_db: "m\<lparr>m_db := d, m_timers := ts\<rparr> = m\<lparr>m_timers := ts, m_db := d\<rparr>"
  by simp

lemma Enqueue_db: "Enqueue job (m\<lparr>m_db := d\<rparr>) = (Enqueue job m)\<lparr>m_db := d\<rparr>"
  by (simp add: Enqueue_def)

lemma pool_ok_with_db:
  "pool_ok f (with_db d p) \<longleftrightarrow>
     hub_ok (m_hub (p_m p)) \<and> p_pool p \<noteq> [] \<and> (Exited \<in> set (p_pool p) \<longrightarrow> m_closed (p_m p)) \<and>
     jobs_ok f (live p) (row_status d) (p_submitted p)"
  by (simp add: pool_ok_def)

lemma store_update_swap: "\<exists>d'. store_update f t (m\<lparr>m_db := d\<rparr>) = (store_update f t m)\<lparr>m_db := d'\<rparr>"
  by (cases f) (auto simp: store_update_def UpdateTransfer_def)

lemma mgr_broadcast_swap: "mgr_broadcast msg (m\<lparr>m_db := d\<rparr>) = map_sum id (m_db_update (\<lambda>_. d)) (mgr_broadcast msg m)"
  by (auto simp: mgr_broadcast_def QueueDepth_def split: sum.splits)

lemma update_broadcast_swap:
  "\<exists>d'. mgr_broadcast msg (store_update f t (m\<lparr>m_db := d\<rparr>)) = map_sum id (m_db_update (\<lambda>_. d')) (mgr_broadcast msg (store_update f t m))"
  using store_update_swap [of f t d m] by (metis mgr_broadcast_swap)

lemma process_start_swap:
  "\<exists>d'. process_start e job (m\<lparr>m_db := d\<rparr>) = map_sum id (apsnd (m_db_update (\<lambda>_. d'))) (process_start e job m)"
proof (cases "j_retry_count job = 0")
  case True
  let ?t = "(j_transfer job)\<lparr>t_status := StatusInProgress, t_started_at := Some (te_now e)\<rparr>"
  let ?msg = "\<lparr>msg_type = MsgTransferStarted, msg_timestamp = te_now e,
      msg_payload = JObject [(''transfer_id'', JString (t_id ?t)), (''app_id'', JString (a_id (j_app job))),
                             (''object_key'', JString (j_object_key job))]\<rparr>"
  from update_broadcast_swap [of ?msg "te_fault e" ?t d m] True show ?thesis
    by (auto simp: process_start_def Let_def split: sum.splits)
next
  case False
  then show ?thesis by (auto simp: process_start_def)
qed

lemma doTransfer_swap:
  "doTransfer M others job (m\<lparr>m_db := d\<rparr>) = apsnd (m_db_update (\<lambda>_. d)) (doTransfer M others job m)"
  by (auto simp: doTransfer_def Let_def split: prod.splits sum.splits option.splits)

lemma scheduleRetry_swap:
  "\<exists>d'. scheduleRetry e job err (m\<lparr>m_db := d\<rparr>) = map_sum id (m_db_update (\<lambda>_. d')) (scheduleRetry e job err m)"
proof (cases "retry_delay (te_rnd e) (j_backoff_secs job) (wrap64 (j_retry_count job + 1))")
  case (Inr delay)
  let ?n = "wrap64 (j_retry_count job + 1)" and ?next = "time_add (te_later e) delay"
  let ?t = "(j_transfer job)\<lparr>t_status := StatusRetrying, t_error_message := error_string err,
      t_retry_count := ?n, t_next_retry_at := Some ?next\<rparr>"
  let ?msg = "\<lparr>msg_type = MsgTransferRetrying, msg_timestamp = te_stamp e,
      msg_payload = JObject [(''transfer_id'', JString (t_id ?t)), (''app_id'', JString (a_id (j_app job))),
                             (''object_key'', JString (j_object_key job)), (''retry_count'', JInt ?n),
                             (''max_retries'', JInt (j_max_retries job)), (''next_retry_at'', JTime ?next),
                             (''error_message'', JString (error_string err))]\<rparr>"
  from update_broadcast_swap [of ?msg "te_fault e" ?t d m] obtain d' where
    "mgr_broadcast ?msg (store_update (te_fault e) ?t (m\<lparr>m_db := d\<rparr>)) =
       map_sum id (m_db_update (\<lambda>_. d')) (mgr_broadcast ?msg (store_update (te_fault e) ?t m))" by blast
  with Inr show ?thesis
    by (intro exI [of _ d']) (auto simp: scheduleRetry_def Let_def m_timers_db split: sum.splits)
qed (simp add: scheduleRetry_def Let_def)

lemma fail_swap: "\<exists>d'. fail e t key err (m\<lparr>m_db := d\<rparr>) = map_sum id (m_db_update (\<lambda>_. d')) (fail e t key err m)"
  unfolding fail_def Let_def by (rule update_broadcast_swap)

lemma process_finish_swap:
  "\<exists>d'. process_finish M e now job (m\<lparr>m_db := d\<rparr>) = map_sum id (m_db_update (\<lambda>_. d')) (process_finish M e now job m)"
proof -
  obtain r m1 where dt: "doTransfer M (te_others e) job m = (r, m1)" by force
  then have dt': "doTransfer M (te_others e) job (m\<lparr>m_db := d\<rparr>) = (r, m1\<lparr>m_db := d\<rparr>)" by (simp add: doTransfer_swap)
  show ?thesis
  proof (cases r)
    case None
    show ?thesis unfolding process_finish_def dt dt' None by (simp add: Let_def) (rule update_broadcast_swap)
  next
    case (Some err)
    with scheduleRetry_swap [of e job err d m1] fail_swap [of e "j_transfer job" "j_object_key job" err d m1]
    show ?thesis by (simp add: process_finish_def dt dt')
  qed
qed

lemma next_job_swap: "next_job (m\<lparr>m_db := d\<rparr>) = map_option (apsnd (m_db_update (\<lambda>_. d))) (next_job m)"
  by (auto simp: next_job_def split: list.splits)

lemma work_swap:
  "work_step M f st0 st \<Longrightarrow> st0 = Inr p \<Longrightarrow> \<exists>d'. work_step M f (Inr (with_db d p)) (map_sum id (with_db d') st)"
proof (induction rule: work_step.induct)
  case (enqueue q as job bs)
  with work_step.enqueue [of "with_db d q" as job bs M f] show ?case
    by (intro exI [of _ d]) (simp add: with_db_upd Enqueue_db)
next
  case (take q us vs job m)
  with work_step.take [of "with_db d q" us vs job "m\<lparr>m_db := d\<rparr>" M f] show ?case
    by (intro exI [of _ d]) (simp add: next_job_swap with_db_upd)
next
  case (exit q us vs m)
  with work_step.exit [of "with_db d q" us vs "m\<lparr>m_db := d\<rparr>" M f] show ?case
    by (intro exI [of _ d]) (simp add: next_job_swap with_db_upd)
next
  case (start q us job vs e)
  from process_start_swap [of e job d "p_m q"] obtain d' where
    "process_start e job ((p_m q)\<lparr>m_db := d\<rparr>) = map_sum id (apsnd (m_db_update (\<lambda>_. d'))) (process_start e job (p_m q))" by blast
  with start work_step.start [of "with_db d q" us job vs f e M] show ?case
    by (intro exI [of _ d']) (cases "process_start e job (p_m q)", auto simp: with_db_upd)
next
  case (finish q us now job vs e)
  from process_finish_swap [of M e now job d "p_m q"] obtain d' where
    "process_finish M e now job ((p_m q)\<lparr>m_db := d\<rparr>) = map_sum id (m_db_update (\<lambda>_. d')) (process_finish M e now job (p_m q))" by blast
  with finish work_step.finish [of "with_db d q" us now job vs f e M] show ?case
    by (intro exI [of _ d']) (cases "process_finish M e now job (p_m q)", auto simp: with_db_upd)
next
  case (timer q xs due job ys)
  with work_step.timer [of "with_db d q" xs due job ys M f] show ?case
    by (intro exI [of _ d]) (simp add: with_db_upd retry_fire_def Let_def Enqueue_db [symmetric] m_timers_db)
qed

lemma work_other_db:
  assumes step: "work_step M f (Inr p) st" and ok: "pool_ok f (with_db d p)"
  shows "\<exists>p' d'. st = Inr p' \<and> (d = m_db (p_m p) \<longrightarrow> d' = m_db (p_m p')) \<and> pool_ok f (with_db d' p')"
proof (cases "d = m_db (p_m p)")
  case True
  with pool_inv_work [OF step] ok obtain p' where "st = Inr p'" "pool_ok f p'"
    by (auto simp: pool_inv_def split: sum.splits)
  with True show ?thesis by (intro exI [of _ p'] exI [of _ "m_db (p_m p')"]) simp
next
  case False
  from work_swap [OF step refl, of d] obtain d' where "work_step M f (Inr (with_db d p)) (map_sum id (with_db d') st)" by blast
  with pool_inv_work [of M f] ok have "pool_inv f (map_sum id (with_db d') st)" by (auto simp: pool_inv_def)
  with False show ?thesis by (cases st) (auto simp: pool_inv_def)
qed

lemma work_tables:
  assumes "work_step M f (Inr p) (Inr p')" "tables_ok True (m_db (p_m p))"
  shows "tables_ok True (m_db (p_m p'))"
proof (cases "m_db (p_m p') = m_db (p_m p)")
  case False
  with work_step_db [OF assms(1)] obtain t where t: "t_status t \<in> valid_statuses" "UpdateTransfer None t (m_db (p_m p)) = Inr (m_db (p_m p'))"
    using work_statuses_other(2) [of M] by (auto simp: db_upd_def)
  from assms(2) tstore.update_ok [OF _ t(2)] UpdateTransfer_statuses [OF t(2,1)] show ?thesis by (auto simp: tables_ok_def)
qed (use assms in simp)

section \<open>The invariant\<close>

text \<open>The job a thread is about to enqueue.\<close>

fun pending_jobs :: "run \<Rightarrow> run_pc \<Rightarrow> job list" where
  "pending_jobs h (HCreated re rec recs) = [run_job h re rec]"
| "pending_jobs h _ = []"

definition runs_ok :: "run list \<Rightarrow> job list \<Rightarrow> bool" where
  "runs_ok hs js \<longleftrightarrow>
     mset js = mset (concat (map (\<lambda>h. pending_jobs h (rn_pc h)) hs)) \<and> (\<forall>h \<in> set hs. in_int64 (rn_max_retries h))"

text \<open>
  When commits can fail the rows may be gone, and then the pool is sound over some other tables, which the workers cannot
  tell from the real ones.
\<close>

definition pool_view :: "bool \<Rightarrow> ('c, 'w) pool \<Rightarrow> bool" where
  "pool_view faulty p \<longleftrightarrow> (\<exists>d. (\<not> faulty \<longrightarrow> d = m_db (p_m p)) \<and> pool_ok faulty (with_db d p))"

definition prog_ok :: "bool \<Rightarrow> ('c, 'w) program \<Rightarrow> bool" where
  "prog_ok faulty x \<longleftrightarrow>
     tables_ok True (m_db (pg_m x)) \<and> tables_ok True (pg_committed x) \<and> pool_view faulty (pg_pool x) \<and>
     runs_ok (pg_runs x) (p_accepting (pg_pool x))"

definition prog_inv :: "bool \<Rightarrow> panic + ('c, 'w) program \<Rightarrow> bool" where
  "prog_inv faulty st = (case st of Inl p \<Rightarrow> False | Inr x \<Rightarrow> prog_ok faulty x)"

lemma pool_view_hub: "pool_view f p \<Longrightarrow> hub_ok (m_hub (p_m p))"
  by (auto simp: pool_view_def pool_ok_with_db)

lemma pool_view_ok: "pool_view False p \<longleftrightarrow> pool_ok False p"
  by (simp add: pool_view_def)

text \<open>A change that leaves the jobs and the rows of the transfers alone.\<close>

lemma pool_view_frame:
  assumes "pool_view f p" "live p' = live p" "p_pool p' = p_pool p" "p_submitted p' = p_submitted p"
    "m_closed (p_m p) \<longrightarrow> m_closed (p_m p')" "hub_ok (m_hub (p_m p'))"
    "\<not> f \<longrightarrow> transfers (m_db (p_m p')) = transfers (m_db (p_m p))"
  shows "pool_view f p'"
proof -
  from assms(1) obtain d where d: "\<not> f \<longrightarrow> d = m_db (p_m p)" "pool_ok f (with_db d p)" by (auto simp: pool_view_def)
  show ?thesis
  proof (cases f)
    case True
    with d(2) assms show ?thesis by (auto simp: pool_view_def pool_ok_with_db)
  next
    case False
    with d assms row_status_transfers [of "m_db (p_m p')" "m_db (p_m p)"] show ?thesis
      by (auto simp: pool_view_def pool_ok_def)
  qed
qed

lemma pool_view_work:
  assumes step: "work_step M f (Inr p) st" and view: "pool_view f p"
  shows "\<exists>p'. st = Inr p' \<and> pool_view f p'"
proof -
  from view obtain d where "\<not> f \<longrightarrow> d = m_db (p_m p)" "pool_ok f (with_db d p)" by (auto simp: pool_view_def)
  with work_other_db [OF step] show ?thesis unfolding pool_view_def by metis
qed

text \<open>A new transfer, and its job handed to the queue.\<close>

lemma jobs_ok_extend:
  assumes "jobs_ok True L rs ids" "jid j \<notin> ids" "retries_ok j" "\<And>i. i \<in> insert (jid j) ids \<Longrightarrow> rs' i \<noteq> None"
  shows "jobs_ok True ((b, j) # L) rs' (insert (jid j) ids)"
proof -
  from assms(1,2) have "jid j \<notin> (jid \<circ> snd) ` set L" "(jid \<circ> snd) ` set L \<subseteq> ids" unfolding jobs_ok_def by blast+
  with assms show ?thesis by (simp add: jobs_ok_def subset_insertI2)
qed

lemma pool_view_create:
  assumes view: "pool_view f p" and c: "CreateTransfer fault (j_transfer job) (m_db (p_m p)) = Inr d'"
    and new: "jid job \<notin> p_submitted p"
    and job: "t_status (j_transfer job) = StatusPending" "j_retry_count job = 0" "in_int64 (j_max_retries job)"
  shows "pool_view f (p\<lparr>p_m := (p_m p)\<lparr>m_db := d'\<rparr>, p_accepting := p_accepting p @ [job],
           p_submitted := insert (jid job) (p_submitted p)\<rparr>)"
proof (cases f)
  case False
  from CreateTransfer_Inr [OF c] c have "CreateTransfer None (j_transfer job) (m_db (p_m p)) = Inr d'" by simp
  with pool_ok_create [OF _ this job, of False] view False show ?thesis by (simp add: pool_view_ok)
next
  case True
  let ?p = "p\<lparr>p_m := (p_m p)\<lparr>m_db := d'\<rparr>, p_accepting := p_accepting p @ [job],
           p_submitted := insert (jid job) (p_submitted p)\<rparr>"
  from view True obtain d where d: "pool_ok True (with_db d p)" by (auto simp: pool_view_def)
  let ?d = "d\<lparr>transfers := transfers d @ [transfer_to_row (j_transfer job)]\<rparr>"
  have rows: "row_status ?d i \<noteq> None" if "row_status d i \<noteq> None \<or> i = jid job" for i
    using that by (auto simp: row_status_def find_transfer_def find_append_case split: option.splits)
  have r: "retries_ok job" using job by (simp add: retries_ok_def)
  from d have J: "jobs_ok True (live p) (row_status d) (p_submitted p)" by (simp add: pool_ok_with_db)
  then have "row_status ?d i \<noteq> None" if "i \<in> insert (jid job) (p_submitted p)" for i
    using that by (intro rows) (auto simp: jobs_ok_def)
  with jobs_ok_extend [OF J new r, of "row_status ?d" False]
  have "jobs_ok True ((False, job) # live p) (row_status ?d) (insert (jid job) (p_submitted p))" by blast
  moreover have "mset ((False, job) # live p) = mset (live ?p)" by (simp add: mset_live)
  ultimately have "jobs_ok True (live ?p) (row_status ?d) (insert (jid job) (p_submitted p))" using jobs_ok_perm by blast
  with d True show ?thesis unfolding pool_view_def by (intro exI [of _ ?d]) (simp add: pool_ok_with_db)
qed

lemma pool_view_enqueue:
  assumes view: "pool_view f p" and job: "job \<in> set (p_accepting p)"
  shows "pool_view f (p\<lparr>p_m := Enqueue job (p_m p), p_accepting := remove1 job (p_accepting p)\<rparr>)"
proof -
  from split_list_first [OF job] obtain as bs where acc: "p_accepting p = as @ job # bs" and "job \<notin> set as" by blast
  then have rem: "remove1 job (p_accepting p) = as @ bs" by (simp add: remove1_append)
  from view obtain d where d: "\<not> f \<longrightarrow> d = m_db (p_m p)" "pool_ok f (with_db d p)" by (auto simp: pool_view_def)
  let ?p = "p\<lparr>p_m := Enqueue job (p_m p), p_accepting := as @ bs\<rparr>"
  from pool_ok_enqueue [OF d(2), of as job bs] acc have "pool_ok f (with_db d ?p)" by (simp add: with_db_upd Enqueue_db)
  moreover have "m_db (p_m ?p) = m_db (p_m p)" by (simp add: Enqueue_def)
  ultimately show ?thesis using d(1) unfolding rem pool_view_def by metis
qed

text \<open>A thread moves.\<close>

lemma runs_ok_move:
  "runs_ok (us @ h # vs) js \<Longrightarrow> pending_jobs h (rn_pc h) = [] \<Longrightarrow> pending_jobs h pc = [] \<Longrightarrow> runs_ok (us @ h\<lparr>rn_pc := pc\<rparr> # vs) js"
  by (cases pc) (auto simp: runs_ok_def)

lemma runs_ok_create:
  "runs_ok (us @ h # vs) js \<Longrightarrow> pending_jobs h (rn_pc h) = [] \<Longrightarrow>
   runs_ok (us @ h\<lparr>rn_pc := HCreated re rec recs\<rparr> # vs) (js @ [run_job h re rec])"
  by (simp add: runs_ok_def)

lemma runs_ok_enqueue:
  assumes "runs_ok (us @ h # vs) js" "rn_pc h = HCreated re rec recs"
  shows "run_job h re rec \<in> set js \<and> runs_ok (us @ h\<lparr>rn_pc := HQueued re rec recs\<rparr> # vs) (remove1 (run_job h re rec) js)"
proof -
  let ?j = "run_job h re rec" and ?rest = "concat (map (\<lambda>h. pending_jobs h (rn_pc h)) (us @ vs))"
  from assms have m: "mset js = add_mset ?j (mset ?rest)" by (simp add: runs_ok_def)
  then have "?j \<in># mset js" by simp
  then have "?j \<in> set js" by (simp only: set_mset_mset)
  with m assms(1) show ?thesis by (simp add: runs_ok_def)
qed

section \<open>Every step keeps it\<close>

text \<open>What a request other than a webhook's does to the manager, whatever it is served on.\<close>

lemma serve_frame:
  assumes ok: "db_ok (m_db (w_m w0))" "hub_ok (m_hub (w_m w0))" and rq: "\<forall>wrq. hr_body rq \<noteq> RWebhook wrq"
    and run: "serve env rq (au0, w0) = (r, au, w)"
  shows "\<exists>d h. w_m w = (w_m w0)\<lparr>m_db := d, m_hub := h\<rparr> \<and> db_ok d \<and> hub_ok h \<and> transfers d = transfers (m_db (w_m w0))"
proof -
  have same: ?thesis if "w_m w = (w_m w0)\<lparr>m_hub := h\<rparr>" "hub_ok h" for h
    using that ok by (intro exI [of _ "m_db (w_m w0)"] exI [of _ h]) simp
  have none: ?thesis if "w = w0" by (rule same [of "m_hub (w_m w0)"]) (simp_all add: that ok)
  from run obtain r0 where run0: "NewRouter env rq (au0, w0) = (r0, au, w)"
    by (auto simp: serve_def Recoverer_eq split: prod.splits)
  show ?thesis
  proof (cases "hr_body rq")
    case (RApi c)
    with run0 have "RequireSession (xe_now env) (RequireConfirm (api_hnd env c)) rq (au0, w0) = (r0, au, w)"
      by (simp add: NewRouter_def)
    from gate_keeps [OF this] show ?thesis
    proof (elim disjE exE)
      fix s1 assume api: "api_hnd env c rq (s1, w0) = (r0, au, w)"
      let ?st = "\<lparr>as_db = m_db (w_m w0), as_hub = m_hub (w_m w0)\<rparr>"
      let ?h = "api_handle (xe_aead env) (wh_enc_key (xe_handler env)) (xe_arrange env) (xe_api env) c"
      obtain r' a where a: "?h ?st = (r', a)" by force
      from ok api_handle_good [of ?st "xe_aead env" "wh_enc_key (xe_handler env)" "xe_arrange env" "xe_api env" c]
      have "db_ok (as_db a)" "hub_ok (as_hub a)" by (simp_all add: api_good_def a)
      moreover have "transfers (as_db a) = transfers (m_db (w_m w0))"
        using api_keeps_transfers [of "xe_aead env" "wh_enc_key (xe_handler env)" "xe_arrange env" "xe_api env" c ?st] by (simp add: a)
      ultimately show ?thesis using api by (intro exI [of _ "as_db a"] exI [of _ "as_hub a"]) (auto simp: api_hnd_def on_api_def a)
    qed (rule none)
  next
    case (RWs up)
    with run0 have "w = w0 \<or> w_m w = (w_m w0)\<lparr>m_hub := NewClient (m_hub (w_m w0))\<rparr>"
      by (auto simp: NewRouter_def ws_hnd_def Let_def split: prod.splits if_splits option.splits)
    moreover have "hub_ok (NewClient (m_hub (w_m w0)))"
      using hub_inv_step [OF hub_step.new_client, of "m_hub (w_m w0)"] ok(2) by (simp add: hub_inv_def)
    ultimately show ?thesis using none same by blast
  next
    case RPage
    with run0 page_keeps none show ?thesis by (fastforce simp: NewRouter_def)
  next
    case (RAuth ar)
    with run0 auth_hnd_keeps none show ?thesis by (fastforce simp: NewRouter_def)
  next
    case RHealth
    with run0 none show ?thesis by (auto simp: NewRouter_def)
  qed (use rq in simp)
qed

lemma pg_simps [simp]:
  "pg_pool (with_m m x) = (pg_pool x)\<lparr>p_m := m\<rparr>" "pg_m (with_m m x) = m" "pg_committed (with_m m x) = pg_committed x"
  "pg_runs (with_m m x) = pg_runs x" "pg_m (x\<lparr>pg_runs := hs\<rparr>) = pg_m x" "pg_m (x\<lparr>pg_committed := d\<rparr>) = pg_m x"
  "pg_m (x\<lparr>pg_sys := y\<rparr>) = p_m (sy_pool y)"
  by (simp_all add: with_m_def pg_m_def set_m_def sys_m_def)

lemma pg_m_pool: "p_m (pg_pool x) = pg_m x"
  by (simp add: pg_m_def sys_m_def)

lemma read_w_m: "w_m (read_w x) = (pg_m x)\<lparr>m_db := pg_committed x\<rparr>"
  by (simp add: read_w_def)

text \<open>Only the threads move.\<close>

lemma prog_ok_runs:
  "prog_ok f x \<Longrightarrow> sy_pool y = pg_pool x \<Longrightarrow> runs_ok hs (p_accepting (pg_pool x)) \<Longrightarrow> prog_ok f (x\<lparr>pg_sys := y, pg_runs := hs\<rparr>)"
  "prog_ok f x \<Longrightarrow> runs_ok hs (p_accepting (pg_pool x)) \<Longrightarrow> prog_ok f (x\<lparr>pg_runs := hs\<rparr>)"
  "prog_ok f x \<Longrightarrow> sy_pool y = pg_pool x \<Longrightarrow> prog_ok f (x\<lparr>pg_sys := y\<rparr>)"
  by (simp_all add: prog_ok_def pg_m_pool)

text \<open>Only the manager's hub, tables, servers or flag change.\<close>

lemma prog_ok_m:
  assumes "prog_ok f x" "m_queue m = m_queue (pg_m x)" "m_timers m = m_timers (pg_m x)" "m_closed (pg_m x) \<longrightarrow> m_closed m"
    and "hub_ok (m_hub m)" "tables_ok True (m_db m)" "\<not> f \<longrightarrow> transfers (m_db m) = transfers (m_db (pg_m x))"
  shows "prog_ok f (with_m m x)"
proof -
  from assms(1) have "pool_view f (pg_pool x)" by (simp add: prog_ok_def)
  then have "pool_view f ((pg_pool x)\<lparr>p_m := m\<rparr>)"
    using assms by (elim pool_view_frame) (simp_all add: live_def pg_m_pool)
  with assms show ?thesis by (simp add: prog_ok_def)
qed

lemma prog_ok_hub: "prog_ok f x \<Longrightarrow> hub_ok h \<Longrightarrow> prog_ok f (with_m ((pg_m x)\<lparr>m_hub := h\<rparr>) x)"
  by (rule prog_ok_m) (simp_all add: prog_ok_def)

lemma prog_ok_hubD: "prog_ok f x \<Longrightarrow> hub_ok (m_hub (pg_m x))"
  using pool_view_hub [of f "pg_pool x"] by (simp add: prog_ok_def pg_m_pool)

lemma prog_ok_request:
  assumes ok: "prog_ok f x" and rq: "\<forall>wrq. hr_body rq \<noteq> RWebhook wrq"
    and run: "serve env rq (sy_auth (pg_sys x), read_w x) = (r, au, w)"
    and writer: "m_db (w_m w) = pg_committed x \<or> m_db (pg_m x) = pg_committed x"
  shows "prog_ok f (with_m ((w_m w)\<lparr>m_db := (if m_db (w_m w) = pg_committed x then m_db (pg_m x) else m_db (w_m w))\<rparr>)
        (x\<lparr>pg_sys := (pg_sys x)\<lparr>sy_auth := au\<rparr>, pg_committed := m_db (w_m w)\<rparr>))"
proof -
  let ?x = "x\<lparr>pg_sys := (pg_sys x)\<lparr>sy_auth := au\<rparr>, pg_committed := m_db (w_m w)\<rparr>"
  from ok have tab: "tables_ok True (m_db (pg_m x))" "tables_ok True (pg_committed x)" by (simp_all add: prog_ok_def)
  from serve_frame [OF _ _ rq run] tab(2) prog_ok_hubD [OF ok] obtain d h where
    w: "w_m w = (pg_m x)\<lparr>m_db := d, m_hub := h\<rparr>" "db_ok d" "hub_ok h" "transfers d = transfers (pg_committed x)"
    by (auto simp: read_w_m tables_ok_def)
  from tables_ok_frame [OF tab(2) w(2,4)] have d: "tables_ok True d" .
  from ok d have "prog_ok f ?x" by (simp add: prog_ok_def pg_m_pool w(1))
  then show ?thesis
    by (rule prog_ok_m) (use w writer tab d in \<open>auto simp: pg_m_pool\<close>)
qed

lemma prog_ok_statement:
  assumes ok: "prog_ok f x" and d: "m_db (pg_m x) = pg_committed x" "store_step (pg_committed x) d" "transfers d = transfers (pg_committed x)"
  shows "prog_ok f (with_m ((pg_m x)\<lparr>m_db := d\<rparr>) (x\<lparr>pg_committed := d\<rparr>))"
proof -
  from ok have tab: "tables_ok True (pg_committed x)" by (simp add: prog_ok_def)
  then have "db_ok d" using store_sys.inv_step [OF d(2)] by (simp add: tables_ok_def)
  from tables_ok_frame [OF tab this d(3)] have "tables_ok True d" .
  moreover from this ok have "prog_ok f (x\<lparr>pg_committed := d\<rparr>)" by (simp add: prog_ok_def)
  ultimately show ?thesis using d prog_ok_hubD [OF ok] by (intro prog_ok_m) simp_all
qed

lemma prog_inv_step: "prog_step M f st st' \<Longrightarrow> prog_inv f st \<Longrightarrow> prog_inv f st'"
proof (induction rule: prog_step.induct)
  case (arrive A x qe rq ap w ev)
  then have ok: "prog_ok f x" by (simp add: prog_inv_def)
  then have "runs_ok (pg_runs x @ [\<lparr>rn_app = ap, rn_max_retries = effective_retries (sy_handler (pg_sys x)) ap,
      rn_backoff = effective_backoff (sy_handler (pg_sys x)) ap, rn_pc = HNext (ev_records ev)\<rparr>]) (p_accepting (pg_pool x))"
    using arrive(5) by (simp add: prog_ok_def runs_ok_def)
  with ok show ?case by (simp add: prog_inv_def prog_ok_runs)
next
  case (create x us h vs t rec recs re fault d)
  then have ok: "prog_ok f x" by (simp add: prog_inv_def)
  let ?job = "run_job h re rec"
  have job: "j_transfer ?job = pending_transfer re (rn_app h) (rn_max_retries h) rec" "jid ?job = re_uuid re"
    "t_status (j_transfer ?job) = StatusPending" "j_retry_count ?job = 0" "j_max_retries ?job = rn_max_retries h"
    by (simp_all add: record_job_def pending_transfer_def)
  from ok create(1) have r: "in_int64 (rn_max_retries h)" and runs: "runs_ok (us @ h # vs) (p_accepting (pg_pool x))"
    and view: "pool_view f (pg_pool x)" and tab: "tables_ok True (m_db (pg_m x))"
    by (simp_all add: prog_ok_def runs_ok_def)
  from create(4) CreateTransfer_Inr [OF create(4)]
  have c: "CreateTransfer None (pending_transfer re (rn_app h) (rn_max_retries h) rec) (m_db (pg_m x)) = Inr d" by simp
  from pool_view_create [OF view, of fault ?job d] create(3,4) job r
  have "pool_view f ((pg_pool x)\<lparr>p_m := (pg_m x)\<lparr>m_db := d\<rparr>, p_accepting := p_accepting (pg_pool x) @ [?job],
      p_submitted := insert (re_uuid re) (p_submitted (pg_pool x))\<rparr>)" by (simp add: pg_m_pool)
  moreover have "tables_ok True d"
    using tab tstore.create_ok [OF _ c] CreateTransfer_Inr [OF c] by (auto simp: tables_ok_def valid_statuses_def pending_transfer_def)
  ultimately show ?case using ok runs_ok_create [OF runs, of re rec recs] create(2) by (simp add: prog_inv_def prog_ok_def)
next
  case (enqueue x us h vs re rec recs)
  then have ok: "prog_ok f x" by (simp add: prog_inv_def)
  with enqueue(1) have runs: "runs_ok (us @ h # vs) (p_accepting (pg_pool x))" and view: "pool_view f (pg_pool x)"
    by (simp_all add: prog_ok_def)
  note q = runs_ok_enqueue [OF runs enqueue(2)]
  from pool_view_enqueue [OF view conjunct1 [OF q]] q ok show ?case
    by (simp add: prog_inv_def prog_ok_def pg_m_pool) (simp add: Enqueue_def)
next
  case (notify x us h vs re rec recs)
  then have ok: "prog_ok f x" by (simp add: prog_inv_def)
  let ?msg = "queued_msg re (rn_app h) rec (j_transfer (run_job h re rec))"
  from Broadcast_ok [OF prog_ok_hubD [OF ok], of ?msg] obtain g where "Broadcast ?msg (m_hub (pg_m x)) = Inr g" "hub_ok g" by blast
  with prog_ok_hubD [OF ok]
  have "\<exists>g'. (if QueueDepth (pg_m x) \<le> 1000 then Broadcast ?msg (m_hub (pg_m x)) else Inr (m_hub (pg_m x))) = Inr g' \<and> hub_ok g'"
    by (cases "QueueDepth (pg_m x) \<le> 1000") simp_all
  then obtain g' where
    g': "(if QueueDepth (pg_m x) \<le> 1000 then Broadcast ?msg (m_hub (pg_m x)) else Inr (m_hub (pg_m x))) = Inr g'" "hub_ok g'" by blast
  from prog_ok_hub [OF ok g'(2)] have hub: "prog_ok f (with_m ((pg_m x)\<lparr>m_hub := g'\<rparr>) x)" .
  have "runs_ok (us @ h\<lparr>rn_pc := HNext recs\<rparr> # vs) (p_accepting (pg_pool x))"
    using ok notify(1,2) by (intro runs_ok_move) (simp_all add: prog_ok_def)
  with prog_ok_runs(2) [OF hub] show ?case unfolding g'(1) by (simp add: prog_inv_def)
next
  case (request env x rq r au w)
  then show ?case using prog_ok_request [of f x rq env r au w] by (simp add: prog_inv_def)
next
  case (statement x d)
  then show ?case using prog_ok_statement [of f x d] by (simp add: prog_inv_def)
next
  case (commit x)
  then show ?case by (simp add: prog_inv_def prog_ok_def)
next
  case (commit_fails x)
  then show ?case using prog_ok_m [of f x "(pg_m x)\<lparr>m_db := pg_committed x\<rparr>"] prog_ok_hubD [of f x]
    by (simp add: prog_inv_def prog_ok_def)
next
  case (work x st)
  then have ok: "prog_ok f x" by (simp add: prog_inv_def)
  then have "pool_view f (pg_pool x)" by (simp add: prog_ok_def)
  from pool_view_work [OF work(1) this] obtain p' where p': "st = Inr p'" "pool_view f p'" by blast
  with work_tables [of M f "pg_pool x" p'] work(1) ok have "tables_ok True (m_db (p_m p'))"
    by (simp add: prog_ok_def pg_m_pool)
  with p' ok work(2) [OF p'(1)] show ?case by (simp add: prog_inv_def prog_ok_def)
next
  case (hub_moves x st)
  then have ok: "prog_ok f x" by (simp add: prog_inv_def)
  from prog_ok_hubD [OF ok] have "hub_inv (Inr (m_hub (pg_m x)))" by (simp add: hub_inv_def)
  with hub_inv_step [OF hub_moves(1)] obtain h where "st = Inr h" "hub_ok h" by (auto simp: hub_inv_def split: sum.splits)
  with prog_ok_hub [OF ok] show ?case by (simp add: prog_inv_def)
next
  case (tick x fault now)
  then have ok: "prog_ok f x" by (simp add: prog_inv_def)
  from prog_ok_hubD [OF ok] have "hub_ok (m_hub (w_m (read_w x)))" by (simp add: read_w_m)
  then show ?case
  proof (cases rule: stats_tick_ok [where fault = fault and now = now])
    case 1
    with prog_ok_hub [OF ok prog_ok_hubD [OF ok]] show ?thesis by (simp add: prog_inv_def read_w_m)
  next
    case (2 h)
    with prog_ok_hub [OF ok] show ?thesis by (simp add: prog_inv_def read_w_m)
  qed
next
  case (stop x)
  then show ?case using prog_ok_m [of f x "Stop (pg_m x)"] prog_ok_hubD [of f x]
    by (simp add: prog_inv_def Stop_def) (simp add: prog_ok_def)
next
  case (servers x world)
  then show ?case using prog_ok_m [of f x "(pg_m x)\<lparr>m_world := world\<rparr>"] prog_ok_hubD [of f x]
    by (simp add: prog_inv_def) (simp add: prog_ok_def)
next
  case (duplicate x us h vs rec recs since now d)
  then have ok: "prog_ok f x" by (simp add: prog_inv_def)
  with duplicate(1,2) have "runs_ok (us @ h\<lparr>rn_pc := HNext recs\<rparr> # vs) (p_accepting (pg_pool x))"
    by (intro runs_ok_move) (simp_all add: prog_ok_def)
  with ok show ?case by (simp add: prog_inv_def prog_ok_runs)
next
  case (mark x us h vs rec recs since now d)
  then have ok: "prog_ok f x" by (simp add: prog_inv_def)
  with mark(1,2) have "runs_ok (us @ h\<lparr>rn_pc := HMarked now rec recs\<rparr> # vs) (p_accepting (pg_pool x))"
    by (intro runs_ok_move) (simp_all add: prog_ok_def)
  with ok show ?case by (simp add: prog_inv_def prog_ok_runs)
qed (simp_all add: prog_inv_def prog_ok_runs(2,3), (simp_all add: prog_ok_runs(2) runs_ok_move prog_ok_def)?)

lemma sys_init_accepting: "sys_init (Inr y) \<Longrightarrow> p_accepting (sy_pool y) = []"
  by (auto simp: sys_init_def elim!: main_start_pool) (simp_all add: Start_def)

lemma prog_inv_init: "prog_init st \<Longrightarrow> prog_inv f st"
proof -
  assume "prog_init st"
  then obtain y where y: "sys_init (Inr y)" "st = Inr \<lparr>pg_sys = y, pg_committed = m_db (sys_m y), pg_runs = []\<rparr>"
    by (auto simp: prog_init_def)
  from sys.inv_init [OF y(1), of f] have ok: "pool_ok f (sy_pool y)" "tables_ok f (m_db (sys_m y))" by (simp_all add: sys_inv_def)
  from sys_init_accepting [OF y(1)] have "p_accepting (sy_pool y) = []" .
  moreover from ok(1) have "pool_view f (sy_pool y)" unfolding pool_view_def by (intro exI [of _ "m_db (p_m (sy_pool y))"]) simp
  ultimately show ?thesis using ok(2) y(2) by (simp add: prog_inv_def prog_ok_def pg_m_def runs_ok_def tables_ok_def)
qed

interpretation prog: invariant_system prog_init "prog_step M f" "prog_inv f" for M f
  by unfold_locales (auto intro: prog_inv_init prog_inv_step)

section \<open>What it says\<close>

lemma prog_ok_accepting:
  assumes "prog_ok f x" "h \<in> set (pg_runs x)" "rn_pc h = HCreated re rec recs"
  shows "(False, run_job h re rec) \<in> set (live (pg_pool x))"
proof -
  from assms(2) obtain us vs where "pg_runs x = us @ h # vs" by (auto dest: split_list)
  with assms(1) runs_ok_enqueue [of us h vs "p_accepting (pg_pool x)" re rec recs] assms(3)
  have "run_job h re rec \<in> set (p_accepting (pg_pool x))" by (simp add: prog_ok_def)
  then show ?thesis by (auto simp: live_def)
qed

lemma prog_ok_live:
  "prog_ok f x \<Longrightarrow> distinct (map (jid \<circ> snd) (live (pg_pool x))) \<and> (jid \<circ> snd) ` set (live (pg_pool x)) \<subseteq> p_submitted (pg_pool x)"
  unfolding prog_ok_def pool_view_def pool_ok_with_db jobs_ok_def by blast

lemma prog_ok_rows:
  assumes "prog_ok False x" "i \<in> p_submitted (pg_pool x)"
  shows "find_transfer (m_db (pg_m x)) i \<noteq> None \<and>
     (i \<in> (jid \<circ> snd) ` set (live (pg_pool x)) \<or> (\<exists>s. row_status (m_db (pg_m x)) i = Some s \<and> final_status s))"
proof -
  from assms(1) have "jobs_ok False (live (pg_pool x)) (row_status (m_db (pg_m x))) (p_submitted (pg_pool x))"
    by (simp add: prog_ok_def pool_view_ok pool_ok_def pg_m_pool)
  with assms(2) have "row_status (m_db (pg_m x)) i \<noteq> None"
    "i \<in> (jid \<circ> snd) ` set (live (pg_pool x)) \<or> (\<exists>s. row_status (m_db (pg_m x)) i = Some s \<and> final_status s)"
    unfolding jobs_ok_def by blast+
  then show ?thesis by (simp add: row_status_def)
qed

section \<open>An example run\<close>

text \<open>A request arrives at the sample system, is marked, cannot ask for active transfers and writes its row.\<close>

lemma sample_prog_reach:
  "\<exists>x. reach prog_init (prog_step sample_lib f) (Inr x) \<and> p_submitted (pg_pool x) = {''u1''} \<and> p_accepting (pg_pool x) \<noteq> []"
proof -
  let ?y = "sample_sys []"
  define x where "x = \<lparr>pg_sys = ?y, pg_committed = m_db (sys_m ?y), pg_runs = []\<rparr>"
  have m: "pg_m x = sys_m ?y" by (simp add: x_def pg_m_def)
  have 0: "reach prog_init (prog_step sample_lib f) (Inr x)"
    by (rule reach_init) (auto simp: prog_init_def x_def intro!: exI [of _ ?y] sample_sys_init)
  obtain rec where ev: "ev_records sample_event = [rec]" by (simp add: sample_event_def)
  have read: "read_w x = sys_w ?y" by (simp add: read_w_def m sys_w_def) (simp add: x_def)
  have hd: "sy_handler (pg_sys x) = sample_sys_handler" by (simp add: x_def sample_sys_def)
  from sample_sys_resolve [of "[]"] obtain w where
    w: "resolve_app tag_aead (sy_handler (pg_sys x)) sample_req_env sample_request (read_w x) = Inr (sample_app, w)"
    unfolding read hd by blast
  have r: "in_int64 (effective_retries (sy_handler (pg_sys x)) sample_app)"
    by (simp add: hd effective_retries_def sample_sys_handler_def sample_app_def int64)
  have body: "rq_body sample_request = Some sample_event" by (simp add: sample_request_def)
  let ?h = "\<lparr>rn_app = sample_app, rn_max_retries = effective_retries (sy_handler (pg_sys x)) sample_app,
      rn_backoff = effective_backoff (sy_handler (pg_sys x)) sample_app, rn_pc = HNext [rec]\<rparr>"
  let ?x1 = "x\<lparr>pg_sys := (pg_sys x)\<lparr>sy_apps := w_apps w\<rparr>, pg_runs := [?h]\<rparr>"
  have "prog_step sample_lib f (Inr x) (Inr ?x1)"
    using prog_step.arrive [OF w sample_verify body, of sample_lib f] r ev by (simp add: x_def)
  with 0 have 1: "reach prog_init (prog_step sample_lib f) (Inr ?x1)" by (rule reach_step)
  obtain d where d: "IsDuplicate 0 0 (run_key ?h rec) (sy_dedup (pg_sys ?x1)) = (False, d)"
    by (simp add: IsDuplicate_def x_def sample_sys_def)
  let ?x2 = "?x1\<lparr>pg_sys := (pg_sys ?x1)\<lparr>sy_dedup := d\<rparr>, pg_runs := [?h\<lparr>rn_pc := HMarked 0 rec []\<rparr>]\<rparr>"
  have "prog_step sample_lib f (Inr ?x1) (Inr ?x2)"
    using prog_step.mark [of ?x1 "[]" ?h "[]" rec "[]" 0 0 d sample_lib f] d by simp
  with 1 have 2: "reach prog_init (prog_step sample_lib f) (Inr ?x2)" by (rule reach_step)
  let ?x3 = "?x2\<lparr>pg_runs := [?h\<lparr>rn_pc := HChecked 0 rec []\<rparr>]\<rparr>"
  have "prog_step sample_lib f (Inr ?x2) (Inr ?x3)"
    using prog_step.inactive [of ?x2 "[]" "?h\<lparr>rn_pc := HMarked 0 rec []\<rparr>" "[]" 0 rec "[]" "Some ''disk I/O error''" sample_lib f]
    by (simp add: HasActiveTransfer_def)
  with 2 have 3: "reach prog_init (prog_step sample_lib f) (Inr ?x3)" by (rule reach_step)
  let ?re = "sample_rec_env None"
  have m3: "m_db (pg_m ?x3) = sample_sys_db []"
    by (simp add: pg_m_def sys_m_def) (simp add: x_def sample_sys_def Start_def NewManager_def)
  obtain d' where d': "CreateTransfer None (pending_transfer ?re sample_app (rn_max_retries ?h) rec) (m_db (pg_m ?x3)) = Inr d'"
    unfolding m3 by (simp add: CreateTransfer_def pending_transfer_def sample_sys_db_def) (simp add: sample_sealed_app_def sample_app_def)
  have pool: "p_submitted (pg_pool x) = {}" by (simp add: x_def sample_sys_def Start_def)
  have id: "re_uuid ?re = ''u1''" by (simp add: sample_rec_env_def)
  define x4 where "x4 = ?x3\<lparr>pg_sys := (pg_sys ?x3)\<lparr>sy_pool := (pg_pool ?x3)\<lparr>p_m := (pg_m ?x3)\<lparr>m_db := d'\<rparr>,
               p_accepting := p_accepting (pg_pool ?x3) @ [run_job (?h\<lparr>rn_pc := HChecked 0 rec []\<rparr>) ?re rec],
               p_submitted := insert (re_uuid ?re) (p_submitted (pg_pool ?x3))\<rparr>\<rparr>,
             pg_runs := [] @ ?h\<lparr>rn_pc := HChecked 0 rec [], rn_pc := HCreated ?re rec []\<rparr> # []\<rparr>"
  have "prog_step sample_lib f (Inr ?x3) (Inr x4)"
    unfolding x4_def by (rule prog_step.create [where t = 0 and fault = None]) (use d' pool in simp_all)
  with 3 have "reach prog_init (prog_step sample_lib f) (Inr x4)" by (rule reach_step)
  moreover have "p_submitted (pg_pool x4) = {''u1''}" "p_accepting (pg_pool x4) \<noteq> []" by (simp_all add: x4_def pool id)
  ultimately show ?thesis by blast
qed

end
