(* ===== verification/FG_Main.thy ===== *)
theory FG_Main
  imports FG_System
begin

text \<open>
  The life of the process, \<open>cmd/flowgate/main.go\<close> from the moment the server runs: it serves until a signal (or an error of
  the server) cancels the context, then drains the HTTP server for at most 30 seconds, stops the workers and waits for
  them, closes the store and returns.

  The context that the signal cancels is the one the workers use for MinIO, so from then on their calls are those of a
  library \<open>Mc\<close> that is \<open>cancelled\<close>; a transfer that was already running may still end either way. The
  writes of the workers do not use the context: \<open>UpdateTransfer\<close> ignores it. The goroutine of the
  statistics ends with the context.
\<close>

section \<open>The process\<close>

datatype phase = Serving | Draining | Stopping | Closing | Returned

text \<open>
  \<open>pr_begun\<close>: the transfers that were running when the context was cancelled; \<open>pr_drained\<close>: \<open>Shutdown\<close> returned
  without an error, so that no handler is left.
\<close>

record ('c, 'w) main_state =
  pr_sys :: "('c, 'w) system"
  pr_phase :: phase
  pr_begun :: "string set"
  pr_drained :: bool

definition begun :: "('c, 'w) system \<Rightarrow> string set" where
  "begun y = {jid job | now job. Started now job \<in> set (p_pool (sy_pool y))}"

text \<open>\<open><-ctx.Done()\<close>\<close>

definition cancel :: "('c, 'w) main_state \<Rightarrow> ('c, 'w) main_state" where
  "cancel x = x\<lparr>pr_phase := Draining, pr_begun := begun (pr_sys x)\<rparr>"

text \<open>\<open>srv.Shutdown\<close> has returned, \<open>mgr.Stop\<close> closes the manager and begins to wait.\<close>

definition shutdown_done :: "bool \<Rightarrow> ('c, 'w) main_state \<Rightarrow> ('c, 'w) main_state" where
  "shutdown_done drained x =
     x\<lparr>pr_phase := Stopping, pr_drained := drained, pr_sys := set_m (Stop (sys_m (pr_sys x))) (pr_sys x)\<rparr>"

definition workers_gone :: "('c, 'w) system \<Rightarrow> bool" where
  "workers_gone y \<longleftrightarrow> list_all (\<lambda>W. W = Exited) (p_pool (sy_pool y))"

definition set_pool :: "('c, 'w) main_state \<Rightarrow> ('c, 'w) pool \<Rightarrow> ('c, 'w) main_state" where
  "set_pool x p = x\<lparr>pr_sys := (pr_sys x)\<lparr>sy_pool := p\<rparr>\<rparr>"

text \<open>The workers and timers after the cancellation.\<close>

inductive late_work ::
  "('c, 'o, 'w) minio_lib \<Rightarrow> ('c, 'o, 'w) minio_lib \<Rightarrow> bool \<Rightarrow> panic + ('c, 'w) main_state \<Rightarrow> panic + ('c, 'w) main_state \<Rightarrow> bool"
  for M :: "('c, 'o, 'w) minio_lib" and Mc :: "('c, 'o, 'w) minio_lib" and faulty :: bool where
  cancelled_work: "pr_phase x \<in> {Draining, Stopping, Closing} \<Longrightarrow> work_step Mc faulty (Inr (sy_pool (pr_sys x))) st \<Longrightarrow>
    late_work M Mc faulty (Inr x) (map_sum id (set_pool x) st)"
| late_finish: "pr_phase x \<in> {Draining, Stopping, Closing} \<Longrightarrow>
    p_pool (sy_pool (pr_sys x)) = us @ Started now job # vs \<Longrightarrow> jid job \<in> pr_begun x \<Longrightarrow> env_ok faulty e \<Longrightarrow>
    late_work M Mc faulty (Inr x)
      (map_sum id (\<lambda>m. set_pool x ((sy_pool (pr_sys x))\<lparr>p_m := m, p_pool := us @ Idle # vs\<rparr>))
        (process_finish M e now job (p_m (sy_pool (pr_sys x)))))"

inductive main_step ::
  "('c, 'o, 'w) minio_lib \<Rightarrow> ('c, 'o, 'w) minio_lib \<Rightarrow> bool \<Rightarrow> panic + ('c, 'w) main_state \<Rightarrow> panic + ('c, 'w) main_state \<Rightarrow> bool"
  for M :: "('c, 'o, 'w) minio_lib" and Mc :: "('c, 'o, 'w) minio_lib" and faulty :: bool where
  running: "pr_phase x = Serving \<Longrightarrow> sys_step M faulty (Inr (pr_sys x)) st \<Longrightarrow>
    (\<And>y. st = Inr y \<Longrightarrow> \<not> m_closed (sys_m y)) \<Longrightarrow>
    main_step M Mc faulty (Inr x) (map_sum id (\<lambda>y. x\<lparr>pr_sys := y\<rparr>) st)"
| signal: "pr_phase x = Serving \<Longrightarrow> main_step M Mc faulty (Inr x) (Inr (cancel x))"
| request: "pr_phase x \<in> {Draining, Stopping, Closing} \<Longrightarrow> \<not> pr_drained x \<Longrightarrow> request_ok faulty env rq (pr_sys x) \<Longrightarrow>
    serve env rq (sy_auth (pr_sys x), sys_w (pr_sys x)) = (r, au, w) \<Longrightarrow>
    main_step M Mc faulty (Inr x) (Inr (x\<lparr>pr_sys := put_w au w (pr_sys x)\<rparr>))"
| late: "late_work M Mc faulty (Inr x) st \<Longrightarrow> main_step M Mc faulty (Inr x) st"
| hub_moves: "pr_phase x \<in> {Draining, Stopping, Closing} \<Longrightarrow> hub_step (Inr (m_hub (sys_m (pr_sys x)))) st \<Longrightarrow>
    main_step M Mc faulty (Inr x)
      (map_sum id (\<lambda>h. x\<lparr>pr_sys := set_m ((sys_m (pr_sys x))\<lparr>m_hub := h\<rparr>) (pr_sys x)\<rparr>) st)"
| sweep_dedup: "pr_phase x \<in> {Draining, Stopping, Closing} \<Longrightarrow>
    main_step M Mc faulty (Inr x) (Inr (x\<lparr>pr_sys := (pr_sys x)\<lparr>sy_dedup := dedup_cleanup now (sy_dedup (pr_sys x))\<rparr>\<rparr>))"
| sweep_apps: "pr_phase x \<in> {Draining, Stopping, Closing} \<Longrightarrow>
    main_step M Mc faulty (Inr x) (Inr (x\<lparr>pr_sys := (pr_sys x)\<lparr>sy_apps := cache_cleanup now (sy_apps (pr_sys x))\<rparr>\<rparr>))"
| servers: "pr_phase x \<in> {Draining, Stopping, Closing} \<Longrightarrow>
    main_step M Mc faulty (Inr x) (Inr (x\<lparr>pr_sys := set_m ((sys_m (pr_sys x))\<lparr>m_world := world\<rparr>) (pr_sys x)\<rparr>))"
| shutdown: "pr_phase x = Draining \<Longrightarrow> main_step M Mc faulty (Inr x) (Inr (shutdown_done drained x))"
| waited: "pr_phase x = Stopping \<Longrightarrow> workers_gone (pr_sys x) \<Longrightarrow>
    main_step M Mc faulty (Inr x) (Inr (x\<lparr>pr_phase := Closing\<rparr>))"
| closed: "pr_phase x = Closing \<Longrightarrow> main_step M Mc faulty (Inr x) (Inr (x\<lparr>pr_phase := Returned\<rparr>))"

definition main_init :: "panic + ('c, 'w) main_state \<Rightarrow> bool" where
  "main_init st \<longleftrightarrow>
     (\<exists>y. sys_init (Inr y) \<and> st = Inr \<lparr>pr_sys = y, pr_phase = Serving, pr_begun = {}, pr_drained = False\<rparr>)"

section \<open>Every step keeps the invariant\<close>

definition main_inv :: "bool \<Rightarrow> panic + ('c, 'w) main_state \<Rightarrow> bool" where
  "main_inv faulty st =
     (case st of
        Inl p \<Rightarrow> False
      | Inr x \<Rightarrow>
          sys_inv faulty (Inr (pr_sys x)) \<and>
          (m_closed (sys_m (pr_sys x)) \<longleftrightarrow> pr_phase x \<in> {Stopping, Closing, Returned}) \<and>
          (pr_phase x \<in> {Closing, Returned} \<longrightarrow> workers_gone (pr_sys x)))"

lemma set_pool_sel [simp]:
  "pr_sys (set_pool x p) = (pr_sys x)\<lparr>sy_pool := p\<rparr>" "pr_phase (set_pool x p) = pr_phase x"
  "pr_begun (set_pool x p) = pr_begun x" "pr_drained (set_pool x p) = pr_drained x"
  by (simp_all add: set_pool_def)

lemma set_pool_inj [simp]: "set_pool x p = set_pool x q \<longleftrightarrow> p = q"
proof
  assume "set_pool x p = set_pool x q"
  then have "sy_pool (pr_sys (set_pool x p)) = sy_pool (pr_sys (set_pool x q))" by simp
  then show "p = q" by simp
qed simp

text \<open>Seen from the system, what the workers do late is an ordinary step of the pool.\<close>

lemma late_work_step:
  "late_work M Mc f st st' \<Longrightarrow> st = Inr x \<Longrightarrow> pr_phase x \<in> {Draining, Stopping, Closing} \<and>
   (\<exists>st1. st' = map_sum id (set_pool x) st1 \<and>
     (work_step Mc f (Inr (sy_pool (pr_sys x))) st1 \<or> work_step M f (Inr (sy_pool (pr_sys x))) st1))"
proof (induction rule: late_work.induct)
  case (late_finish y us now job vs e)
  let ?p = "\<lambda>m. (sy_pool (pr_sys y))\<lparr>p_m := m, p_pool := us @ Idle # vs\<rparr>"
  have "map_sum id (\<lambda>m. set_pool y (?p m)) r = map_sum id (set_pool y) (map_sum id ?p r)" for r :: "panic + ('a, 'c) mstate"
    by (cases r) simp_all
  with late_finish work_step.finish [OF late_finish(2,4), of M] show ?case by blast
qed blast

lemma late_work_inv:
  fixes M Mc :: "('c, 'o, 'w) minio_lib"
  assumes "late_work M Mc f (Inr x) st" "sys_inv f (Inr (pr_sys x))"
  shows "\<exists>p (M' :: ('c, 'o, 'w) minio_lib). st = Inr (set_pool x p) \<and> sys_inv f (Inr (pr_sys (set_pool x p))) \<and>
     work_step M' f (Inr (sy_pool (pr_sys x))) (Inr p)"
proof -
  from late_work_step [OF assms(1) refl] obtain st1 and M' :: "('c, 'o, 'w) minio_lib" where s: "st = map_sum id (set_pool x) st1"
    and w: "work_step M' f (Inr (sy_pool (pr_sys x))) st1" by blast
  from sys_inv_step [OF sys_step.work [OF w] assms(2)] obtain p where "st1 = Inr p"
    "sys_inv f (Inr ((pr_sys x)\<lparr>sy_pool := p\<rparr>))" by (cases st1) (auto simp: sys_inv_def)
  with s w show ?thesis by auto
qed

lemma workers_gone_steps:
  "work_step M f (Inr p) (Inr p') \<Longrightarrow> list_all (\<lambda>W. W = Exited) (p_pool p) \<Longrightarrow> list_all (\<lambda>W. W = Exited) (p_pool p')"
  using stopped_step [of M f "Inr p" "Inr p'" p p'] by (auto simp: list_all_iff)

lemma serve_pool:
  assumes "sys_inv f (Inr y)" "request_ok f env rq y" "serve env rq (sy_auth y, sys_w y) = (r, au, w)"
  shows "sys_inv f (Inr (put_w au w y)) \<and> m_closed (sys_m (put_w au w y)) = m_closed (sys_m y) \<and>
     p_pool (sy_pool (put_w au w y)) = p_pool (sy_pool y)"
proof -
  from serve_adds [OF assms] obtain js where js: "adds_to_pool f (sy_pool y) (w_m w) js" by blast
  from put_w_inv [OF js, of au] js show ?thesis by (auto simp: adds_to_pool_def sys_m_def pool_add_def)
qed

lemma sys_init_open: "sys_init (Inr y) \<Longrightarrow> \<not> m_closed (sys_m y)"
  by (auto simp: sys_init_def sys_m_def Start_def NewManager_def elim!: main_start_pool)

lemma main_inv_late:
  fixes M Mc :: "('c, 'o, 'w) minio_lib"
  assumes "late_work M Mc f (Inr x) st" "main_inv f (Inr x)"
  shows "main_inv f st"
proof -
  from assms(2) have inv: "sys_inv f (Inr (pr_sys x))" by (simp add: main_inv_def)
  from late_work_inv [OF assms(1) inv] obtain p and M' :: "('c, 'o, 'w) minio_lib" where p: "st = Inr (set_pool x p)"
    "sys_inv f (Inr (pr_sys (set_pool x p)))" "work_step M' f (Inr (sy_pool (pr_sys x))) (Inr p)" by blast
  from inv have "pool_ok f (sy_pool (pr_sys x))" by (simp add: sys_inv_def)
  from work_keeps [OF p(3) refl refl this] workers_gone_steps [OF p(3)] p(1,2) assms(2) show ?thesis
    by (auto simp: main_inv_def workers_gone_def sys_m_def)
qed

lemma main_inv_step: "main_step M Mc f st st' \<Longrightarrow> main_inv f st \<Longrightarrow> main_inv f st'"
proof (induction rule: main_step.induct)
  case (running x st)
  then have "sys_inv f st" by (auto simp: main_inv_def intro: sys_inv_step)
  with running show ?case by (cases st) (auto simp: main_inv_def sys_inv_def)
next
  case (request x env rq r au w)
  with serve_pool [of f "pr_sys x" env rq r au w] show ?case by (auto simp: main_inv_def workers_gone_def)
next
  case (late x st)
  then show ?case by (rule main_inv_late)
next
  case (hub_moves x st)
  then have "sys_inv f (map_sum id (\<lambda>h. set_m ((sys_m (pr_sys x))\<lparr>m_hub := h\<rparr>) (pr_sys x)) st)"
    using sys_inv_step [OF sys_step.hub_moves, of "pr_sys x" st f] by (simp add: main_inv_def)
  with hub_moves show ?case
    by (cases st) (auto simp: main_inv_def workers_gone_def sys_m_def set_m_def sys_inv_def)
next
  case (sweep_dedup x now)
  then show ?case by (simp add: main_inv_def workers_gone_def sys_inv_def sys_m_def)
next
  case (sweep_apps x now)
  then show ?case by (simp add: main_inv_def workers_gone_def sys_inv_def sys_m_def)
next
  case (servers x world)
  then have "sys_inv f (Inr (set_m ((sys_m (pr_sys x))\<lparr>m_world := world\<rparr>) (pr_sys x)))"
    using sys_inv_step [OF sys_step.servers, of f "pr_sys x" world] by (simp add: main_inv_def)
  with servers show ?case by (simp add: main_inv_def workers_gone_def sys_m_def set_m_def)
next
  case (shutdown x drained)
  then have "sys_inv f (Inr (set_m (Stop (sys_m (pr_sys x))) (pr_sys x)))"
    using sys_inv_step [OF sys_step.stop, of f "pr_sys x"] by (simp add: main_inv_def)
  with shutdown show ?case by (simp add: main_inv_def shutdown_done_def Stop_def sys_m_def set_m_def)
qed (auto simp: main_inv_def cancel_def)

interpretation main_sys: invariant_system main_init "main_step M Mc f" "main_inv f"
  for f and M Mc :: "('c, 'o, 'w) minio_lib"
proof unfold_locales
  fix st :: "panic + ('c, 'w) main_state"
  assume "main_init st"
  then show "main_inv f st"
    using sys.inv_init sys_init_open by (fastforce simp: main_init_def main_inv_def)
qed (auto intro: main_inv_step)

section \<open>What becomes of the jobs\<close>

text \<open>
  A transfer that was accepted, is not marked successful and was not running when the context was cancelled.
\<close>

definition doomed :: "string \<Rightarrow> panic + ('c, 'w) main_state \<Rightarrow> bool" where
  "doomed i st =
     (case st of
        Inl p \<Rightarrow> False
      | Inr x \<Rightarrow>
          pr_phase x \<noteq> Serving \<and> i \<in> p_submitted (sy_pool (pr_sys x)) \<and> i \<notin> pr_begun x \<and>
          row_status (m_db (sys_m (pr_sys x))) i \<noteq> Some StatusSuccess)"

lemma db_upd_status:
  "db_upd S k d d' \<Longrightarrow> row_status d' i = row_status d i \<or> i = k \<and> (\<exists>s \<in> S. row_status d' i = Some s)"
  by (cases "find_transfer d i")
    (auto simp: db_upd_def row_status_def update_transfer_row_def dest!: UpdateTransfer_find split: if_splits)

lemma cancelled_work_status:
  assumes "work_step Mc f (Inr p) (Inr p')" "cancelled Mc" "row_status (m_db (p_m p)) i \<noteq> Some StatusSuccess"
  shows "row_status (m_db (p_m p')) i \<noteq> Some StatusSuccess"
  using work_step_db [OF assms(1)] assms(2,3)
  by (auto simp: work_statuses_def dest!: db_upd_status [where i = i])

lemma doomed_late:
  assumes "late_work M Mc f (Inr x) st" "cancelled Mc" "main_inv f (Inr x)" "doomed i (Inr x)"
  shows "doomed i st"
proof -
  from assms(3) have inv: "sys_inv f (Inr (pr_sys x))" by (simp add: main_inv_def)
  from late_work_inv [OF assms(1) inv] obtain p and M' :: "('a, 'b, 'c) minio_lib" where p: "st = Inr (set_pool x p)"
    "work_step M' f (Inr (sy_pool (pr_sys x))) (Inr p)" by blast
  from inv have ok: "pool_ok f (sy_pool (pr_sys x))" by (simp add: sys_inv_def)
  from assms(1) have "row_status (m_db (p_m p)) i \<noteq> Some StatusSuccess"
  proof (cases rule: late_work.cases)
    case (cancelled_work st1)
    with p(1) have "st1 = Inr p" by (cases st1) auto
    with cancelled_work cancelled_work_status [of Mc f _ p i] assms(2,4) show ?thesis by (simp add: doomed_def sys_m_def)
  next
    case (late_finish us now job vs e)
    with p(1) have "process_finish M e now job (p_m (sy_pool (pr_sys x))) = Inr (p_m p)"
      by (cases "process_finish M e now job (p_m (sy_pool (pr_sys x)))") auto
    from db_upd_status [OF process_finish_db [OF this], of i] late_finish assms(4) show ?thesis
      by (auto simp: doomed_def sys_m_def)
  qed
  with assms(4) p(1) work_keeps [OF p(2) refl refl ok] show ?thesis by (simp add: doomed_def sys_m_def)
qed

lemma doomed_request:
  assumes inv: "sys_inv f (Inr y)" and rq: "request_ok f env rq y" "serve env rq (sy_auth y, sys_w y) = (r, au, w)"
    and i: "i \<in> p_submitted (sy_pool y)"
  shows "i \<in> p_submitted (sy_pool (put_w au w y)) \<and>
     row_status (m_db (sys_m (put_w au w y))) i = row_status (m_db (sys_m y)) i"
proof -
  from serve_adds [OF inv rq] obtain js where js: "adds_to_pool f (sy_pool y) (w_m w) js" by blast
  from put_w_inv [OF js, of au] have p: "sy_pool (put_w au w y) = pool_add js (w_m w) (sy_pool y)" by blast
  from inv i obtain row where "find_transfer (m_db (p_m (sy_pool y))) i = Some row"
    by (auto simp: sys_inv_def pool_ok_def jobs_ok_def row_status_def)
  with adds_fresh [OF js this] i show ?thesis by (simp add: row_status_def sys_m_def p) (simp add: pool_add_def)
qed

lemma doomed_step:
  "main_step M Mc f st st' \<Longrightarrow> cancelled Mc \<Longrightarrow> main_inv f st \<Longrightarrow> doomed i st \<Longrightarrow> doomed i st'"
proof (induction rule: main_step.induct)
  case (request x env rq r au w)
  then have "sys_inv f (Inr (pr_sys x))" "i \<in> p_submitted (sy_pool (pr_sys x))" by (simp_all add: main_inv_def doomed_def)
  from doomed_request [OF this(1) request(3,4) this(2)] request(7) show ?case by (simp add: doomed_def)
next
  case (late x st)
  show ?case by (rule doomed_late [OF late])
next
  case (hub_moves x st)
  then have "hub_inv (Inr (m_hub (sys_m (pr_sys x))))"
    by (simp add: main_inv_def sys_inv_def pool_ok_def hub_inv_def sys_m_def)
  with hub_inv_step [OF hub_moves(2)] obtain h where "st = Inr h" by (auto simp: hub_inv_def split: sum.splits)
  with hub_moves show ?case by (simp add: doomed_def set_m_def sys_m_def)
next
  case (shutdown x drained)
  then show ?case by (simp add: doomed_def shutdown_done_def set_m_def sys_m_def Stop_def)
qed (simp_all add: doomed_def set_m_def sys_m_def)

lemma doomed_steps:
  assumes "(main_step M Mc f)\<^sup>*\<^sup>* st st'" "cancelled Mc" "main_inv f st" "doomed i st"
  shows "main_inv f st' \<and> doomed i st'"
  using assms by (induction rule: rtranclp_induct) (auto intro: main_inv_step doomed_step)

section \<open>The workers come to an end\<close>

lemma late_keeps:
  assumes "late_work M Mc f (Inr x) st" "main_inv f (Inr x)"
  shows "\<exists>x'. st = Inr x' \<and> main_inv f (Inr x') \<and> pr_phase x' = pr_phase x \<and>
     pool_load (sy_pool (pr_sys x')) < pool_load (sy_pool (pr_sys x))"
proof -
  from assms(2) have inv: "sys_inv f (Inr (pr_sys x))" by (simp add: main_inv_def)
  from late_work_inv [OF assms(1) inv] obtain p and M' :: "('a, 'b, 'c) minio_lib" where p: "st = Inr (set_pool x p)"
    "work_step M' f (Inr (sy_pool (pr_sys x))) (Inr p)" by blast
  from inv have "pool_ok f (sy_pool (pr_sys x))" by (simp add: sys_inv_def)
  from work_decreases [OF p(2) refl refl this] main_inv_late [OF assms] p(1) show ?thesis by auto
qed

lemma late_no_infinite:
  assumes "main_inv f (Inr x)"
  shows "\<not> (\<exists>\<sigma>. \<sigma> 0 = Inr x \<and> (\<forall>i. late_work M Mc f (\<sigma> i) (\<sigma> (Suc i))))"
proof (intro notI, elim exE conjE)
  fix \<sigma> assume "\<sigma> 0 = Inr x" and step: "\<forall>i. late_work M Mc f (\<sigma> i) (\<sigma> (Suc i))"
  then have ok: "\<exists>y. \<sigma> i = Inr y \<and> main_inv f (Inr y)" for i
  proof (induction i)
    case (Suc i)
    then obtain y where "\<sigma> i = Inr y" "main_inv f (Inr y)" by blast
    with late_keeps [of M Mc f y] step [rule_format, of i] show ?case by auto
  qed (use assms in simp)
  define load where "load i = (case \<sigma> i of Inl _ \<Rightarrow> 0 | Inr y \<Rightarrow> pool_load (sy_pool (pr_sys y)))" for i
  have "load (Suc i) < load i" for i
  proof -
    from ok [of i] obtain y where y: "\<sigma> i = Inr y" "main_inv f (Inr y)" by blast
    with step have "late_work M Mc f (Inr y) (\<sigma> (Suc i))" by metis
    from late_keeps [OF this y(2)] y(1) show ?thesis by (auto simp: load_def)
  qed
  with no_descent [of load] show False by blast
qed

lemma late_stuck:
  assumes "main_inv f (Inr x)" "pr_phase x = Stopping" "\<nexists>st. late_work M Mc f (Inr x) st"
  shows "workers_gone (pr_sys x)"
proof -
  from assms(3) late_work.cancelled_work [of x Mc f _ M] assms(2) have "\<nexists>st. work_step Mc f (Inr (sy_pool (pr_sys x))) st" by blast
  with assms(1,2) stopped_progress [of f "sy_pool (pr_sys x)" Mc] show ?thesis
    by (simp add: main_inv_def sys_inv_def workers_gone_def sys_m_def list_all_iff)
qed

lemma late_settles:
  assumes "main_inv f (Inr x)" "pr_phase x = Stopping"
  shows "\<exists>x'. (late_work M Mc f)\<^sup>*\<^sup>* (Inr x) (Inr x') \<and> pr_phase x' = Stopping \<and> workers_gone (pr_sys x')"
  using assms
proof (induction "pool_load (sy_pool (pr_sys x))" arbitrary: x rule: less_induct)
  case less
  show ?case
  proof (cases "\<exists>st. late_work M Mc f (Inr x) st")
    case True
    then obtain st where st: "late_work M Mc f (Inr x) st" by blast
    from late_keeps [OF st less(2)] obtain y where y: "st = Inr y" "main_inv f (Inr y)" "pr_phase y = Stopping"
      "pool_load (sy_pool (pr_sys y)) < pool_load (sy_pool (pr_sys x))" using less(3) by auto
    from less(1) [OF y(4,2,3)] st y(1) show ?thesis by (meson converse_rtranclp_into_rtranclp)
  next
    case False
    with late_stuck [OF less(2,3)] less(3) show ?thesis by blast
  qed
qed

lemma late_main: "(late_work M Mc f)\<^sup>*\<^sup>* st st' \<Longrightarrow> (main_step M Mc f)\<^sup>*\<^sup>* st st'"
proof (induction rule: rtranclp_induct)
  case (step y z)
  then have "main_step M Mc f y z" by (cases y) (auto intro: main_step.late elim: late_work.cases)
  with step show ?case by simp
qed simp

lemma stopping_returns:
  assumes "main_inv f (Inr x)" "pr_phase x = Stopping"
  shows "\<exists>x'. (main_step M Mc f)\<^sup>*\<^sup>* (Inr x) (Inr x') \<and> pr_phase x' = Returned"
proof -
  from late_settles [OF assms] obtain y where y: "(late_work M Mc f)\<^sup>*\<^sup>* (Inr x) (Inr y)" "pr_phase y = Stopping"
    "workers_gone (pr_sys y)" by blast
  let ?c = "y\<lparr>pr_phase := Closing\<rparr>"
  have "main_step M Mc f (Inr y) (Inr ?c)" by (rule main_step.waited [OF y(2,3)])
  moreover have "main_step M Mc f (Inr ?c) (Inr (?c\<lparr>pr_phase := Returned\<rparr>))" by (rule main_step.closed) simp
  ultimately show ?thesis using late_main [OF y(1)] by (intro exI [of _ "?c\<lparr>pr_phase := Returned\<rparr>"]) (auto intro: rtranclp.rtrancl_into_rtrancl)
qed

section \<open>An example\<close>

text \<open>The sample system as a process.\<close>

definition sample_process :: "transfer_row list \<Rightarrow> (sample_client, sample_world) main_state" where
  "sample_process ts = \<lparr>pr_sys = sample_sys ts, pr_phase = Serving, pr_begun = {}, pr_drained = False\<rparr>"

lemma sample_process_init:
  "length ts \<le> 1 \<Longrightarrow> \<forall>r \<in> set ts. tr_app_id r = ''a1'' \<and> tr_status r \<in> valid_statuses \<Longrightarrow> main_init (Inr (sample_process ts))"
  using sample_sys_init [of ts] by (auto simp: main_init_def sample_process_def)

lemma pool_ok_row:
  assumes "pool_ok False (sy_pool y)" "(b, j) \<in> set (live (sy_pool y))"
  shows "jid j \<in> p_submitted (sy_pool y)" "row_status (m_db (sys_m y)) (jid j) \<noteq> Some StatusSuccess"
proof -
  from assms(1) have J: "jobs_ok False (live (sy_pool y)) (row_status (m_db (sys_m y))) (p_submitted (sy_pool y))"
    by (simp add: pool_ok_def sys_m_def)
  from assms(2) have "jid j \<in> (jid \<circ> snd) ` set (live (sy_pool y))" by force
  with J show "jid j \<in> p_submitted (sy_pool y)" unfolding jobs_ok_def by blast
  from J assms(2) have "row_status (m_db (sys_m y)) (jid j) = Some (expected_status b j)" by (auto simp: jobs_ok_def)
  then show "row_status (m_db (sys_m y)) (jid j) \<noteq> Some StatusSuccess" by (simp add: expected_status_def)
qed

section \<open>Properties\<close>

text \<open>
  C8: The process ends: once the context is cancelled the workers and timers cannot run for ever, whatever the servers
  answer and whatever the store does, so \<open>main\<close> can always return; and when \<open>Stop\<close> waits and nothing of the pool
  can move any more, every worker has returned and the wait is over.
\<close>

theorem main_returns:
  assumes "reach main_init (main_step M Mc faulty) (Inr x)" and "pr_phase x \<in> {Draining, Stopping}"
  shows "\<not> (\<exists>\<sigma>. \<sigma> 0 = Inr x \<and> (\<forall>i. late_work M Mc faulty (\<sigma> i) (\<sigma> (Suc i)))) \<and>
     (\<exists>x'. (main_step M Mc faulty)\<^sup>*\<^sup>* (Inr x) (Inr x') \<and> pr_phase x' = Returned) \<and>
     (pr_phase x = Stopping \<and> (\<nexists>st. late_work M Mc faulty (Inr x) st) \<longrightarrow> workers_gone (pr_sys x))"
proof -
  from main_sys.reach_inv [OF assms(1)] have inv: "main_inv faulty (Inr x)" .
  have "\<exists>x'. (main_step M Mc faulty)\<^sup>*\<^sup>* (Inr x) (Inr x') \<and> pr_phase x' = Returned"
  proof (cases "pr_phase x = Stopping")
    case False
    with assms(2) have d: "main_step M Mc faulty (Inr x) (Inr (shutdown_done True x))" by (intro main_step.shutdown) simp
    have "pr_phase (shutdown_done True x) = Stopping" by (simp add: shutdown_done_def)
    from stopping_returns [OF main_inv_step [OF d inv] this] obtain x' where
      "(main_step M Mc faulty)\<^sup>*\<^sup>* (Inr (shutdown_done True x)) (Inr x')" "pr_phase x' = Returned" by blast
    with converse_rtranclp_into_rtranclp [of "main_step M Mc faulty", OF d] show ?thesis by blast
  qed (use stopping_returns [OF inv] in blast)
  with late_no_infinite [OF inv] late_stuck [OF inv] show ?thesis by blast
qed

theorem main_returns_witness:
  "\<exists>x'. (main_step sample_lib cancelled_lib True)\<^sup>*\<^sup>* (Inr (cancel (sample_process []))) (Inr x') \<and> pr_phase x' = Returned"
proof -
  have "reach main_init (main_step sample_lib cancelled_lib True) (Inr (sample_process []))"
    by (intro reach_init sample_process_init) simp_all
  then have "reach main_init (main_step sample_lib cancelled_lib True) (Inr (cancel (sample_process [])))"
    by (rule reach_step) (rule main_step.signal, simp add: sample_process_def)
  from main_returns [OF this] show ?thesis by (simp add: cancel_def)
qed

text \<open>
  C9: A signal loses the queue: a transfer that was accepted and not yet running when the signal came is never marked
  successful, however the shutdown goes; and when the program is started again on the database that is left,
  that transfer's row never changes, however that run goes. It ends as failed or stays unfinished for ever.
\<close>

theorem signal_loses_queue:
  assumes "cancelled Mc" and "reach main_init (main_step M Mc faulty) (Inr x)" and "pr_phase x = Serving"
    and "i \<in> p_submitted (sy_pool (pr_sys x))" and "i \<notin> begun (pr_sys x)"
    and "row_status (m_db (sys_m (pr_sys x))) i \<noteq> Some StatusSuccess"
    and "(main_step M Mc faulty)\<^sup>*\<^sup>* (Inr (cancel x)) (Inr x')"
  shows "\<exists>r. find_transfer (m_db (sys_m (pr_sys x'))) i = Some r \<and> (tr_status r = StatusFailed \<or> active_status (tr_status r)) \<and>
     (\<forall>M2 f2 y y'. sys_init (Inr y) \<and> m_db (sys_m y) = m_db (sys_m (pr_sys x')) \<and>
        (sys_step (M2 :: ('c, 'o, 'w) minio_lib) f2)\<^sup>*\<^sup>* (Inr y) (Inr y') \<longrightarrow> find_transfer (m_db (sys_m y')) i = Some r)"
proof -
  from main_sys.reach_inv [OF assms(2)] have inv: "main_inv faulty (Inr x)" .
  have c: "main_inv faulty (Inr (cancel x))" by (rule main_inv_step [OF main_step.signal inv]) (rule assms(3))
  have "doomed i (Inr (cancel x))" using assms(4-6) by (simp add: doomed_def cancel_def)
  from doomed_steps [OF assms(7,1) c this] have inv': "main_inv faulty (Inr x')" and d: "doomed i (Inr x')" by auto
  let ?d = "m_db (sys_m (pr_sys x'))"
  from inv' have ok: "pool_ok faulty (sy_pool (pr_sys x'))" "tables_ok faulty ?d"
    by (simp_all add: main_inv_def sys_inv_def)
  from d have "i \<in> p_submitted (sy_pool (pr_sys x'))" by (simp add: doomed_def)
  with ok(1) obtain r where r: "find_transfer ?d i = Some r"
    by (auto simp: pool_ok_def jobs_ok_def row_status_def sys_m_def)
  then have "r \<in> set (transfers ?d)" and id: "tr_id r = i" by (auto simp: find_transfer_def find_Some_iff)
  with ok(2) d r have "tr_status r \<in> valid_statuses" "tr_status r \<noteq> StatusSuccess"
    by (auto simp: tables_ok_def doomed_def row_status_def)
  then have st: "tr_status r = StatusFailed \<or> active_status (tr_status r)" by (auto simp: valid_statuses_def active_status_def)
  have "find_transfer (m_db (sys_m y')) i = Some r"
    if y: "sys_init (Inr y)" "m_db (sys_m y) = ?d" "(sys_step M2 f2)\<^sup>*\<^sup>* (Inr y) (Inr y')"
    for M2 :: "('c, 'o, 'w) minio_lib" and f2 y y'
  proof -
    have "orphan r (Inr y)" using r id y(2) sys_init_submitted [OF y(1)] by (simp add: orphan_def)
    from orphan_steps [OF y(3) sys.inv_init [OF y(1)] this] id show ?thesis by (simp add: orphan_def)
  qed
  with r st show ?thesis by blast
qed

theorem signal_loses_queue_witness:
  "\<exists>x i r. reach main_init (main_step sample_lib cancelled_lib False) (Inr x) \<and>
     find_transfer (m_db (sys_m (pr_sys (cancel x)))) i = Some r \<and> (tr_status r = StatusFailed \<or> active_status (tr_status r))"
proof -
  let ?x = "sample_process []"
  let ?rq = "sample_http ''POST'' (RWebhook sample_request)"
  from sample_sys_serve obtain resp au w where w: "serve sample_sys_env ?rq (sy_auth (sample_sys []), sys_w (sample_sys [])) = (Inr resp, au, w)"
    "m_queue (w_m w) \<noteq> []" by blast
  let ?y = "put_w au w (sample_sys [])"
  have inv: "sys_inv False (Inr (sample_sys []))" by (intro sys.inv_init sample_sys_init) simp_all
  have step: "sys_step sample_lib False (Inr (sample_sys [])) (Inr ?y)" by (rule sys_step.request [OF sample_request_ok w(1)])
  have init: "main_init (Inr ?x)" by (intro sample_process_init) simp_all
  from serve_pool [OF inv sample_request_ok w(1)] have keep: "\<not> m_closed (sys_m ?y)" "p_pool (sy_pool ?y) = p_pool (sy_pool (sample_sys []))"
    by (simp_all add: sample_sys_def sys_m_def Start_def NewManager_def)
  have "main_step sample_lib cancelled_lib False (Inr ?x) (map_sum id (\<lambda>y. ?x\<lparr>pr_sys := y\<rparr>) (Inr ?y))"
    using step keep(1) by (intro main_step.running) (simp_all add: sample_process_def)
  with reach_init [of main_init "Inr ?x", OF init]
  have reach: "reach main_init (main_step sample_lib cancelled_lib False) (Inr (?x\<lparr>pr_sys := ?y\<rparr>))"
    by (auto intro: reach_step)
  obtain j where j: "j \<in> set (m_queue (sys_m ?y))" using w(2) by (cases "m_queue (w_m w)") (auto simp: put_w_def sys_m_def pool_add_def)
  have ok: "pool_ok False (sy_pool ?y)" using sys_inv_step [OF step inv] by (simp add: sys_inv_def)
  from j have "(False, j) \<in> set (live (sy_pool ?y))" by (simp add: live_def sys_m_def)
  note i = pool_ok_row [OF ok this]
  have "jid j \<notin> begun ?y" using keep(2) by (auto simp: begun_def sample_sys_def Start_def NewManager_def)
  from signal_loses_queue [OF cancelled_lib reach, of "jid j" "cancel (?x\<lparr>pr_sys := ?y\<rparr>)"] this i reach show ?thesis
    by (auto simp: sample_process_def)
qed

end
