(* ===== verification/Spec2Isabelle.thy ===== *)
theory Spec2Isabelle
  imports FG_Program FG_Main
begin

text \<open>
  FlowGate copies objects between S3 servers. A MinIO server posts a bucket notification to
  \<open>/webhook/{group}/{app}\<close>; the handler finds the app, checks its token, drops duplicates, writes a
  pending row and queues a job; a worker of the pool copies the object from the app's source to its
  destination and retries with exponential backoff; every change is broadcast to the browsers that
  hold a WebSocket to the hub; a dashboard with a REST API manages groups and apps behind a session.

  \<^bold>\<open>The theories and the code.\<close> One theory per package or part of a package of \<open>src/\<close>; definitions carry the
  names of the Go functions (with a prefix where two packages share a name).

  \<^item> \<open>FG_Base\<close>: what Go programs compute with: 64-bit wrap-around, times and durations, errors, panics, responses,
    reachability; and the four generic interfaces as locales (\<open>invariant_system\<close>: an invariant kept by every step holds in
    every reachable state; \<open>expiring_map\<close>: a map whose entries expire and whose sweeps nobody can observe; \<open>fifo_queue\<close>;
    \<open>codec\<close>).
  \<^item> \<open>FG_Golib\<close>: the parts of the standard library the code uses: prefixes and trimming, hex, path escapes, buffered
    channels. It interprets \<open>codec\<close> for hex and percent encoding and \<open>fifo_queue\<close> for channels.
  \<^item> \<open>FG_Group\<close>: \<open>internal/group\<close>, with AES-GCM as a parameter. Round trip of the credentials.
  \<^item> \<open>FG_Config\<close>: \<open>internal/config\<close>, with the YAML decoder as a parameter. Interpolation, durations, defaults, validation.
  \<^item> \<open>FG_Store\<close>: \<open>internal/storage/store.go\<close>. The tables are lists of rows, each statement a function with the constraints
    of the schema, each query a function; an argument says whether the engine fails. Constraints as an invariant, read after
    write, paging whatever the order of ties, statistics, deletion. The locale \<open>transfer_store\<close> is what the pool and the handler rely on; the store
    interprets it.
  \<^item> \<open>FG_Migrations\<close>: \<open>migrations.go\<close> and its four scripts on a schema of tables, columns and indexes. Every schema that runs of
    \<open>Migrate\<close> with any failures can leave is what some first statements of the scripts make of an empty one (\<open>partial_at\<close>);
    from it a run reaches the current schema or, in the half-done ones, fails for ever.
  \<^item> \<open>FG_Batch\<close>: \<open>batch.go\<close>, the goroutine that groups writes, as the step relation \<open>bw_step\<close>. Requests are answered in
    order, none twice and none left waiting until \<open>close\<close>; without failures it refines the serial execution of the statements.
  \<^item> \<open>FG_Minio\<close>: \<open>minio.go\<close>, with the MinIO library as a parameter; the client cache under interleaving.
  \<^item> \<open>FG_Hub\<close>: \<open>internal/hub\<close>, the hub's loop, its clients and their two pumps as \<open>hub_step\<close>. No channel misuse, gapless
    delivery, eviction of slow clients only, clean departure.
  \<^item> \<open>FG_Transfer\<close>: \<open>internal/transfer\<close>, the queue, the workers, the retries and timers as \<open>work_step\<close> (the pool alone) and
    \<open>pool_step\<close> (with its surroundings). No job is lost, doubled or retried too often; the pool comes to rest, also after \<open>Stop\<close>.
  \<^item> \<open>FG_Webhook\<close>: \<open>internal/webhook\<close>: deduper and app cache (interpretations of \<open>expiring_map\<close>), token check, the whole handler
    with every early return.
  \<^item> \<open>FG_Ingest\<close>: many webhook requests at the same time, each a thread that runs the handler's loop call by call, over the
    batch writer of \<open>FG_Batch\<close>, as \<open>ig_step\<close>. No object gets two unfinished transfers as long as a write is committed within
    the window of the deduper; a run in which it gets two when it is not, and one in which an accepted request has no row
    because a commit failed after its answer.
  \<^item> \<open>FG_Auth\<close>: \<open>internal/auth\<close>: sessions (an \<open>expiring_map\<close> too), login, logout and the three middlewares.
  \<^item> \<open>FG_Dashboard\<close>: \<open>internal/dashboard\<close>: the fifteen API handlers with their JSON, the page handler, the health report.
    What an update leaves in the table when others write in between.
  \<^item> \<open>FG_Server\<close>: \<open>internal/server\<close> and the start of \<open>cmd/flowgate/main.go\<close>: routing, middlewares, access log, number printing,
    listening, the flags, the set-up of logging, \<open>main_start\<close>.
  \<^item> \<open>FG_System\<close>: the running program: the state \<open>main\<close> builds and the relation \<open>sys_step\<close> of all its goroutines together.
  \<^item> \<open>FG_Program\<close>: the running program at the grain of its calls, as \<open>prog_step\<close>: every webhook request a thread, queries on the
    committed tables, writes in a transaction whose commit may fail. Nothing panics, no job is doubled or forgotten.
  \<^item> \<open>FG_Main\<close>: the life of the process around it, \<open>main_step\<close>: serving, the signal, the drain, \<open>Stop\<close>, the return. It returns; what
    was queued when the signal came is lost.
  \<^item> This theory: the properties of the whole.

  \<^bold>\<open>State and effects.\<close> A struct is a record, handed through the operations; a Go error is the left of a sum, a panic the
  left of another; an HTTP handler maps a request and the state to a panic or a response and the new state. Clock readings,
  random bytes, new ids and failures of a call are arguments, so that a theorem covers all of them. Integers are \<open>int\<close> with the
  wrap-around written out (\<open>wrap64\<close>) where the code can overflow: the backoff, the retry counter and \<open>itoa\<close>.

  \<^bold>\<open>Loops and fuel.\<close> \<open>drain_loop\<close> has \<open>batchMaxSize\<close> as fuel: it takes at most that many requests (\<open>drain_loop_spec\<close> shows that it
  ends full or with an empty channel). \<open>trim_left_fuel\<close> and \<open>duration_groups\<close> have the length of the text, of which
  every round takes at least one character. \<open>itoa_loop\<close> and \<open>expand_env\<close> have termination proofs. The endless loops of the goroutines are
  step relations.

  \<^bold>\<open>Abstractions.\<close>

  \<^item> In \<open>sys_step\<close> a request is one step and a write is seen at once. \<open>prog_step\<close> has no such atomic webhook request and keeps what is
    written apart from what is committed; an API request is still one step there, but its statements may also come singly,
    whatever it read before (\<open>statement\<close>). What fails to hold at that grain is shown in \<open>FG_Ingest\<close>, where the batch writer is
    explicit and of the workers only what they write is kept: two unfinished transfers of one object when a commit takes
    longer than the window, and an accepted request without a row when it fails. The properties over \<open>sys_step\<close> that say more than
    \<open>system_safe\<close> (\<open>accepted_events_end\<close>, \<open>restart_strands_unfinished\<close>) are about requests that are not interrupted.
  \<^item> Failing calls: \<open>CreateTransfer\<close> and the queries may fail everywhere. The argument \<open>faulty\<close> of a step relation says whether the workers'
    \<open>UpdateTransfer\<close> may fail too, whose error the code only logs (in \<open>sys_step\<close> also the query for active transfers, in
    \<open>prog_step\<close> also a commit); the properties say what is lost then.
  \<^item> A cancelled context shows as failing calls; in \<open>FG_Main\<close> it is the library \<open>Mc\<close>, of which only \<open>cancelled\<close> is known. Log lines, except the access
    log, and delays before a refusal are left out.
  \<^item> What is parsed by a library (JSON bodies, YAML, the path of a request) is given to the model as the outcome of parsing.

  \<^bold>\<open>Not modelled.\<close> Path matching (chi); the SQLite engine below the statements, its schema apart; the MinIO client; how
  \<open>net/http\<close> drains its connections (\<open>Shutdown\<close> may return with or without handlers left); the WebSocket
  wire format with its deadlines and pings, which show as pumps that may fail at any moment; \<open>web/embed.go\<close> and the
  browser code.

  \<^bold>\<open>What is worth adding.\<close> The batch writer's channel and batches within \<open>prog_step\<close>, and the calls of the API handlers as threads.
\<close>

section \<open>The running system\<close>

text \<open>
  C1: The program as a whole is safe. In every state it can reach from a successful start with sound tables, with every webhook
  request a thread that makes its calls one by one between those of other requests, of the workers, timers and API requests, of the
  hub, the ticks and the sweeps, and whatever calls fail, the commits of the batch writer included, which loses answered writes: no
  goroutine has panicked, the tables satisfy the schema's constraints, in the open transaction as well as committed, the hub is
  sound, no transfer has two jobs, and a transfer that was written and not queued yet is not forgotten: its thread holds its
  job. As long as neither a commit nor a write of a worker fails, every transfer whose insert was answered without an error has its row
  (in the batch writer's transaction, which queries see after the commit), and it is still a live job or has ended in success or
  failure. That an object can get two unfinished transfers, and that a failed commit loses rows of accepted requests, is shown
  by \<open>ingest_race\<close> and \<open>accepted_without_row\<close> of \<open>FG_Ingest\<close>.
\<close>

theorem system_safe:
  assumes "reach prog_init (prog_step M faulty) st"
  shows "\<exists>x. st = Inr x \<and> db_ok (m_db (pg_m x)) \<and> db_ok (pg_committed x) \<and> hub_ok (m_hub (pg_m x)) \<and>
     distinct (map (jid \<circ> snd) (live (pg_pool x))) \<and> (jid \<circ> snd) ` set (live (pg_pool x)) \<subseteq> p_submitted (pg_pool x) \<and>
     (\<forall>h \<in> set (pg_runs x). \<forall>re rec recs. rn_pc h = HCreated re rec recs \<longrightarrow> (False, run_job h re rec) \<in> set (live (pg_pool x))) \<and>
     (\<not> faulty \<longrightarrow> (\<forall>i \<in> p_submitted (pg_pool x).
        find_transfer (m_db (pg_m x)) i \<noteq> None \<and>
        (i \<in> (jid \<circ> snd) ` set (live (pg_pool x)) \<or> (\<exists>s. row_status (m_db (pg_m x)) i = Some s \<and> final_status s))))"
proof -
  from prog.reach_inv [OF assms] obtain x where x: "st = Inr x" and ok: "prog_ok faulty x"
    by (auto simp: prog_inv_def split: sum.splits)
  from ok have "tables_ok True (m_db (pg_m x))" "tables_ok True (pg_committed x)" by (simp_all add: prog_ok_def)
  then have db: "db_ok (m_db (pg_m x))" "db_ok (pg_committed x)" by (simp_all add: tables_ok_def)
  from prog_ok_accepting [OF ok]
  have acc: "\<forall>h \<in> set (pg_runs x). \<forall>re rec recs. rn_pc h = HCreated re rec recs \<longrightarrow> (False, run_job h re rec) \<in> set (live (pg_pool x))"
    by blast
  from prog_ok_live [OF ok] have jobs: "distinct (map (jid \<circ> snd) (live (pg_pool x)))"
    "(jid \<circ> snd) ` set (live (pg_pool x)) \<subseteq> p_submitted (pg_pool x)" by blast+
  have "\<forall>i \<in> p_submitted (pg_pool x). find_transfer (m_db (pg_m x)) i \<noteq> None \<and>
      (i \<in> (jid \<circ> snd) ` set (live (pg_pool x)) \<or> (\<exists>s. row_status (m_db (pg_m x)) i = Some s \<and> final_status s))" if "\<not> faulty"
    using prog_ok_rows ok that by auto
  with x db acc jobs prog_ok_hubD [OF ok] show ?thesis by blast
qed

theorem system_safe_witness:
  "\<exists>x. reach prog_init (prog_step sample_lib False) (Inr x) \<and> p_accepting (pg_pool x) \<noteq> [] \<and>
     find_transfer (m_db (pg_m x)) ''u1'' \<noteq> None"
proof -
  from sample_prog_reach [of False] obtain x where x: "reach prog_init (prog_step sample_lib False) (Inr x)"
    "p_submitted (pg_pool x) = {''u1''}" "p_accepting (pg_pool x) \<noteq> []" by blast
  from system_safe [OF x(1)] x show ?thesis by auto
qed

text \<open>
  C16: Only five statuses: in every reachable state of the system each row of the transfers table has one of the five statuses
  of \<open>model.go\<close>; therefore the statistics, for any filter and in any state, always add up to the number of selected transfers.
\<close>

theorem system_rows_typed:
  assumes "reach sys_init (sys_step M faulty) (Inr y)"
  shows "(\<forall>r \<in> set (transfers (m_db (sys_m y))). tr_status r \<in> valid_statuses) \<and>
     (\<forall>a g stats. GetStats None a g (m_db (sys_m y)) = Inr stats \<longrightarrow>
        ts_total stats = ts_success stats + ts_failed stats + ts_in_progress stats + ts_pending stats + ts_retrying stats)"
proof -
  from sys.reach_inv [OF assms] have ok: "db_ok (m_db (sys_m y))"
    and st: "\<forall>r \<in> set (transfers (m_db (sys_m y))). tr_status r \<in> valid_statuses" by (simp_all add: sys_inv_def tables_ok_def)
  from GetStats_sums [OF ok st _ refl] st show ?thesis by blast
qed

theorem system_rows_typed_witness:
  "tr_status ` set (transfers (m_db (sys_m (sample_sys [transfer_to_row sample_transfer])))) \<subseteq> valid_statuses"
proof -
  have "reach sys_init (sys_step sample_lib True) (Inr (sample_sys [transfer_to_row sample_transfer]))"
    by (intro reach_init sample_sys_init) (simp_all add: sample_transfer_def valid_statuses_def)
  from system_rows_typed [OF this] show ?thesis by blast
qed

text \<open>
  C26: When the program comes up: with the version flag it prints its version, whatever the configuration; otherwise, with a
  configuration that \<open>Load\<close> accepted and a database that opens, \<open>main\<close> reaches
  the point where it serves requests if the deduplication window is positive, and panics if it is negative, which
  \<open>validate\<close> does not reject; the default is never the reason.
\<close>

theorem start_outcome:
  assumes "Load rf le yu path = Inr cfg" and "open_store (dc_path (c_database cfg)) = Inr (sch, d)"
  shows "(flowgate_main True path (Load rf le yu) open_store world = (Printed version_line :: ('c, 'w) system outcome)) \<and>
     (0 < tc_dedup_window (c_transfer cfg) \<longrightarrow>
        (\<exists>y. flowgate_main False path (Load rf le yu) open_store world = (Up y :: ('c, 'w) system outcome))) \<and>
     (tc_dedup_window (c_transfer cfg) < 0 \<longrightarrow>
        flowgate_main False path (Load rf le yu) open_store world = (Crash NonPositiveTicker :: ('c, 'w) system outcome)) \<and>
     tc_dedup_window (c_transfer cfg) \<noteq> 0"
proof -
  from Load_Inr [OF assms(1)] defaults_ok_applyDefaults have "tc_dedup_window (c_transfer cfg) \<noteq> 0"
    by (auto simp: defaults_ok_def)
  with main_start_outcome [where 'c = 'c, of open_store cfg sch d world] assms(2) show ?thesis
    by (simp add: flowgate_main_def assms(1))
qed

theorem start_outcome_witness:
  "\<exists>y. flowgate_main False ''config.yaml'' (Load (\<lambda>_. Inr []) (\<lambda>_. None) (\<lambda>_. Inr sample_config))
     (\<lambda>_. Inr (empty_schema, sample_sys_db [])) () = (Up y :: (sample_client, unit) system outcome)"
proof -
  have "0 < tc_dedup_window (c_transfer (applyDefaults sample_config))"
    by (simp add: applyDefaults_def sample_config_def Let_def default_int_def)
  then show ?thesis
    using start_outcome [where 'c = sample_client, OF sample_load, of "\<lambda>_. Inr (empty_schema, sample_sys_db [])" empty_schema "sample_sys_db []" "()"] by simp
qed



text \<open>
  C17: A restart forgets unfinished transfers: a transfer that the database holds as pending, in progress or retrying when the
  program starts is never touched again, however the program runs and whatever fails; and as long as it runs without failures
  of the database, no request adds a job for that transfer's object, because the handler takes the old row for work in progress.
\<close>

theorem restart_strands_unfinished:
  assumes "sys_init (Inr y)" and "find_transfer (m_db (sys_m y)) i = Some r" and "active_status (tr_status r)"
    and "(sys_step M faulty)\<^sup>*\<^sup>* (Inr y) (Inr y')"
  shows "find_transfer (m_db (sys_m y')) i = Some r \<and>
     (\<forall>env rq resp au w. \<not> faulty \<and> request_ok faulty env rq y' \<and> serve env rq (sy_auth y', sys_w y') = (resp, au, w) \<longrightarrow>
        (\<forall>j \<in> set (drop (length (m_queue (sys_m y'))) (m_queue (w_m w))).
           \<not> (t_app_id (j_transfer j) = tr_app_id r \<and> t_object_key (j_transfer j) = tr_object_key r)))"
proof -
  from assms(2) have i: "tr_id r = i" by (auto simp: find_transfer_def find_Some_iff)
  from sys.inv_init [OF assms(1)] have inv: "sys_inv faulty (Inr y)" .
  from assms(2) i sys_init_submitted [OF assms(1)] have "orphan r (Inr y)" by (simp add: orphan_def)
  from orphan_steps [OF assms(4) inv this] i have inv': "sys_inv faulty (Inr y')" and row: "find_transfer (m_db (sys_m y')) i = Some r"
    by (simp_all add: orphan_def)
  have "\<not> (t_app_id (j_transfer j) = tr_app_id r \<and> t_object_key (j_transfer j) = tr_object_key r)"
    if nf: "\<not> faulty" and rq: "request_ok faulty env rq y'" "serve env rq (sy_auth y', sys_w y') = (resp, au, w)"
      and j: "j \<in> set (drop (length (m_queue (sys_m y'))) (m_queue (w_m w)))" for env rq resp au w j
  proof -
    from serve_adds [OF inv' rq] nf obtain js where js: "adds_to_pool False (sy_pool y') (w_m w) js" by auto
    with j have "j \<in> set js" by (simp add: adds_to_pool_def sys_m_def)
    from active_blocks [OF js this, of i r] row assms(3) show ?thesis by (auto simp: sys_m_def)
  qed
  with row show ?thesis by blast
qed

theorem restart_strands_unfinished_witness:
  "let r = (transfer_to_row sample_transfer)\<lparr>tr_status := StatusRetrying\<rparr>;
       y = sample_sys [r]
   in find_transfer (m_db (sys_m (set_m (Stop (sys_m y)) y))) ''t1'' = Some r"
proof -
  let ?r = "(transfer_to_row sample_transfer)\<lparr>tr_status := StatusRetrying\<rparr>"
  let ?y = "sample_sys [?r]"
  have "sys_init (Inr ?y)" by (rule sample_sys_init) (simp_all add: sample_transfer_def valid_statuses_def)
  moreover have "find_transfer (m_db (sys_m ?y)) ''t1'' = Some ?r"
    by (simp add: find_transfer_def sys_m_def sample_sys_def Start_def NewManager_def sample_sys_db_def sample_transfer_def)
  moreover have "active_status (tr_status ?r)" by (simp add: active_status_def)
  moreover have "(sys_step sample_lib False)\<^sup>*\<^sup>* (Inr ?y) (Inr (set_m (Stop (sys_m ?y)) ?y))"
    using sys_step.stop [of sample_lib False ?y] by simp
  ultimately show ?thesis using restart_strands_unfinished [of ?y "''t1''" ?r sample_lib False] by (simp add: Let_def)
qed

section \<open>From the API to the webhook\<close>



end
